theory Spec2Isabelle
  imports Complex_Main "HOL-Library.Monad_Syntax"
begin

section \<open>Rigid transforms and spatial vectors\<close>

text \<open>
  The source works on Eigen's \<^verbatim>\<open>Isometry3d\<close>, \<^verbatim>\<open>Vector3d\<close> and \<^verbatim>\<open>Vector6d\<close> over
  \<^verbatim>\<open>double\<close>. The scalars are idealised as real numbers and rounding is not
  modelled: the properties below are about which operands are composed and in which
  order. Where a property rests on an exact cancellation, the exactness it needs is a
  hypothesis, and the example against it is made of binary fractions on which the
  arithmetic of \<^verbatim>\<open>double\<close> is exact. A
  6-vector is made of its \<^verbatim>\<open>head<3>()\<close> (angular part) and its \<^verbatim>\<open>tail<3>()\<close>
  (linear part). An isometry is made of its \<^verbatim>\<open>linear()\<close> part (a 3x3 matrix) and
  its \<^verbatim>\<open>translation()\<close>.
\<close>

datatype Vector3d = Vector3d real real real

datatype Matrix3d = Matrix3d Vector3d Vector3d Vector3d

datatype Vector6d = Vector6d (head3: Vector3d) (tail3: Vector3d)

datatype Isometry3d = Isometry3d (linear: Matrix3d) (translation: Vector3d)

definition Zero3 :: Vector3d where
  "Zero3 = Vector3d 0 0 0"

definition Zero6 :: Vector6d where
  "Zero6 = Vector6d Zero3 Zero3"

fun add3 :: "Vector3d \<Rightarrow> Vector3d \<Rightarrow> Vector3d" where
  "add3 (Vector3d a1 a2 a3) (Vector3d b1 b2 b3) = Vector3d (a1 + b1) (a2 + b2) (a3 + b3)"

fun sub3 :: "Vector3d \<Rightarrow> Vector3d \<Rightarrow> Vector3d" where
  "sub3 (Vector3d a1 a2 a3) (Vector3d b1 b2 b3) = Vector3d (a1 - b1) (a2 - b2) (a3 - b3)"

fun neg3 :: "Vector3d \<Rightarrow> Vector3d" where
  "neg3 (Vector3d a1 a2 a3) = Vector3d (- a1) (- a2) (- a3)"

fun dot3 :: "Vector3d \<Rightarrow> Vector3d \<Rightarrow> real" where
  "dot3 (Vector3d a1 a2 a3) (Vector3d b1 b2 b3) = a1 * b1 + a2 * b2 + a3 * b3"

fun cross :: "Vector3d \<Rightarrow> Vector3d \<Rightarrow> Vector3d" where
  "cross (Vector3d a1 a2 a3) (Vector3d b1 b2 b3) =
     Vector3d (a2 * b3 - a3 * b2) (a3 * b1 - a1 * b3) (a1 * b2 - a2 * b1)"

text \<open>A matrix is given by its three rows.\<close>

fun mat_vec :: "Matrix3d \<Rightarrow> Vector3d \<Rightarrow> Vector3d" where
  "mat_vec (Matrix3d r1 r2 r3) v = Vector3d (dot3 r1 v) (dot3 r2 v) (dot3 r3 v)"

fun transpose3 :: "Matrix3d \<Rightarrow> Matrix3d" where
  "transpose3 (Matrix3d (Vector3d a11 a12 a13) (Vector3d a21 a22 a23) (Vector3d a31 a32 a33)) =
     Matrix3d (Vector3d a11 a21 a31) (Vector3d a12 a22 a32) (Vector3d a13 a23 a33)"

fun mat_mul :: "Matrix3d \<Rightarrow> Matrix3d \<Rightarrow> Matrix3d" where
  "mat_mul (Matrix3d r1 r2 r3) B =
     (case transpose3 B of Matrix3d c1 c2 c3 \<Rightarrow>
        Matrix3d (Vector3d (dot3 r1 c1) (dot3 r1 c2) (dot3 r1 c3))
                 (Vector3d (dot3 r2 c1) (dot3 r2 c2) (dot3 r2 c3))
                 (Vector3d (dot3 r3 c1) (dot3 r3 c2) (dot3 r3 c3)))"

definition Identity3 :: Matrix3d where
  "Identity3 = Matrix3d (Vector3d 1 0 0) (Vector3d 0 1 0) (Vector3d 0 0 1)"

text \<open>\<^verbatim>\<open>Eigen::Isometry3d::Identity()\<close>.\<close>

definition Identity :: Isometry3d where
  "Identity = Isometry3d Identity3 Zero3"

text \<open>\<^verbatim>\<open>operator*\<close> of two isometries: \<open>tmul A B\<close> is \<^verbatim>\<open>A * B\<close>, the transform that
  applies \<open>B\<close> first and \<open>A\<close> second.\<close>

definition tmul :: "Isometry3d \<Rightarrow> Isometry3d \<Rightarrow> Isometry3d" where
  "tmul A B =
     Isometry3d (mat_mul (linear A) (linear B))
                (add3 (mat_vec (linear A) (translation B)) (translation A))"

text \<open>\<^verbatim>\<open>inverse()\<close> of an \<^verbatim>\<open>Isometry\<close>-mode transform: Eigen transposes the linear
  part instead of inverting it.\<close>

definition inverse_tf :: "Isometry3d \<Rightarrow> Isometry3d" where
  "inverse_tf T =
     Isometry3d (transpose3 (linear T))
                (neg3 (mat_vec (transpose3 (linear T)) (translation T)))"

definition add6 :: "Vector6d \<Rightarrow> Vector6d \<Rightarrow> Vector6d" where
  "add6 X Y = Vector6d (add3 (head3 X) (head3 Y)) (add3 (tail3 X) (tail3 Y))"

definition sub6 :: "Vector6d \<Rightarrow> Vector6d \<Rightarrow> Vector6d" where
  "sub6 X Y = Vector6d (sub3 (head3 X) (head3 Y)) (sub3 (tail3 X) (tail3 Y))"

text \<open>
  Modelled from the spec: the helpers \<^verbatim>\<open>math::AdR\<close>, \<^verbatim>\<open>math::AdT\<close>, \<^verbatim>\<open>math::AdInvT\<close>
  and \<^verbatim>\<open>math::ad\<close> are called by \<^verbatim>\<open>Frame.cpp\<close> and defined elsewhere in the library.
  The spec names them the rotational part of the adjoint, the (full) adjoint
  transport, the inverse adjoint transport and the Lie bracket, on 6-vectors with
  the angular part first and the linear part second.
\<close>

definition AdR :: "Isometry3d \<Rightarrow> Vector6d \<Rightarrow> Vector6d" where
  "AdR T V = Vector6d (mat_vec (linear T) (head3 V)) (mat_vec (linear T) (tail3 V))"

definition AdT :: "Isometry3d \<Rightarrow> Vector6d \<Rightarrow> Vector6d" where
  "AdT T V =
     Vector6d (mat_vec (linear T) (head3 V))
              (add3 (mat_vec (linear T) (tail3 V))
                    (cross (translation T) (mat_vec (linear T) (head3 V))))"

definition AdInvT :: "Isometry3d \<Rightarrow> Vector6d \<Rightarrow> Vector6d" where
  "AdInvT T V =
     Vector6d (mat_vec (transpose3 (linear T)) (head3 V))
              (mat_vec (transpose3 (linear T))
                 (add3 (tail3 V) (cross (head3 V) (translation T))))"

definition ad :: "Vector6d \<Rightarrow> Vector6d \<Rightarrow> Vector6d" where
  "ad X Y =
     Vector6d (cross (head3 X) (head3 Y))
              (add3 (cross (head3 X) (tail3 Y)) (cross (tail3 X) (head3 Y)))"


section \<open>Objects and the heap\<close>

text \<open>
  Objects live in a heap indexed by addresses; a C++ pointer is an address or
  \<^verbatim>\<open>NULL\<close> (\<open>None\<close>). \<^verbatim>\<open>Frame\<close> derives from \<^verbatim>\<open>Entity\<close>. The pure virtual primitives
  of a concrete frame (\<^verbatim>\<open>getRelativeTransform()\<close> and its three companions) are
  modelled by the values they return, stored with the frame, together with a
  counter of the invocations of \<^verbatim>\<open>getRelativeTransform()\<close> (the instrumented stub
  of the spec). A \<^verbatim>\<open>std::set\<close> of pointers is the list of its elements in iteration
  order.
\<close>

type_synonym ptr = nat

record Entity =
  mName :: string
  mParentFrame :: "ptr option"
  mAmQuiet :: bool

record Frame = Entity +
  mNeedTransformUpdate :: bool
  mNeedVelocityUpdate :: bool
  mNeedAccelerationUpdate :: bool
  mWorldTransform :: Isometry3d
  mVelocity :: Vector6d
  mAcceleration :: Vector6d
  mAmWorld :: bool
  mChildEntities :: "ptr list"
  mChildFrames :: "ptr list"
  mVizShapes :: "ptr list"
  relativeTransform :: Isometry3d
  relativeSpatialVelocity :: Vector6d
  primaryRelativeAcceleration :: Vector6d
  partialAcceleration :: Vector6d
  relativeTransformCalls :: nat

datatype obj = EntityObj Entity | FrameObj Frame | ShapeObj

type_synonym heap = "ptr \<rightharpoonup> obj"

text \<open>A result of \<open>None\<close> stands for an execution with no defined result: a null or
  dangling pointer is dereferenced, or the recursion never returns.\<close>

definition getFrame :: "heap \<Rightarrow> ptr \<Rightarrow> Frame option" where
  "getFrame s p = (case s p of Some (FrameObj f) \<Rightarrow> Some f | _ \<Rightarrow> None)"

definition isWorld :: "heap \<Rightarrow> ptr \<Rightarrow> bool option" where
  "isWorld s this = map_option mAmWorld (getFrame s this)"

text \<open>The primitive of the concrete frame, counting its invocations.\<close>

definition getRelativeTransform :: "heap \<Rightarrow> ptr \<Rightarrow> (Isometry3d \<times> heap) option" where
  "getRelativeTransform s this =
     (case getFrame s this of
        None \<Rightarrow> None
      | Some f \<Rightarrow>
          Some (relativeTransform f,
                s(this \<mapsto> FrameObj (f\<lparr>relativeTransformCalls := Suc (relativeTransformCalls f)\<rparr>))))"

section \<open>Pose query\<close>

text \<open>\<^verbatim>\<open>Frame::getWorldTransform\<close>. The two operands of the product are evaluated
  left to right.\<close>

partial_function (option) getWorldTransform :: "heap \<Rightarrow> ptr \<Rightarrow> (Isometry3d \<times> heap) option" where
  "getWorldTransform s this =
     (case getFrame s this of
        None \<Rightarrow> None
      | Some f \<Rightarrow>
          if mAmWorld f then Some (mWorldTransform f, s)
          else if mNeedTransformUpdate f then
            (case mParentFrame f of
               None \<Rightarrow> None
             | Some parent \<Rightarrow>
                 Option.bind (getWorldTransform s parent) (\<lambda>(Tp, s1).
                 Option.bind (getRelativeTransform s1 this) (\<lambda>(Tr, s2).
                 Option.bind (getFrame s2 this) (\<lambda>f2.
                   Some (tmul Tp Tr,
                         s2(this \<mapsto> FrameObj (f2\<lparr>mWorldTransform := tmul Tp Tr,
                                                  mNeedTransformUpdate := False\<rparr>)))))))
          else Some (mWorldTransform f, s))"

text \<open>\<^verbatim>\<open>Frame::getTransform\<close>.\<close>

definition getTransform :: "heap \<Rightarrow> ptr \<Rightarrow> ptr \<Rightarrow> (Isometry3d \<times> heap) option" where
  "getTransform s this withRespectTo =
     (case isWorld s withRespectTo of
        None \<Rightarrow> None
      | Some True \<Rightarrow> getWorldTransform s this
      | Some False \<Rightarrow>
          (case getFrame s this of
             None \<Rightarrow> None
           | Some f \<Rightarrow>
               if Some withRespectTo = mParentFrame f then getRelativeTransform s this
               else
                 Option.bind (getWorldTransform s withRespectTo) (\<lambda>(Tw, s1).
                 Option.bind (getWorldTransform s1 this) (\<lambda>(Tt, s2).
                   Some (tmul (inverse_tf Tw) Tt, s2)))))"

section \<open>Velocity query\<close>

text \<open>The other primitives of the concrete frame.\<close>

definition getRelativeSpatialVelocity :: "heap \<Rightarrow> ptr \<Rightarrow> Vector6d option" where
  "getRelativeSpatialVelocity s this = map_option relativeSpatialVelocity (getFrame s this)"

definition getPrimaryRelativeAcceleration :: "heap \<Rightarrow> ptr \<Rightarrow> Vector6d option" where
  "getPrimaryRelativeAcceleration s this =
     map_option primaryRelativeAcceleration (getFrame s this)"

definition getPartialAcceleration :: "heap \<Rightarrow> ptr \<Rightarrow> Vector6d option" where
  "getPartialAcceleration s this = map_option partialAcceleration (getFrame s this)"

text \<open>\<^verbatim>\<open>Frame::getSpatialVelocity()\<close>, the cached velocity. Arguments and operands are
  evaluated left to right, here and below.\<close>

partial_function (option) getSpatialVelocity :: "heap \<Rightarrow> ptr \<Rightarrow> (Vector6d \<times> heap) option" where
  "getSpatialVelocity s this =
     (case getFrame s this of
        None \<Rightarrow> None
      | Some f \<Rightarrow>
          if mAmWorld f then Some (mVelocity f, s)
          else if mNeedVelocityUpdate f then
            Option.bind (getRelativeTransform s this) (\<lambda>(Tr, s1).
              (case mParentFrame f of
                 None \<Rightarrow> None
               | Some parent \<Rightarrow>
                   Option.bind (getSpatialVelocity s1 parent) (\<lambda>(Vp, s2).
                   Option.bind (getRelativeSpatialVelocity s2 this) (\<lambda>Vr.
                   Option.bind (getFrame s2 this) (\<lambda>f2.
                     Some (add6 (AdInvT Tr Vp) Vr,
                           s2(this \<mapsto> FrameObj (f2\<lparr>mVelocity := add6 (AdInvT Tr Vp) Vr,
                                                    mNeedVelocityUpdate := False\<rparr>))))))))
          else Some (mVelocity f, s))"

text \<open>\<^verbatim>\<open>Frame::getSpatialVelocity(_inCoordinatesOf)\<close>.\<close>

definition getSpatialVelocity1 :: "heap \<Rightarrow> ptr \<Rightarrow> ptr \<Rightarrow> (Vector6d \<times> heap) option" where
  "getSpatialVelocity1 s this inCoordinatesOf =
     (if this = inCoordinatesOf then getSpatialVelocity s this
      else
        (case isWorld s inCoordinatesOf of
           None \<Rightarrow> None
         | Some True \<Rightarrow>
             Option.bind (getWorldTransform s this) (\<lambda>(T, s1).
             Option.bind (getSpatialVelocity s1 this) (\<lambda>(V, s2).
               Some (AdR T V, s2)))
         | Some False \<Rightarrow>
             Option.bind (getTransform s this inCoordinatesOf) (\<lambda>(T, s1).
             Option.bind (getSpatialVelocity s1 this) (\<lambda>(V, s2).
               Some (AdR T V, s2)))))"

text \<open>\<^verbatim>\<open>Frame::getSpatialVelocity(_relativeTo, _inCoordinatesOf)\<close>.\<close>

definition getSpatialVelocity2 ::
  "heap \<Rightarrow> ptr \<Rightarrow> ptr \<Rightarrow> ptr \<Rightarrow> (Vector6d \<times> heap) option" where
  "getSpatialVelocity2 s this relativeTo inCoordinatesOf =
     Option.bind (getTransform s this inCoordinatesOf) (\<lambda>(T1, s1).
     Option.bind (getSpatialVelocity s1 this) (\<lambda>(V1, s2).
     Option.bind (getTransform s2 relativeTo this) (\<lambda>(T2, s3).
     Option.bind (getSpatialVelocity s3 relativeTo) (\<lambda>(V2, s4).
       Some (AdR T1 (sub6 V1 (AdT T2 V2)), s4)))))"

definition getLinearVelocity ::
  "heap \<Rightarrow> ptr \<Rightarrow> ptr \<Rightarrow> ptr \<Rightarrow> (Vector3d \<times> heap) option" where
  "getLinearVelocity s this relativeTo inCoordinatesOf =
     Option.bind (getSpatialVelocity2 s this relativeTo inCoordinatesOf) (\<lambda>(V, s1).
       Some (tail3 V, s1))"

definition getAngularVelocity ::
  "heap \<Rightarrow> ptr \<Rightarrow> ptr \<Rightarrow> ptr \<Rightarrow> (Vector3d \<times> heap) option" where
  "getAngularVelocity s this relativeTo inCoordinatesOf =
     Option.bind (getSpatialVelocity2 s this relativeTo inCoordinatesOf) (\<lambda>(V, s1).
       Some (head3 V, s1))"

section \<open>Acceleration query\<close>

text \<open>\<^verbatim>\<open>Frame::getSpatialAcceleration()\<close>, the cached acceleration.\<close>

partial_function (option) getSpatialAcceleration ::
  "heap \<Rightarrow> ptr \<Rightarrow> (Vector6d \<times> heap) option" where
  "getSpatialAcceleration s this =
     (case getFrame s this of
        None \<Rightarrow> None
      | Some f \<Rightarrow>
          if mAmWorld f then Some (mAcceleration f, s)
          else if mNeedAccelerationUpdate f then
            Option.bind (getRelativeTransform s this) (\<lambda>(Tr, s1).
              (case mParentFrame f of
                 None \<Rightarrow> None
               | Some parent \<Rightarrow>
                   Option.bind (getSpatialAcceleration s1 parent) (\<lambda>(Ap, s2).
                   Option.bind (getPrimaryRelativeAcceleration s2 this) (\<lambda>A1.
                   Option.bind (getPartialAcceleration s2 this) (\<lambda>A2.
                   Option.bind (getFrame s2 this) (\<lambda>f2.
                     Some (add6 (add6 (AdInvT Tr Ap) A1) A2,
                           s2(this \<mapsto> FrameObj
                                (f2\<lparr>mAcceleration := add6 (add6 (AdInvT Tr Ap) A1) A2,
                                    mNeedAccelerationUpdate := False\<rparr>)))))))))
          else Some (mAcceleration f, s))"

text \<open>\<^verbatim>\<open>Frame::getSpatialAcceleration(_inCoordinatesOf)\<close>.\<close>

definition getSpatialAcceleration1 ::
  "heap \<Rightarrow> ptr \<Rightarrow> ptr \<Rightarrow> (Vector6d \<times> heap) option" where
  "getSpatialAcceleration1 s this inCoordinatesOf =
     (if this = inCoordinatesOf then getSpatialAcceleration s this
      else
        (case isWorld s inCoordinatesOf of
           None \<Rightarrow> None
         | Some True \<Rightarrow>
             Option.bind (getWorldTransform s this) (\<lambda>(T, s1).
             Option.bind (getSpatialAcceleration s1 this) (\<lambda>(A, s2).
               Some (AdR T A, s2)))
         | Some False \<Rightarrow>
             Option.bind (getTransform s this inCoordinatesOf) (\<lambda>(T, s1).
             Option.bind (getSpatialAcceleration s1 this) (\<lambda>(A, s2).
               Some (AdR T A, s2)))))"

text \<open>\<^verbatim>\<open>Frame::getSpatialAcceleration(_relativeTo, _inCoordinatesOf)\<close>.\<close>

definition getSpatialAcceleration2 ::
  "heap \<Rightarrow> ptr \<Rightarrow> ptr \<Rightarrow> ptr \<Rightarrow> (Vector6d \<times> heap) option" where
  "getSpatialAcceleration2 s this relativeTo inCoordinatesOf =
     Option.bind (getTransform s this inCoordinatesOf) (\<lambda>(T1, s1).
     Option.bind (getSpatialAcceleration s1 this) (\<lambda>(A1, s2).
     Option.bind (getTransform s2 relativeTo this) (\<lambda>(T2, s3).
     Option.bind (getSpatialAcceleration s3 relativeTo) (\<lambda>(A2, s4).
     Option.bind (getSpatialVelocity s4 this) (\<lambda>(V1, s5).
     Option.bind (getSpatialVelocity2 s5 this relativeTo this) (\<lambda>(V21, s6).
       Some (AdR T1 (sub6 (sub6 A1 (AdT T2 A2)) (ad V1 V21)), s6)))))))"

text \<open>\<^verbatim>\<open>Frame::getLinearAcceleration\<close> and \<^verbatim>\<open>Frame::getAngularAcceleration\<close>.\<close>

definition getLinearAcceleration ::
  "heap \<Rightarrow> ptr \<Rightarrow> ptr \<Rightarrow> ptr \<Rightarrow> (Vector3d \<times> heap) option" where
  "getLinearAcceleration s this relativeTo inCoordinatesOf =
     Option.bind (getSpatialVelocity2 s this relativeTo inCoordinatesOf) (\<lambda>(v_rel, s1).
     Option.bind (getSpatialAcceleration2 s1 this relativeTo inCoordinatesOf) (\<lambda>(A, s2).
       Some (add3 (tail3 A) (cross (head3 v_rel) (tail3 v_rel)), s2)))"

definition getAngularAcceleration ::
  "heap \<Rightarrow> ptr \<Rightarrow> ptr \<Rightarrow> ptr \<Rightarrow> (Vector3d \<times> heap) option" where
  "getAngularAcceleration s this relativeTo inCoordinatesOf =
     Option.bind (getSpatialAcceleration2 s this relativeTo inCoordinatesOf) (\<lambda>(A, s1).
       Some (head3 A, s1))"

section \<open>Invalidation propagation\<close>

text \<open>
  The three notify methods are virtual and recurse through the child entities. The
  recursion is bounded by a fuel argument, the depth of the call stack; with no fuel
  left the result is \<open>None\<close>.

  Modelled from the spec: \<^verbatim>\<open>Entity::notifyTransformUpdate\<close>,
  \<^verbatim>\<open>Entity::notifyVelocityUpdate\<close> and \<^verbatim>\<open>Entity::notifyAccelerationUpdate\<close>, the hooks of
  an entity that is not a frame, are defined outside \<^verbatim>\<open>Frame.cpp\<close>. The spec gives
  an entity a name, a parent and a suppression flag and no cached quantity, so the
  hooks leave the modelled state as it is.
\<close>

definition Entity_notifyUpdate :: "heap \<Rightarrow> ptr \<Rightarrow> heap option" where
  "Entity_notifyUpdate s this = Some s"

text \<open>The loop \<^verbatim>\<open>for( ; it != end; ++it) (*it)->g()\<close> over a set of pointers.\<close>

fun forEach :: "ptr list \<Rightarrow> (heap \<Rightarrow> ptr \<Rightarrow> heap option) \<Rightarrow> heap \<Rightarrow> heap option" where
  "forEach [] g s = Some s"
| "forEach (c # cs) g s = Option.bind (g s c) (forEach cs g)"

primrec notifyAccelerationUpdate :: "nat \<Rightarrow> heap \<Rightarrow> ptr \<Rightarrow> heap option" where
  "notifyAccelerationUpdate 0 = (\<lambda>s this. None)"
| "notifyAccelerationUpdate (Suc n) = (\<lambda>s this.
     (case s this of
        Some (FrameObj f) \<Rightarrow>
          if mNeedAccelerationUpdate f then Some s
          else forEach (mChildEntities f) (notifyAccelerationUpdate n)
                 (s(this \<mapsto> FrameObj (f\<lparr>mNeedAccelerationUpdate := True\<rparr>)))
      | Some (EntityObj e) \<Rightarrow> Entity_notifyUpdate s this
      | _ \<Rightarrow> None))"

primrec notifyVelocityUpdate :: "nat \<Rightarrow> heap \<Rightarrow> ptr \<Rightarrow> heap option" where
  "notifyVelocityUpdate 0 = (\<lambda>s this. None)"
| "notifyVelocityUpdate (Suc n) = (\<lambda>s this.
     (case s this of
        Some (FrameObj f) \<Rightarrow>
          Option.bind (notifyAccelerationUpdate n s this) (\<lambda>s1.
          Option.bind (getFrame s1 this) (\<lambda>f1.
            if mNeedVelocityUpdate f1 then Some s1
            else forEach (mChildEntities f1) (notifyVelocityUpdate n)
                   (s1(this \<mapsto> FrameObj (f1\<lparr>mNeedVelocityUpdate := True\<rparr>)))))
      | Some (EntityObj e) \<Rightarrow> Entity_notifyUpdate s this
      | _ \<Rightarrow> None))"

primrec notifyTransformUpdate :: "nat \<Rightarrow> heap \<Rightarrow> ptr \<Rightarrow> heap option" where
  "notifyTransformUpdate 0 = (\<lambda>s this. None)"
| "notifyTransformUpdate (Suc n) = (\<lambda>s this.
     (case s this of
        Some (FrameObj f) \<Rightarrow>
          Option.bind (notifyVelocityUpdate n s this) (\<lambda>s1.
          Option.bind (getFrame s1 this) (\<lambda>f1.
            if mNeedTransformUpdate f1 then Some s1
            else forEach (mChildEntities f1) (notifyTransformUpdate n)
                   (s1(this \<mapsto> FrameObj (f1\<lparr>mNeedTransformUpdate := True\<rparr>)))))
      | Some (EntityObj e) \<Rightarrow> Entity_notifyUpdate s this
      | _ \<Rightarrow> None))"

section \<open>Reparenting\<close>

text \<open>The \<^verbatim>\<open>Entity\<close> members of an object of either class.\<close>

definition getParentFrame :: "heap \<Rightarrow> ptr \<Rightarrow> ptr option option" where
  "getParentFrame s this =
     (case s this of
        Some (FrameObj f) \<Rightarrow> Some (mParentFrame f)
      | Some (EntityObj e) \<Rightarrow> Some (mParentFrame e)
      | _ \<Rightarrow> None)"

definition getAmQuiet :: "heap \<Rightarrow> ptr \<Rightarrow> bool option" where
  "getAmQuiet s this =
     (case s this of
        Some (FrameObj f) \<Rightarrow> Some (mAmQuiet f)
      | Some (EntityObj e) \<Rightarrow> Some (mAmQuiet e)
      | _ \<Rightarrow> None)"

definition getName :: "heap \<Rightarrow> ptr \<Rightarrow> string option" where
  "getName s this =
     (case s this of
        Some (FrameObj f) \<Rightarrow> Some (mName f)
      | Some (EntityObj e) \<Rightarrow> Some (mName e)
      | _ \<Rightarrow> None)"

definition setParentFrame :: "heap \<Rightarrow> ptr \<Rightarrow> ptr option \<Rightarrow> heap option" where
  "setParentFrame s this newParentFrame =
     (case s this of
        Some (FrameObj f) \<Rightarrow> Some (s(this \<mapsto> FrameObj (f\<lparr>mParentFrame := newParentFrame\<rparr>)))
      | Some (EntityObj e) \<Rightarrow> Some (s(this \<mapsto> EntityObj (e\<lparr>mParentFrame := newParentFrame\<rparr>)))
      | _ \<Rightarrow> None)"

text \<open>\<^verbatim>\<open>std::set::insert\<close> and \<^verbatim>\<open>find\<close> followed by \<^verbatim>\<open>erase\<close>, on the list of elements.\<close>

definition set_insert :: "ptr \<Rightarrow> ptr list \<Rightarrow> ptr list" where
  "set_insert x xs = (if x \<in> set xs then xs else insort x xs)"

definition set_erase :: "ptr \<Rightarrow> ptr list \<Rightarrow> ptr list" where
  "set_erase x xs = removeAll x xs"

text \<open>
  Modelled from the spec: \<^verbatim>\<open>Entity::dependsOn\<close>, the dependency check, is defined
  outside \<^verbatim>\<open>Frame.cpp\<close>. By the spec \<^verbatim>\<open>newParent->dependsOn(this)\<close> holds when
  \<open>newParent\<close> is this frame or a descendant of this frame; the World frame is the
  frame with no parent, so the walk up the parents ends there.
\<close>

partial_function (option) dependsOn :: "heap \<Rightarrow> ptr \<Rightarrow> ptr \<Rightarrow> bool option" where
  "dependsOn s this someFrame =
     (case s this of
        Some (FrameObj f) \<Rightarrow>
          if this = someFrame then Some True
          else if mAmWorld f then Some False
          else (case mParentFrame f of
                  None \<Rightarrow> Some False
                | Some parent \<Rightarrow> dependsOn s parent someFrame)
      | Some (EntityObj e) \<Rightarrow>
          if this = someFrame then Some True
          else (case mParentFrame e of
                  None \<Rightarrow> Some False
                | Some parent \<Rightarrow> dependsOn s parent someFrame)
      | _ \<Rightarrow> None)"

text \<open>
  Modelled from the spec: \<^verbatim>\<open>Entity::changeParentFrame\<close> is defined outside
  \<^verbatim>\<open>Frame.cpp\<close>. By the spec it removes the entity from its old parent's child-entity
  set (unless suppressed), updates the parent reference, and, unless suppressed,
  registers the entity into the new parent's child-entity set; a null new parent
  detaches without registering anywhere.
\<close>

definition Entity_changeParentFrame :: "heap \<Rightarrow> ptr \<Rightarrow> ptr option \<Rightarrow> heap option" where
  "Entity_changeParentFrame s this newParentFrame =
     Option.bind (getAmQuiet s this) (\<lambda>quiet.
     Option.bind (getParentFrame s this) (\<lambda>oldParent.
     Option.bind
       (case oldParent of
          Some op \<Rightarrow>
            if quiet then Some s
            else Option.bind (getFrame s op) (\<lambda>pf.
              Some (s(op \<mapsto> FrameObj (pf\<lparr>mChildEntities := set_erase this (mChildEntities pf)\<rparr>))))
        | None \<Rightarrow> Some s) (\<lambda>s1.
     Option.bind (setParentFrame s1 this newParentFrame) (\<lambda>s2.
       (case newParentFrame of
          Some np \<Rightarrow>
            if quiet then Some s2
            else Option.bind (getFrame s2 np) (\<lambda>pf.
              Some (s2(np \<mapsto> FrameObj (pf\<lparr>mChildEntities := set_insert this (mChildEntities pf)\<rparr>))))
        | None \<Rightarrow> Some s2)))))"

text \<open>The text written to \<^verbatim>\<open>dtwarn\<close> on a rejected reparenting. The console is
  modelled by the list of the messages a call writes.\<close>

definition circularWarning :: "string \<Rightarrow> string \<Rightarrow> string" where
  "circularWarning name newParentName =
     ''[Frame::changeParentFrame(~)] Attempting to create a circular '' @
     ''kinematic dependency by making Frame '' @ [CHR 0x27] @ name @ [CHR 0x27] @
     '' a child of Frame '' @ [CHR 0x27] @ newParentName @ [CHR 0x27] @ ''. '' @
     ''This will not be allowed.'' @ [CHR 0x0A]"

text \<open>\<^verbatim>\<open>Frame::changeParentFrame\<close>.\<close>

definition changeParentFrame ::
  "heap \<Rightarrow> ptr \<Rightarrow> ptr option \<Rightarrow> (string list \<times> heap) option" where
  "changeParentFrame s this newParentFrame =
     Option.bind (getFrame s this) (\<lambda>f.
     Option.bind
       (case newParentFrame of
          Some np \<Rightarrow>
            Option.bind (dependsOn s np this) (\<lambda>d.
              if d then
                Option.bind (isWorld s np) (\<lambda>w.
                  if \<not> (mAmWorld f \<and> w) then
                    Option.bind (getName s np) (\<lambda>nm. Some [circularWarning (mName f) nm])
                  else Some [])
              else Some [])
        | None \<Rightarrow> Some []) (\<lambda>warning.
       if warning \<noteq> [] then Some (warning, s)
       else
         Option.bind
           (case mParentFrame f of
              Some op \<Rightarrow>
                Option.bind (getFrame s op) (\<lambda>pf.
                  Some (s(op \<mapsto> FrameObj (pf\<lparr>mChildFrames := set_erase this (mChildFrames pf)\<rparr>))))
            | None \<Rightarrow> Some s) (\<lambda>s1.
           (case newParentFrame of
              None \<Rightarrow> Option.bind (Entity_changeParentFrame s1 this None) (\<lambda>s2. Some ([], s2))
            | Some np \<Rightarrow>
                Option.bind (Entity_changeParentFrame s1 this (Some np)) (\<lambda>s2.
                Option.bind (getFrame s2 this) (\<lambda>f2.
                  if \<not> mAmQuiet f2 then
                    (case mParentFrame f2 of
                       None \<Rightarrow> None
                     | Some q \<Rightarrow>
                         Option.bind (getFrame s2 q) (\<lambda>pf.
                           Some ([], s2(q \<mapsto> FrameObj
                                   (pf\<lparr>mChildFrames := set_insert this (mChildFrames pf)\<rparr>)))))
                  else Some ([], s2)))))))"

text \<open>The virtual call \<^verbatim>\<open>entity->changeParentFrame(newParent)\<close>.\<close>

definition virtual_changeParentFrame ::
  "heap \<Rightarrow> ptr \<Rightarrow> ptr option \<Rightarrow> (string list \<times> heap) option" where
  "virtual_changeParentFrame s this newParentFrame =
     (case s this of
        Some (FrameObj f) \<Rightarrow> changeParentFrame s this newParentFrame
      | Some (EntityObj e) \<Rightarrow>
          Option.bind (Entity_changeParentFrame s this newParentFrame) (\<lambda>s1. Some ([], s1))
      | _ \<Rightarrow> None)"

section \<open>The World frame\<close>

text \<open>
  \<^verbatim>\<open>static WorldFrame world\<close> has static storage: one fixed address, initialised by
  the first call of \<^verbatim>\<open>Frame::World()\<close>. The constructors \<^verbatim>\<open>Frame::Frame()\<close> and
  \<^verbatim>\<open>WorldFrame::WorldFrame()\<close> give the members below and then call
  \<^verbatim>\<open>changeParentFrame(this)\<close>.

  Modelled from the spec: the constructor of \<^verbatim>\<open>Entity\<close> is defined outside
  \<^verbatim>\<open>Frame.cpp\<close>; it receives a null parent, the name and the suppression flag, and by the
  spec the three cache flags of the World frame are not set.
\<close>

definition worldAddr :: ptr where
  "worldAddr = 0"

definition newWorldFrame :: Frame where
  "newWorldFrame =
     \<lparr> mName = ''World'', mParentFrame = None, mAmQuiet = True,
       mNeedTransformUpdate = False, mNeedVelocityUpdate = False,
       mNeedAccelerationUpdate = False,
       mWorldTransform = Identity, mVelocity = Zero6, mAcceleration = Zero6,
       mAmWorld = True, mChildEntities = [], mChildFrames = [], mVizShapes = [],
       relativeTransform = Identity, relativeSpatialVelocity = Zero6,
       primaryRelativeAcceleration = Zero6, partialAcceleration = Zero6,
       relativeTransformCalls = 0 \<rparr>"

definition WorldFrame_ctor :: "heap \<Rightarrow> ptr \<Rightarrow> (string list \<times> heap) option" where
  "WorldFrame_ctor s this = changeParentFrame (s(this \<mapsto> FrameObj newWorldFrame)) this (Some this)"

text \<open>\<^verbatim>\<open>Frame::World()\<close>.\<close>

definition World :: "heap \<Rightarrow> (ptr \<times> string list \<times> heap) option" where
  "World s =
     (case s worldAddr of
        None \<Rightarrow> Option.bind (WorldFrame_ctor s worldAddr) (\<lambda>(out, s1). Some (worldAddr, out, s1))
      | Some x \<Rightarrow> Some (worldAddr, [], s))"

section \<open>Destruction\<close>

text \<open>The loop \<^verbatim>\<open>for( ; it != end; ) (*(it++))->changeParentFrame(Frame::World())\<close>
  of the destructor: the iterator has moved on before the entity erases itself from
  the set, so the loop visits the elements the set had when the loop began.\<close>

fun reparentToWorld :: "ptr list \<Rightarrow> heap \<Rightarrow> (string list \<times> heap) option" where
  "reparentToWorld [] s = Some ([], s)"
| "reparentToWorld (c # cs) s =
     Option.bind (World s) (\<lambda>(w, out0, s0).
     Option.bind (virtual_changeParentFrame s0 c (Some w)) (\<lambda>(out1, s1).
     Option.bind (reparentToWorld cs s1) (\<lambda>(out2, s2).
       Some (out0 @ out1 @ out2, s2))))"

text \<open>\<^verbatim>\<open>delete mVizShapes[i]\<close> for every index: the shape leaves the heap. Deleting
  what is not a live shape has no defined result.\<close>

fun deleteShapes :: "ptr list \<Rightarrow> heap \<Rightarrow> heap option" where
  "deleteShapes [] s = Some s"
| "deleteShapes (p # ps) s =
     (case s p of
        Some ShapeObj \<Rightarrow> deleteShapes ps (s(p := None))
      | _ \<Rightarrow> None)"

text \<open>\<^verbatim>\<open>Frame::~Frame\<close>, the body of the destructor.\<close>

definition Frame_dtor :: "heap \<Rightarrow> ptr \<Rightarrow> (string list \<times> heap) option" where
  "Frame_dtor s this =
     Option.bind (getFrame s this) (\<lambda>f.
       if mAmWorld f then Some ([], s)
       else
         Option.bind (changeParentFrame s this None) (\<lambda>(out1, s1).
         Option.bind (getFrame s1 this) (\<lambda>f1.
         Option.bind (reparentToWorld (mChildEntities f1) s1) (\<lambda>(out2, s2).
         Option.bind (getFrame s2 this) (\<lambda>f2.
         Option.bind (deleteShapes (mVizShapes f2) s2) (\<lambda>s3.
         Option.bind (getFrame s3 this) (\<lambda>f3.
           Some (out1 @ out2, s3(this \<mapsto> FrameObj (f3\<lparr>mVizShapes := []\<rparr>))))))))))"

section \<open>Values of the cached quantities\<close>

text \<open>
  \<open>worldTransformOf s p n T\<close>: in the heap \<open>s\<close> the pose of \<open>p\<close> relative to the World
  frame is \<open>T\<close>, read from the cache of the first frame that is clean (or the World
  frame) \<open>n\<close> parents above \<open>p\<close>, and composed with the relative transforms of the
  dirty frames below it.
\<close>

inductive worldTransformOf :: "heap \<Rightarrow> ptr \<Rightarrow> nat \<Rightarrow> Isometry3d \<Rightarrow> bool" where
  cached: "getFrame s p = Some f \<Longrightarrow> mAmWorld f \<or> \<not> mNeedTransformUpdate f \<Longrightarrow>
           worldTransformOf s p 0 (mWorldTransform f)"
| recompute: "getFrame s p = Some f \<Longrightarrow> \<not> mAmWorld f \<Longrightarrow> mNeedTransformUpdate f \<Longrightarrow>
           mParentFrame f = Some q \<Longrightarrow> worldTransformOf s q n Tp \<Longrightarrow>
           worldTransformOf s p (Suc n) (tmul Tp (relativeTransform f))"

text \<open>What a recomputation of the pose writes into a frame.\<close>

definition poseUpdate :: "Frame \<Rightarrow> Isometry3d \<Rightarrow> Frame" where
  "poseUpdate f X = f\<lparr>relativeTransformCalls := Suc (relativeTransformCalls f),
                      mWorldTransform := X, mNeedTransformUpdate := False\<rparr>"

text \<open>\<open>poseTouched s n s'\<close>: the heap \<open>s'\<close> is \<open>s\<close> but for frames at most \<open>n\<close> dirty
  steps deep, which had their pose recomputed once.\<close>

definition poseTouched :: "heap \<Rightarrow> nat \<Rightarrow> heap \<Rightarrow> bool" where
  "poseTouched s n s' =
     (\<forall>q. s' q = s q \<or>
        (\<exists>f m X. getFrame s q = Some f \<and> 0 < m \<and> m \<le> n \<and> worldTransformOf s q m X \<and>
           s' q = Some (FrameObj (poseUpdate f X))))"

section \<open>What a cached quantity depends on\<close>

text \<open>The members of a frame that the pose, the velocity and the acceleration
  query read, and the members every query leaves alone.\<close>

definition tfView :: "Frame \<Rightarrow> bool \<times> bool \<times> Isometry3d \<times> ptr option \<times> Isometry3d" where
  "tfView f =
     (mAmWorld f, mNeedTransformUpdate f, mWorldTransform f, mParentFrame f, relativeTransform f)"

definition velView ::
  "Frame \<Rightarrow> bool \<times> bool \<times> Vector6d \<times> ptr option \<times> Isometry3d \<times> Vector6d" where
  "velView f =
     (mAmWorld f, mNeedVelocityUpdate f, mVelocity f, mParentFrame f, relativeTransform f,
      relativeSpatialVelocity f)"

definition accView ::
  "Frame \<Rightarrow> bool \<times> bool \<times> Vector6d \<times> ptr option \<times> Isometry3d \<times> Vector6d \<times> Vector6d" where
  "accView f =
     (mAmWorld f, mNeedAccelerationUpdate f, mAcceleration f, mParentFrame f,
      relativeTransform f, primaryRelativeAcceleration f, partialAcceleration f)"

definition linkView :: "Frame \<Rightarrow> bool \<times> ptr option \<times> Isometry3d" where
  "linkView f = (mAmWorld f, mParentFrame f, relativeTransform f)"

text \<open>The members of a frame marked as the World frame that no query writes: the marks
  and the cached values.\<close>

definition worldView ::
  "Frame \<Rightarrow> bool \<times> ((bool \<times> bool \<times> bool) \<times> Isometry3d \<times> Vector6d \<times> Vector6d) option" where
  "worldView f =
     (mAmWorld f,
      if mAmWorld f
      then Some ((mNeedTransformUpdate f, mNeedVelocityUpdate f, mNeedAccelerationUpdate f),
                 mWorldTransform f, mVelocity f, mAcceleration f)
      else None)"

definition frameCell :: "(Frame \<Rightarrow> 'a) \<Rightarrow> obj option \<Rightarrow> 'a option" where
  "frameCell v x = (case x of Some (FrameObj f) \<Rightarrow> Some (v f) | _ \<Rightarrow> None)"

section \<open>What the notify methods change\<close>

text \<open>\<open>raise tT tV tA f\<close> is the frame \<open>f\<close> with the transform, velocity and
  acceleration flags set where \<open>tT\<close>, \<open>tV\<close>, \<open>tA\<close> say so.\<close>

definition raise :: "bool \<Rightarrow> bool \<Rightarrow> bool \<Rightarrow> Frame \<Rightarrow> Frame" where
  "raise tT tV tA f =
     f\<lparr>mNeedTransformUpdate := mNeedTransformUpdate f \<or> tT,
       mNeedVelocityUpdate := mNeedVelocityUpdate f \<or> tV,
       mNeedAccelerationUpdate := mNeedAccelerationUpdate f \<or> tA\<rparr>"

text \<open>\<open>raisedObj T V A x y\<close>: the heap cell \<open>y\<close> is the cell \<open>x\<close> but for dirty flags
  that have been set, among the kinds of flag that \<open>T\<close>, \<open>V\<close>, \<open>A\<close> allow;
  \<open>raisedBy T V A s s'\<close> says so of every cell of the heaps \<open>s\<close> and \<open>s'\<close>.\<close>

definition raisedObj :: "bool \<Rightarrow> bool \<Rightarrow> bool \<Rightarrow> obj option \<Rightarrow> obj option \<Rightarrow> bool" where
  "raisedObj T V A x y =
     (y = x \<or>
        (\<exists>f tT tV tA. (tT \<longrightarrow> T) \<and> (tV \<longrightarrow> V) \<and> (tA \<longrightarrow> A) \<and>
           x = Some (FrameObj f) \<and> y = Some (FrameObj (raise tT tV tA f))))"

definition raisedBy :: "bool \<Rightarrow> bool \<Rightarrow> bool \<Rightarrow> heap \<Rightarrow> heap \<Rightarrow> bool" where
  "raisedBy T V A s s' = (\<forall>q. raisedObj T V A (s q) (s' q))"


text \<open>An entity or a frame that is alive, and a heap in which every registered child
  entity is.\<close>

definition liveObj :: "obj option \<Rightarrow> bool" where
  "liveObj x = (case x of Some (FrameObj f) \<Rightarrow> True | Some (EntityObj e) \<Rightarrow> True | _ \<Rightarrow> False)"

definition liveChildren :: "heap \<Rightarrow> bool" where
  "liveChildren s =
     (\<forall>p f. s p = Some (FrameObj f) \<longrightarrow> (\<forall>c \<in> set (mChildEntities f). liveObj (s c)))"

text \<open>The number of dirty flags that are still clear, in an object and in a heap.\<close>

definition clearFlags :: "obj option \<Rightarrow> nat" where
  "clearFlags x =
     (case x of
        Some (FrameObj f) \<Rightarrow>
          (if mNeedTransformUpdate f then 0 else 1) + (if mNeedVelocityUpdate f then 0 else 1) +
          (if mNeedAccelerationUpdate f then 0 else 1)
      | _ \<Rightarrow> 0)"

definition pending :: "heap \<Rightarrow> nat" where
  "pending s = (\<Sum>p \<in> dom s. clearFlags (s p))"

text \<open>A finite heap with live children and at most \<open>k\<close> clear flags.\<close>

definition notifiable :: "nat \<Rightarrow> heap \<Rightarrow> bool" where
  "notifiable k s = (finite (dom s) \<and> liveChildren s \<and> pending s \<le> k)"

section \<open>Values of the cached velocity and acceleration\<close>

text \<open>What an invocation of \<^verbatim>\<open>getRelativeTransform()\<close> writes into a frame.\<close>

definition bump :: "Frame \<Rightarrow> Frame" where
  "bump f = f\<lparr>relativeTransformCalls := Suc (relativeTransformCalls f)\<rparr>"

text \<open>
  \<open>spatialVelocityOf s p n V\<close>: in the heap \<open>s\<close> the spatial velocity of \<open>p\<close> is \<open>V\<close>,
  read from the cache of the first frame that is clean (or the World frame) \<open>n\<close>
  parents above \<open>p\<close>, and transported down the dirty frames below it.
\<close>

inductive spatialVelocityOf :: "heap \<Rightarrow> ptr \<Rightarrow> nat \<Rightarrow> Vector6d \<Rightarrow> bool" where
  cached: "getFrame s p = Some f \<Longrightarrow> mAmWorld f \<or> \<not> mNeedVelocityUpdate f \<Longrightarrow>
           spatialVelocityOf s p 0 (mVelocity f)"
| recompute: "getFrame s p = Some f \<Longrightarrow> \<not> mAmWorld f \<Longrightarrow> mNeedVelocityUpdate f \<Longrightarrow>
           mParentFrame f = Some q \<Longrightarrow> spatialVelocityOf s q n Vp \<Longrightarrow>
           spatialVelocityOf s p (Suc n) (add6 (AdInvT (relativeTransform f) Vp) (relativeSpatialVelocity f))"

text \<open>What a recomputation of the velocity writes into a frame.\<close>

definition velUpdate :: "Frame \<Rightarrow> Vector6d \<Rightarrow> Frame" where
  "velUpdate f X = f\<lparr>relativeTransformCalls := Suc (relativeTransformCalls f),
                     mVelocity := X, mNeedVelocityUpdate := False\<rparr>"

text \<open>\<open>velTouched s n s'\<close>: the heap \<open>s'\<close> is \<open>s\<close> but for frames at most \<open>n\<close> dirty
  steps deep, which had their velocity recomputed once.\<close>

definition velTouched :: "heap \<Rightarrow> nat \<Rightarrow> heap \<Rightarrow> bool" where
  "velTouched s n s' =
     (\<forall>q. s' q = s q \<or>
        (\<exists>f m X. getFrame s q = Some f \<and> 0 < m \<and> m \<le> n \<and> spatialVelocityOf s q m X \<and>
           s' q = Some (FrameObj (velUpdate f X))))"

text \<open>
  \<open>spatialAccelerationOf s p n V\<close>: in the heap \<open>s\<close> the spatial acceleration of \<open>p\<close> is \<open>V\<close>,
  read from the cache of the first frame that is clean (or the World frame) \<open>n\<close>
  parents above \<open>p\<close>, and transported down the dirty frames below it.
\<close>

inductive spatialAccelerationOf :: "heap \<Rightarrow> ptr \<Rightarrow> nat \<Rightarrow> Vector6d \<Rightarrow> bool" where
  cached: "getFrame s p = Some f \<Longrightarrow> mAmWorld f \<or> \<not> mNeedAccelerationUpdate f \<Longrightarrow>
           spatialAccelerationOf s p 0 (mAcceleration f)"
| recompute: "getFrame s p = Some f \<Longrightarrow> \<not> mAmWorld f \<Longrightarrow> mNeedAccelerationUpdate f \<Longrightarrow>
           mParentFrame f = Some q \<Longrightarrow> spatialAccelerationOf s q n Vp \<Longrightarrow>
           spatialAccelerationOf s p (Suc n) (add6 (add6 (AdInvT (relativeTransform f) Vp) (primaryRelativeAcceleration f)) (partialAcceleration f))"

text \<open>What a recomputation of the acceleration writes into a frame.\<close>

definition accUpdate :: "Frame \<Rightarrow> Vector6d \<Rightarrow> Frame" where
  "accUpdate f X = f\<lparr>relativeTransformCalls := Suc (relativeTransformCalls f),
                     mAcceleration := X, mNeedAccelerationUpdate := False\<rparr>"

text \<open>\<open>accTouched s n s'\<close>: the heap \<open>s'\<close> is \<open>s\<close> but for frames at most \<open>n\<close> dirty
  steps deep, which had their acceleration recomputed once.\<close>

definition accTouched :: "heap \<Rightarrow> nat \<Rightarrow> heap \<Rightarrow> bool" where
  "accTouched s n s' =
     (\<forall>q. s' q = s q \<or>
        (\<exists>f m X. getFrame s q = Some f \<and> 0 < m \<and> m \<le> n \<and> spatialAccelerationOf s q m X \<and>
           s' q = Some (FrameObj (accUpdate f X))))"

section \<open>Descendants\<close>

text \<open>\<open>descendsFrom s p t\<close>: in the heap \<open>s\<close> the frame \<open>p\<close> is \<open>t\<close> itself or a descendant
  of \<open>t\<close>, that is, \<open>t\<close> is met on the way from \<open>p\<close> up the parents. The World frame
  is the root: the way up ends there.\<close>

inductive descendsFrom :: "heap \<Rightarrow> ptr \<Rightarrow> ptr \<Rightarrow> bool" where
  self: "descendsFrom s t t"
| up: "getFrame s p = Some f \<Longrightarrow> \<not> mAmWorld f \<Longrightarrow> mParentFrame f = Some q \<Longrightarrow>
       descendsFrom s q t \<Longrightarrow> descendsFrom s p t"

section \<open>What the queries observe\<close>

text \<open>The value of each cached quantity, whatever the depth it is recomputed from.\<close>

definition worldTransformVal :: "heap \<Rightarrow> ptr \<Rightarrow> Isometry3d \<Rightarrow> bool" where
  "worldTransformVal s p T = (\<exists>n. worldTransformOf s p n T)"

definition spatialVelocityVal :: "heap \<Rightarrow> ptr \<Rightarrow> Vector6d \<Rightarrow> bool" where
  "spatialVelocityVal s p V = (\<exists>n. spatialVelocityOf s p n V)"

definition spatialAccelerationVal :: "heap \<Rightarrow> ptr \<Rightarrow> Vector6d \<Rightarrow> bool" where
  "spatialAccelerationVal s p A = (\<exists>n. spatialAccelerationOf s p n A)"

text \<open>The value of \<^verbatim>\<open>getTransform(withRespectTo)\<close>.\<close>

inductive transformVal :: "heap \<Rightarrow> ptr \<Rightarrow> ptr \<Rightarrow> Isometry3d \<Rightarrow> bool" where
  world: "isWorld s withRespectTo = Some True \<Longrightarrow> worldTransformVal s this T \<Longrightarrow>
          transformVal s this withRespectTo T"
| parent: "isWorld s withRespectTo = Some False \<Longrightarrow> getFrame s this = Some f \<Longrightarrow>
          Some withRespectTo = mParentFrame f \<Longrightarrow>
          transformVal s this withRespectTo (relativeTransform f)"
| general: "isWorld s withRespectTo = Some False \<Longrightarrow> getFrame s this = Some f \<Longrightarrow>
          Some withRespectTo \<noteq> mParentFrame f \<Longrightarrow>
          worldTransformVal s withRespectTo Tw \<Longrightarrow> worldTransformVal s this Tt \<Longrightarrow>
          transformVal s this withRespectTo (tmul (inverse_tf Tw) Tt)"

text \<open>Two heaps that no query tells apart: every frame has the same pose, velocity and
  acceleration in both, and the same parent, relative transform and World mark; a
  frame marked as the World frame has the same flags and cached values in both, and
  what is not a frame is the same in both.\<close>

definition queryEq :: "heap \<Rightarrow> heap \<Rightarrow> bool" where
  "queryEq s s' =
     (\<forall>p. worldTransformVal s' p = worldTransformVal s p \<and>
          spatialVelocityVal s' p = spatialVelocityVal s p \<and>
          spatialAccelerationVal s' p = spatialAccelerationVal s p \<and>
          frameCell linkView (s' p) = frameCell linkView (s p) \<and>
          frameCell worldView (s' p) = frameCell worldView (s p) \<and>
          (getFrame s p = None \<longrightarrow> s' p = s p))"

text \<open>A query \<open>q\<close> is transparent with value \<open>val\<close>: it returns exactly the values \<open>val\<close>
  allows, it returns whenever there is one, and the heap it leaves is one that no query
  tells apart from the heap it started in.\<close>

definition transparent :: "(heap \<Rightarrow> ('a \<times> heap) option) \<Rightarrow> (heap \<Rightarrow> 'a \<Rightarrow> bool) \<Rightarrow> bool" where
  "transparent q val =
     ((\<forall>s v s'. q s = Some (v, s') \<longrightarrow> val s v \<and> queryEq s s') \<and>
      (\<forall>s v. val s v \<longrightarrow> (\<exists>s'. q s = Some (v, s') \<and> queryEq s s')) \<and>
      (\<forall>s s' v. queryEq s s' \<longrightarrow> val s v \<longrightarrow> val s' v))"

text \<open>The values of the composite queries, put together as the code puts them together.\<close>

definition relativeVelocityVal :: "ptr \<Rightarrow> ptr \<Rightarrow> ptr \<Rightarrow> heap \<Rightarrow> Vector6d \<Rightarrow> bool" where
  "relativeVelocityVal this relativeTo inCoordinatesOf s V =
     (\<exists>T1. transformVal s this inCoordinatesOf T1 \<and>
      (\<exists>V1. spatialVelocityVal s this V1 \<and>
      (\<exists>T2. transformVal s relativeTo this T2 \<and>
      (\<exists>V2. spatialVelocityVal s relativeTo V2 \<and>
         V = AdR T1 (sub6 V1 (AdT T2 V2))))))"

definition relativeAccelerationVal :: "ptr \<Rightarrow> ptr \<Rightarrow> ptr \<Rightarrow> heap \<Rightarrow> Vector6d \<Rightarrow> bool" where
  "relativeAccelerationVal this relativeTo inCoordinatesOf s A =
     (\<exists>T1. transformVal s this inCoordinatesOf T1 \<and>
      (\<exists>A1. spatialAccelerationVal s this A1 \<and>
      (\<exists>T2. transformVal s relativeTo this T2 \<and>
      (\<exists>A2. spatialAccelerationVal s relativeTo A2 \<and>
      (\<exists>V1. spatialVelocityVal s this V1 \<and>
      (\<exists>V21. relativeVelocityVal this relativeTo this s V21 \<and>
         A = AdR T1 (sub6 (sub6 A1 (AdT T2 A2)) (ad V1 V21))))))))"

definition linearAccelerationVal :: "ptr \<Rightarrow> ptr \<Rightarrow> ptr \<Rightarrow> heap \<Rightarrow> Vector3d \<Rightarrow> bool" where
  "linearAccelerationVal this relativeTo inCoordinatesOf s a =
     (\<exists>v_rel. relativeVelocityVal this relativeTo inCoordinatesOf s v_rel \<and>
      (\<exists>A. relativeAccelerationVal this relativeTo inCoordinatesOf s A \<and>
         a = add3 (tail3 A) (cross (head3 v_rel) (tail3 v_rel))))"

section \<open>What the reparenting changes\<close>

text \<open>An object without its links: the parent pointer and the child sets.\<close>

definition restObj :: "obj \<Rightarrow> obj" where
  "restObj x =
     (case x of
        FrameObj f \<Rightarrow> FrameObj (f\<lparr>mParentFrame := None, mChildEntities := [], mChildFrames := []\<rparr>)
      | EntityObj e \<Rightarrow> EntityObj (e\<lparr>mParentFrame := None\<rparr>)
      | ShapeObj \<Rightarrow> ShapeObj)"

definition childE :: "obj option \<Rightarrow> ptr set" where
  "childE x = (case x of Some (FrameObj f) \<Rightarrow> set (mChildEntities f) | _ \<Rightarrow> {})"

definition childF :: "obj option \<Rightarrow> ptr set" where
  "childF x = (case x of Some (FrameObj f) \<Rightarrow> set (mChildFrames f) | _ \<Rightarrow> {})"

definition parentCell :: "obj option \<Rightarrow> ptr option option" where
  "parentCell x =
     (case x of
        Some (FrameObj f) \<Rightarrow> Some (mParentFrame f)
      | Some (EntityObj e) \<Rightarrow> Some (mParentFrame e)
      | _ \<Rightarrow> None)"

text \<open>\<open>relinked P CE CF s s'\<close>: the heap \<open>s'\<close> is \<open>s\<close> but for links: the parent pointers
  of the entities in \<open>P\<close> may have changed, the child-entity sets may have lost and
  gained elements of \<open>CE\<close>, and the child-frame sets elements of \<open>CF\<close>.\<close>

definition relinkedObj ::
  "ptr set \<Rightarrow> ptr set \<Rightarrow> ptr set \<Rightarrow> ptr \<Rightarrow> obj option \<Rightarrow> obj option \<Rightarrow> bool" where
  "relinkedObj P CE CF q x y =
     (map_option restObj y = map_option restObj x \<and>
      childE y \<subseteq> CE \<union> childE x \<and> childE x \<subseteq> CE \<union> childE y \<and>
      childF y \<subseteq> CF \<union> childF x \<and> childF x \<subseteq> CF \<union> childF y \<and>
      (q \<notin> P \<longrightarrow> parentCell y = parentCell x))"

definition relinked :: "ptr set \<Rightarrow> ptr set \<Rightarrow> ptr set \<Rightarrow> heap \<Rightarrow> heap \<Rightarrow> bool" where
  "relinked P CE CF s s' = (\<forall>q. relinkedObj P CE CF q (s q) (s' q))"


text \<open>A heap in which every parent pointer that is not null points to a live frame.\<close>

definition liveParents :: "heap \<Rightarrow> bool" where
  "liveParents s =
     (\<forall>q op. parentCell (s q) = Some (Some op) \<longrightarrow> (\<exists>pf. getFrame s op = Some pf))"

section \<open>Well-formed chains of frames\<close>


section \<open>The life of the World frame\<close>

text \<open>The three dirty flags and the three cached quantities of a frame.\<close>

definition worldFlags :: "Frame \<Rightarrow> bool \<times> bool \<times> bool" where
  "worldFlags f = (mNeedTransformUpdate f, mNeedVelocityUpdate f, mNeedAccelerationUpdate f)"

definition worldCache :: "Frame \<Rightarrow> Isometry3d \<times> Vector6d \<times> Vector6d" where
  "worldCache f = (mWorldTransform f, mVelocity f, mAcceleration f)"

text \<open>\<open>flagsKept notifies f f'\<close>: no flag set in \<open>f\<close> is clear in \<open>f'\<close>, and the flags are
  the same unless \<open>notifies\<close>.\<close>

definition flagsKept :: "bool \<Rightarrow> Frame \<Rightarrow> Frame \<Rightarrow> bool" where
  "flagsKept notifies f f' =
     ((mNeedTransformUpdate f \<longrightarrow> mNeedTransformUpdate f') \<and>
      (mNeedVelocityUpdate f \<longrightarrow> mNeedVelocityUpdate f') \<and>
      (mNeedAccelerationUpdate f \<longrightarrow> mNeedAccelerationUpdate f') \<and>
      (\<not> notifies \<longrightarrow> worldFlags f' = worldFlags f))"

text \<open>\<open>worldCellStep notifies x y\<close>: what may become of the storage of the World frame.
  While it holds nothing it goes on holding nothing, or a frame marked as the World frame
  is constructed in it with the identity and zero as cached quantities; once it holds a
  frame marked as the World frame it goes on holding one, with the same cached quantities
  and flags kept in the sense above.\<close>

definition worldCellStep :: "bool \<Rightarrow> obj option \<Rightarrow> obj option \<Rightarrow> bool" where
  "worldCellStep notifies x y =
     (case x of
        None \<Rightarrow>
          y = None \<or>
          (\<exists>f'. y = Some (FrameObj f') \<and> mAmWorld f' \<and> worldCache f' = (Identity, Zero6, Zero6))
      | Some (FrameObj f) \<Rightarrow>
          mAmWorld f \<longrightarrow>
          (\<exists>f'. y = Some (FrameObj f') \<and> mAmWorld f' \<and> worldCache f' = worldCache f \<and>
                flagsKept notifies f f')
      | Some _ \<Rightarrow> True)"

text \<open>The storage of the World frame is well: it holds nothing yet, or a frame marked as
  the World frame whose cached pose is the identity and whose cached velocity and
  acceleration are zero.\<close>

definition worldCell :: "obj option \<Rightarrow> bool" where
  "worldCell x =
     (case x of
        None \<Rightarrow> True
      | Some (FrameObj f) \<Rightarrow> mAmWorld f \<and> worldCache f = (Identity, Zero6, Zero6)
      | Some _ \<Rightarrow> False)"

text \<open>
  \<open>frameStep notifies s s'\<close>: one operation takes the heap \<open>s\<close> to the heap \<open>s'\<close>. The
  operations are the methods of \<^verbatim>\<open>Frame.cpp\<close>, on any object and with any arguments
  (the notify methods only if \<open>notifies\<close>), \<^verbatim>\<open>Entity::changeParentFrame\<close> as the
  constructor of an entity calls it, and whatever else the program does to objects
  other than the World frame: constructing and deallocating them, and the primitives of
  the concrete frames.
\<close>

inductive frameStep :: "bool \<Rightarrow> heap \<Rightarrow> heap \<Rightarrow> bool" where
  World: "World s = Some (w, out, s') \<Longrightarrow> frameStep notifies s s'"
| getRelativeTransform: "getRelativeTransform s p = Some (T, s') \<Longrightarrow> frameStep notifies s s'"
| getWorldTransform: "getWorldTransform s p = Some (T, s') \<Longrightarrow> frameStep notifies s s'"
| getTransform: "getTransform s p q = Some (T, s') \<Longrightarrow> frameStep notifies s s'"
| getSpatialVelocity: "getSpatialVelocity s p = Some (V, s') \<Longrightarrow> frameStep notifies s s'"
| getSpatialVelocity1: "getSpatialVelocity1 s p c = Some (V, s') \<Longrightarrow> frameStep notifies s s'"
| getSpatialVelocity2: "getSpatialVelocity2 s p q c = Some (V, s') \<Longrightarrow> frameStep notifies s s'"
| getLinearVelocity: "getLinearVelocity s p q c = Some (v, s') \<Longrightarrow> frameStep notifies s s'"
| getAngularVelocity: "getAngularVelocity s p q c = Some (v, s') \<Longrightarrow> frameStep notifies s s'"
| getSpatialAcceleration:
    "getSpatialAcceleration s p = Some (V, s') \<Longrightarrow> frameStep notifies s s'"
| getSpatialAcceleration1:
    "getSpatialAcceleration1 s p c = Some (V, s') \<Longrightarrow> frameStep notifies s s'"
| getSpatialAcceleration2:
    "getSpatialAcceleration2 s p q c = Some (V, s') \<Longrightarrow> frameStep notifies s s'"
| getLinearAcceleration:
    "getLinearAcceleration s p q c = Some (v, s') \<Longrightarrow> frameStep notifies s s'"
| getAngularAcceleration:
    "getAngularAcceleration s p q c = Some (v, s') \<Longrightarrow> frameStep notifies s s'"
| changeParentFrame:
    "virtual_changeParentFrame s e np = Some (out, s') \<Longrightarrow> frameStep notifies s s'"
| Entity_changeParentFrame:
    "Entity_changeParentFrame s e np = Some s' \<Longrightarrow> frameStep notifies s s'"
| Frame_dtor: "Frame_dtor s p = Some (out, s') \<Longrightarrow> frameStep notifies s s'"
| elsewhere: "s' worldAddr = s worldAddr \<Longrightarrow> frameStep notifies s s'"
| notifyTransformUpdate: "notifyTransformUpdate n s p = Some s' \<Longrightarrow> frameStep True s s'"
| notifyVelocityUpdate: "notifyVelocityUpdate n s p = Some s' \<Longrightarrow> frameStep True s s'"
| notifyAccelerationUpdate: "notifyAccelerationUpdate n s p = Some s' \<Longrightarrow> frameStep True s s'"

text \<open>The heaps of a run of the program: it starts with the World frame not yet
  constructed and goes on by operations.\<close>

inductive reachable :: "heap \<Rightarrow> bool" where
  start: "s worldAddr = None \<Longrightarrow> reachable s"
| step: "reachable s \<Longrightarrow> frameStep notifies s s' \<Longrightarrow> reachable s'"

section \<open>Example configurations\<close>

text \<open>A frame other than the World frame as it is after construction and
  registration, every cached quantity dirty.\<close>

definition exFrame :: "string \<Rightarrow> ptr option \<Rightarrow> ptr list \<Rightarrow> Isometry3d \<Rightarrow> Frame" where
  "exFrame name parent children relT =
     \<lparr> mName = name, mParentFrame = parent, mAmQuiet = False,
       mNeedTransformUpdate = True, mNeedVelocityUpdate = True,
       mNeedAccelerationUpdate = True,
       mWorldTransform = Identity, mVelocity = Zero6, mAcceleration = Zero6,
       mAmWorld = False, mChildEntities = children, mChildFrames = children,
       mVizShapes = [],
       relativeTransform = relT, relativeSpatialVelocity = Zero6,
       primaryRelativeAcceleration = Zero6, partialAcceleration = Zero6,
       relativeTransformCalls = 0 \<rparr>"

text \<open>The World frame after its constructor, with the given children.\<close>

definition exWorld :: "ptr list \<Rightarrow> Frame" where
  "exWorld children =
     newWorldFrame\<lparr>mParentFrame := Some worldAddr, mChildEntities := children,
                   mChildFrames := children\<rparr>"

text \<open>A quarter turn about the third axis.\<close>

definition rotZ :: Matrix3d where
  "rotZ = Matrix3d (Vector3d 0 (- 1) 0) (Vector3d 1 0 0) (Vector3d 0 0 1)"

definition relA :: Isometry3d where
  "relA = Isometry3d Identity3 (Vector3d 1 0 0)"

definition relB :: Isometry3d where
  "relB = Isometry3d rotZ Zero3"

definition relC :: Isometry3d where
  "relC = Isometry3d Identity3 (Vector3d 0 0 2)"

text \<open>The chain A (at 3), parented to B (at 2), parented to C (at 1), parented to
  the World frame (at 0).\<close>

definition chainHeap :: heap where
  "chainHeap =
     [0 \<mapsto> FrameObj (exWorld [1]),
      1 \<mapsto> FrameObj (exFrame ''C'' (Some 0) [2] relC),
      2 \<mapsto> FrameObj (exFrame ''B'' (Some 1) [3] relB),
      3 \<mapsto> FrameObj (exFrame ''A'' (Some 2) [] relA)]"

text \<open>The same chain with every cached quantity clean.\<close>

definition cleanFrame :: "string \<Rightarrow> ptr option \<Rightarrow> ptr list \<Rightarrow> Isometry3d \<Rightarrow> Frame" where
  "cleanFrame name parent children relT =
     (exFrame name parent children relT)
       \<lparr>mNeedTransformUpdate := False, mNeedVelocityUpdate := False,
        mNeedAccelerationUpdate := False\<rparr>"

definition cleanHeap :: heap where
  "cleanHeap =
     [0 \<mapsto> FrameObj (exWorld [1]),
      1 \<mapsto> FrameObj (cleanFrame ''C'' (Some 0) [2] relC),
      2 \<mapsto> FrameObj (cleanFrame ''B'' (Some 1) [3] relB),
      3 \<mapsto> FrameObj (cleanFrame ''A'' (Some 2) [] relA)]"

text \<open>A frame F (at 1) under the World frame, with a child frame (at 2), a child
  entity that is not a frame (at 3) and a visualization shape (at 4).\<close>

definition dtorHeap :: heap where
  "dtorHeap =
     [0 \<mapsto> FrameObj (exWorld [1]),
      1 \<mapsto> FrameObj ((exFrame ''F'' (Some 0) [2, 3] relC)\<lparr>mChildFrames := [2], mVizShapes := [4]\<rparr>),
      2 \<mapsto> FrameObj (exFrame ''G'' (Some 1) [] relB),
      3 \<mapsto> EntityObj \<lparr>mName = ''E'', mParentFrame = Some 1, mAmQuiet = False\<rparr>,
      4 \<mapsto> ShapeObj]"

text \<open>A frame that moves relative to its parent.\<close>

definition movingFrame ::
  "string \<Rightarrow> ptr option \<Rightarrow> ptr list \<Rightarrow> Isometry3d \<Rightarrow> Vector6d \<Rightarrow> Vector6d \<Rightarrow> Vector6d \<Rightarrow> Frame" where
  "movingFrame name parent children relT relV relAcc partAcc =
     (exFrame name parent children relT)
       \<lparr>relativeSpatialVelocity := relV, primaryRelativeAcceleration := relAcc,
        partialAcceleration := partAcc\<rparr>"

text \<open>Q (at 2) parented to P (at 1), and P and R (at 3) parented to the World frame
  (at 0), all three moving and every cached quantity dirty.\<close>

definition motionHeap :: heap where
  "motionHeap =
     [0 \<mapsto> FrameObj (exWorld [1, 3]),
      1 \<mapsto> FrameObj (movingFrame ''P'' (Some 0) [2] relC
             (Vector6d (Vector3d 0 0 1) (Vector3d 1 0 0))
             (Vector6d (Vector3d 0 1 0) (Vector3d 0 0 1)) Zero6),
      2 \<mapsto> FrameObj (movingFrame ''Q'' (Some 1) [] relB
             (Vector6d (Vector3d 1 0 0) (Vector3d 0 2 0))
             (Vector6d (Vector3d 0 0 2) (Vector3d 1 0 0))
             (Vector6d (Vector3d 0 0 0) (Vector3d 0 1 0))),
      3 \<mapsto> FrameObj (movingFrame ''R'' (Some 0) [] relA
             (Vector6d (Vector3d 0 1 0) (Vector3d 0 0 3))
             (Vector6d (Vector3d 1 0 0) (Vector3d 0 0 0)) Zero6)]"

text \<open>The World frame alone, as its constructor leaves it.\<close>

definition worldHeap :: heap where
  "worldHeap = [worldAddr \<mapsto> FrameObj (exWorld [])]"

text \<open>The World frame alone, after a notify method has run on it.\<close>

definition notifiedWorldHeap :: heap where
  "notifiedWorldHeap = [worldAddr \<mapsto> FrameObj (raise True True True (exWorld []))]"



text \<open>A frame F (at 1) under the World frame (at 0), with a registered child entity (at 3)
  and a quiet entity (at 2) that is to take F as its parent; the same after the quiet
  entity has done so, unregistered; and the same after the destructor of F.\<close>

definition quietHeap0 :: heap where
  "quietHeap0 =
     [0 \<mapsto> FrameObj (exWorld [1]),
      1 \<mapsto> FrameObj ((exFrame ''F'' (Some 0) [3] relC)\<lparr>mChildFrames := []\<rparr>),
      2 \<mapsto> EntityObj \<lparr>mName = ''Q'', mParentFrame = None, mAmQuiet = True\<rparr>,
      3 \<mapsto> EntityObj \<lparr>mName = ''E'', mParentFrame = Some 1, mAmQuiet = False\<rparr>]"

definition quietHeap :: heap where
  "quietHeap =
     [0 \<mapsto> FrameObj (exWorld [1]),
      1 \<mapsto> FrameObj ((exFrame ''F'' (Some 0) [3] relC)\<lparr>mChildFrames := []\<rparr>),
      2 \<mapsto> EntityObj \<lparr>mName = ''Q'', mParentFrame = Some 1, mAmQuiet = True\<rparr>,
      3 \<mapsto> EntityObj \<lparr>mName = ''E'', mParentFrame = Some 1, mAmQuiet = False\<rparr>]"

definition quietHeapAfter :: heap where
  "quietHeapAfter =
     [0 \<mapsto> FrameObj ((exWorld [3])\<lparr>mChildFrames := []\<rparr>),
      1 \<mapsto> FrameObj (exFrame ''F'' None [] relC),
      2 \<mapsto> EntityObj \<lparr>mName = ''Q'', mParentFrame = Some 1, mAmQuiet = True\<rparr>,
      3 \<mapsto> EntityObj \<lparr>mName = ''E'', mParentFrame = Some 0, mAmQuiet = False\<rparr>]"

section \<open>Properties of the pose query\<close>

lemma mat_vec_Identity3: "mat_vec Identity3 v = v"
  by (cases v) (simp add: Identity3_def)

lemma mat_mul_Identity3_left: "mat_mul Identity3 M = M"
  by (cases M rule: transpose3.cases) (simp add: Identity3_def)

lemma add3_Zero3_right: "add3 v Zero3 = v"
  by (cases v) (simp add: Zero3_def)

lemma tmul_Identity_left: "tmul Identity T = T"
  by (cases T)
     (simp add: tmul_def Identity_def mat_vec_Identity3 mat_mul_Identity3_left add3_Zero3_right)

lemma getFrame_Some: "getFrame s p = Some f \<longleftrightarrow> s p = Some (FrameObj f)"
  by (simp add: getFrame_def split: option.splits obj.splits)

lemma getFrame_upd_same: "getFrame (s(p \<mapsto> FrameObj f)) p = Some f"
  by (simp add: getFrame_def)

lemma getFrame_upd_other: "q \<noteq> p \<Longrightarrow> getFrame (s(p \<mapsto> x)) q = getFrame s q"
  by (simp add: getFrame_def)

lemma getFrame_cong: "s' p = s p \<Longrightarrow> getFrame s' p = getFrame s p"
  by (simp add: getFrame_def)

lemma getWorldTransform_world:
  "getFrame s p = Some f \<Longrightarrow> mAmWorld f \<Longrightarrow> getWorldTransform s p = Some (mWorldTransform f, s)"
  by (subst getWorldTransform.simps) simp

lemma getWorldTransform_clean:
  "getFrame s p = Some f \<Longrightarrow> \<not> mNeedTransformUpdate f \<Longrightarrow>
   getWorldTransform s p = Some (mWorldTransform f, s)"
  by (subst getWorldTransform.simps) simp

lemma getWorldTransform_dirty:
  assumes "getFrame s p = Some f" "\<not> mAmWorld f" "mNeedTransformUpdate f"
    and "mParentFrame f = Some q" "getWorldTransform s q = Some (Tp, s1)"
    and "getFrame s1 p = Some f1"
  shows "getWorldTransform s p =
         Some (tmul Tp (relativeTransform f1),
               s1(p \<mapsto> FrameObj (poseUpdate f1 (tmul Tp (relativeTransform f1)))))"
  using assms
  by (subst getWorldTransform.simps)
     (simp add: getRelativeTransform_def getFrame_upd_same poseUpdate_def)

lemma worldTransformOf_det:
  "worldTransformOf s p n T \<Longrightarrow> worldTransformOf s p m T' \<Longrightarrow> n = m \<and> T = T'"
proof (induction arbitrary: m T' rule: worldTransformOf.induct)
  case (cached s p f)
  from cached.prems show ?case
  proof (cases rule: worldTransformOf.cases)
    case (cached f')
    from cached(3) \<open>getFrame s p = Some f\<close> have "f' = f" by (metis option.inject)
    with cached(1,2) show ?thesis by blast
  next
    case (recompute f' q n' Tp)
    from recompute(3) \<open>getFrame s p = Some f\<close> have "f' = f" by (metis option.inject)
    with recompute(4,5) cached.hyps(2) show ?thesis by blast
  qed
next
  case (recompute s p f q n Tp)
  from recompute.prems show ?case
  proof (cases rule: worldTransformOf.cases)
    case (cached f')
    from cached(3) \<open>getFrame s p = Some f\<close> have "f' = f" by (metis option.inject)
    with cached(4) recompute.hyps(2,3) show ?thesis by blast
  next
    case (recompute f' q' n' Tp')
    from recompute(3) \<open>getFrame s p = Some f\<close> have ff: "f' = f" by (metis option.inject)
    with recompute(6) \<open>mParentFrame f = Some q\<close> have "q' = q" by (metis option.inject)
    with recompute(7) have "worldTransformOf s q n' Tp'" by blast
    then have "n = n' \<and> Tp = Tp'" by (rule recompute.IH)
    with recompute(1,2) ff show ?thesis by blast
  qed
qed

lemma poseTouched_refl: "poseTouched s n s"
  by (simp add: poseTouched_def)

lemma poseTouched_step:
  assumes t: "poseTouched s n s1" and f: "getFrame s p = Some f"
    and c: "worldTransformOf s p (Suc n) X"
  shows "poseTouched s (Suc n) (s1(p \<mapsto> FrameObj (poseUpdate f X)))"
  unfolding poseTouched_def
proof
  fix r
  show "(s1(p \<mapsto> FrameObj (poseUpdate f X))) r = s r \<or>
        (\<exists>fa m Y. getFrame s r = Some fa \<and> 0 < m \<and> m \<le> Suc n \<and> worldTransformOf s r m Y \<and>
           (s1(p \<mapsto> FrameObj (poseUpdate f X))) r = Some (FrameObj (poseUpdate fa Y)))"
  proof (cases "r = p")
    case True
    have "getFrame s r = Some f \<and> 0 < Suc n \<and> Suc n \<le> Suc n \<and> worldTransformOf s r (Suc n) X \<and>
           (s1(p \<mapsto> FrameObj (poseUpdate f X))) r = Some (FrameObj (poseUpdate f X))"
      using True f c by simp
    then show ?thesis by blast
  next
    case False
    from t have "s1 r = s r \<or>
        (\<exists>fa m Y. getFrame s r = Some fa \<and> 0 < m \<and> m \<le> n \<and> worldTransformOf s r m Y \<and>
           s1 r = Some (FrameObj (poseUpdate fa Y)))"
      unfolding poseTouched_def by blast
    then show ?thesis
    proof
      assume "s1 r = s r"
      with False show ?thesis by simp
    next
      assume "\<exists>fa m Y. getFrame s r = Some fa \<and> 0 < m \<and> m \<le> n \<and> worldTransformOf s r m Y \<and>
           s1 r = Some (FrameObj (poseUpdate fa Y))"
      then obtain fa m Y where "getFrame s r = Some fa" "0 < m" "m \<le> n" "worldTransformOf s r m Y"
           "s1 r = Some (FrameObj (poseUpdate fa Y))" by blast
      then have "getFrame s r = Some fa \<and> 0 < m \<and> m \<le> Suc n \<and> worldTransformOf s r m Y \<and>
           (s1(p \<mapsto> FrameObj (poseUpdate f X))) r = Some (FrameObj (poseUpdate fa Y))"
        using False by simp
      then show ?thesis by blast
    qed
  qed
qed

lemma poseTouched_same:
  assumes t: "poseTouched s n s1" and c: "worldTransformOf s p (Suc n) X"
  shows "s1 p = s p"
proof (rule ccontr)
  assume "s1 p \<noteq> s p"
  with t obtain m Y where m: "m \<le> n" "worldTransformOf s p m Y"
    unfolding poseTouched_def by blast
  from worldTransformOf_det [OF c m(2)] m(1) show False by simp
qed

lemma getWorldTransform_returns:
  "worldTransformOf s p n T \<Longrightarrow> \<exists>s'. getWorldTransform s p = Some (T, s') \<and> poseTouched s n s'"
proof (induction rule: worldTransformOf.induct)
  case (cached s p f)
  from cached.hyps(2) show ?case
  proof
    assume "mAmWorld f"
    with cached.hyps(1) have "getWorldTransform s p = Some (mWorldTransform f, s)"
      by (rule getWorldTransform_world)
    then show ?thesis using poseTouched_refl by blast
  next
    assume "\<not> mNeedTransformUpdate f"
    with cached.hyps(1) have "getWorldTransform s p = Some (mWorldTransform f, s)"
      by (rule getWorldTransform_clean)
    then show ?thesis using poseTouched_refl by blast
  qed
next
  case (recompute s p f q n Tp)
  then obtain s1 where q: "getWorldTransform s q = Some (Tp, s1)" and t: "poseTouched s n s1"
    by blast
  have chain: "worldTransformOf s p (Suc n) (tmul Tp (relativeTransform f))"
    using recompute.hyps by (rule worldTransformOf.recompute)
  have "s1 p = s p"
    using t chain by (rule poseTouched_same)
  then have f1: "getFrame s1 p = Some f"
    using recompute.hyps(1) by (simp add: getFrame_def)
  note r = getWorldTransform_dirty [OF recompute.hyps(1) recompute.hyps(2) recompute.hyps(3)
      recompute.hyps(4) q f1]
  moreover have "poseTouched s (Suc n)
      (s1(p \<mapsto> FrameObj (poseUpdate f (tmul Tp (relativeTransform f)))))"
    using t recompute.hyps(1) chain by (rule poseTouched_step)
  ultimately show ?case by blast
qed

lemma getWorldTransform_sound:
  assumes "getWorldTransform s p = Some y"
  shows "\<exists>n. worldTransformOf s p n (fst y) \<and> poseTouched s n (snd y)"
proof (rule getWorldTransform.raw_induct
    [where P = "\<lambda>s p y. \<exists>n. worldTransformOf s p n (fst y) \<and> poseTouched s n (snd y)",
     OF _ assms], goal_cases)
  case (1 gwt s this y)
  from 1(2) obtain f where f: "getFrame s this = Some f"
    by (cases "getFrame s this") simp_all
  show ?case
  proof (cases "mAmWorld f \<or> \<not> mNeedTransformUpdate f")
    case True
    with 1(2) f have "y = (mWorldTransform f, s)"
      by (simp split: if_splits)
    moreover have "worldTransformOf s this 0 (mWorldTransform f)"
      using f True by (rule worldTransformOf.cached)
    ultimately show ?thesis using poseTouched_refl by fastforce
  next
    case False
    then have nw: "\<not> mAmWorld f" and d: "mNeedTransformUpdate f" by simp_all
    from 1(2) f nw d obtain parent where par: "mParentFrame f = Some parent"
      by (cases "mParentFrame f") simp_all
    from 1(2) f nw d par obtain Tp s1 where g: "gwt s parent = Some (Tp, s1)"
      by (cases "gwt s parent") auto
    from 1(1) [OF g] obtain n where n: "worldTransformOf s parent n Tp" "poseTouched s n s1"
      by auto
    have chain: "worldTransformOf s this (Suc n) (tmul Tp (relativeTransform f))"
      using f nw d par n(1) by (rule worldTransformOf.recompute)
    have "s1 this = s this"
      using n(2) chain by (rule poseTouched_same)
    then have f1: "getFrame s1 this = Some f"
      using f by (simp add: getFrame_def)
    from 1(2) f nw d par g f1
    have y: "y = (tmul Tp (relativeTransform f),
                s1(this \<mapsto> FrameObj (poseUpdate f (tmul Tp (relativeTransform f)))))"
      by (simp add: getRelativeTransform_def getFrame_upd_same poseUpdate_def)
    have "poseTouched s (Suc n)
            (s1(this \<mapsto> FrameObj (poseUpdate f (tmul Tp (relativeTransform f)))))"
      using n(2) f chain by (rule poseTouched_step)
    with y chain show ?thesis by fastforce
  qed
qed

lemma getWorldTransform_after:
  assumes f: "getFrame s this = Some f" and nw: "\<not> mAmWorld f" and d: "mNeedTransformUpdate f"
    and par: "mParentFrame f = Some parent"
    and g: "getWorldTransform s parent = Some (Tp, s1)"
  shows "getFrame s1 this = Some f"
    and "getWorldTransform s this =
           Some (tmul Tp (relativeTransform f),
                 s1(this \<mapsto> FrameObj (poseUpdate f (tmul Tp (relativeTransform f)))))"
proof -
  from getWorldTransform_sound [OF g]
  obtain n where n: "worldTransformOf s parent n Tp" "poseTouched s n s1" by auto
  have chain: "worldTransformOf s this (Suc n) (tmul Tp (relativeTransform f))"
    using f nw d par n(1) by (rule worldTransformOf.recompute)
  have "s1 this = s this"
    using n(2) chain by (rule poseTouched_same)
  then show f1: "getFrame s1 this = Some f"
    using f by (simp add: getFrame_def)
  show "getWorldTransform s this =
           Some (tmul Tp (relativeTransform f),
                 s1(this \<mapsto> FrameObj (poseUpdate f (tmul Tp (relativeTransform f)))))"
    using f nw d par g f1 by (rule getWorldTransform_dirty)
qed

section \<open>The pose query leaves the values of all queries as they are\<close>

lemma frameCell_getFrame: "frameCell v (s p) = map_option v (getFrame s p)"
  by (simp add: frameCell_def getFrame_def split: option.splits obj.splits)

lemma frameCell_eq_frame:
  assumes "frameCell v (s' p) = frameCell v (s p)" "getFrame s p = Some f"
  obtains f' where "getFrame s' p = Some f'" "v f' = v f"
proof -
  from assms have "map_option v (getFrame s' p) = Some (v f)"
    by (simp add: frameCell_getFrame)
  then obtain f' where "getFrame s' p = Some f'" "v f' = v f"
    by (cases "getFrame s' p") simp_all
  then show ?thesis by (rule that)
qed

lemma worldTransformOf_cong:
  "worldTransformOf s p n T \<Longrightarrow> (\<And>q. frameCell tfView (s' q) = frameCell tfView (s q)) \<Longrightarrow>
   worldTransformOf s' p n T"
proof (induction rule: worldTransformOf.induct)
  case (cached s p f)
  from cached.prems [of p] cached.hyps(1)
  obtain f' where f': "getFrame s' p = Some f'" "tfView f' = tfView f"
    by (rule frameCell_eq_frame)
  from f'(2) have v: "mAmWorld f' = mAmWorld f" "mNeedTransformUpdate f' = mNeedTransformUpdate f"
    "mWorldTransform f' = mWorldTransform f" by (simp_all add: tfView_def)
  from cached.hyps(2) have "mAmWorld f' \<or> \<not> mNeedTransformUpdate f'" unfolding v .
  with f'(1) have "worldTransformOf s' p 0 (mWorldTransform f')"
    by (rule worldTransformOf.cached)
  then show ?case unfolding v .
next
  case (recompute s p f q n Tp)
  from recompute.prems [of p] recompute.hyps(1)
  obtain f' where f': "getFrame s' p = Some f'" "tfView f' = tfView f"
    by (rule frameCell_eq_frame)
  from f'(2) have v: "mAmWorld f' = mAmWorld f" "mNeedTransformUpdate f' = mNeedTransformUpdate f"
    "mParentFrame f' = mParentFrame f" "relativeTransform f' = relativeTransform f"
    by (simp_all add: tfView_def)
  have IH: "worldTransformOf s' q n Tp"
    using recompute.prems by (rule recompute.IH)
  have "worldTransformOf s' p (Suc n) (tmul Tp (relativeTransform f'))"
    using f'(1) recompute.hyps(2,3,4) IH
    unfolding v [symmetric] by (rule worldTransformOf.recompute)
  then show ?case unfolding v .
qed

lemma poseUpdate_fields [simp]:
  "mNeedTransformUpdate (poseUpdate f X) = False"
  "mWorldTransform (poseUpdate f X) = X"
  "relativeTransformCalls (poseUpdate f X) = Suc (relativeTransformCalls f)"
  "mAmWorld (poseUpdate f X) = mAmWorld f"
  "mParentFrame (poseUpdate f X) = mParentFrame f"
  "relativeTransform (poseUpdate f X) = relativeTransform f"
  "velView (poseUpdate f X) = velView f"
  "accView (poseUpdate f X) = accView f"
  "linkView (poseUpdate f X) = linkView f"
  by (simp_all add: poseUpdate_def velView_def accView_def linkView_def)

lemma poseTouched_cases:
  assumes "poseTouched s n s'"
  obtains "s' q = s q"
  | f m X where "getFrame s q = Some f" "0 < m" "m \<le> n" "worldTransformOf s q m X"
      "s' q = Some (FrameObj (poseUpdate f X))"
  using assms unfolding poseTouched_def by blast

lemma worldTransformOf_dirty:
  assumes "worldTransformOf s q m X" "0 < m" "getFrame s q = Some f"
  shows "\<not> mAmWorld f" "mNeedTransformUpdate f"
  using assms
  by (induction rule: worldTransformOf.induct) simp_all

lemma poseTouched_other_views:
  assumes "poseTouched s n s'"
  shows "frameCell velView (s' q) = frameCell velView (s q)"
    and "frameCell accView (s' q) = frameCell accView (s q)"
    and "frameCell linkView (s' q) = frameCell linkView (s q)"
proof -
  have "frameCell velView (s' q) = frameCell velView (s q) \<and>
        frameCell accView (s' q) = frameCell accView (s q) \<and>
        frameCell linkView (s' q) = frameCell linkView (s q)"
    using assms
  proof (cases rule: poseTouched_cases [of _ _ _ q])
    case 1
    then show ?thesis by simp
  next
    case (2 f m X)
    from 2(1) have "s q = Some (FrameObj f)" by (simp only: getFrame_Some)
    with 2(5) show ?thesis by (simp add: frameCell_def)
  qed
  then show "frameCell velView (s' q) = frameCell velView (s q)"
    and "frameCell accView (s' q) = frameCell accView (s q)"
    and "frameCell linkView (s' q) = frameCell linkView (s q)" by blast+
qed

lemma poseTouched_forward:
  "worldTransformOf s p m T \<Longrightarrow> poseTouched s n s' \<Longrightarrow> \<exists>m'. worldTransformOf s' p m' T"
proof (induction rule: worldTransformOf.induct)
  case (cached s p f)
  from cached.prems show ?case
  proof (cases rule: poseTouched_cases [of _ _ _ p])
    case 1
    with cached.hyps(1) have "getFrame s' p = Some f" by (simp add: getFrame_def)
    then have "worldTransformOf s' p 0 (mWorldTransform f)"
      using cached.hyps(2) by (rule worldTransformOf.cached)
    then show ?thesis ..
  next
    case (2 g k X)
    from 2(1) cached.hyps(1) have "g = f" by simp
    with worldTransformOf_dirty [OF 2(4,2,1)] cached.hyps(2) show ?thesis by simp
  qed
next
  case (recompute s p f q k Tp)
  from recompute.prems have "\<exists>m'. worldTransformOf s' q m' Tp" by (rule recompute.IH)
  then obtain m' where IH: "worldTransformOf s' q m' Tp" ..
  from recompute.prems show ?case
  proof (cases rule: poseTouched_cases [of _ _ _ p])
    case 1
    with recompute.hyps(1) have "getFrame s' p = Some f" by (simp add: getFrame_def)
    then have "worldTransformOf s' p (Suc m') (tmul Tp (relativeTransform f))"
      using recompute.hyps(2,3,4) IH by (rule worldTransformOf.recompute)
    then show ?thesis ..
  next
    case (2 g j X)
    have "worldTransformOf s p (Suc k) (tmul Tp (relativeTransform f))"
      using recompute.hyps by (rule worldTransformOf.recompute)
    from worldTransformOf_det [OF 2(4) this] have X: "X = tmul Tp (relativeTransform f)" by simp
    from 2(5) have g: "getFrame s' p = Some (poseUpdate g X)" by (simp only: getFrame_Some)
    have "worldTransformOf s' p 0 (mWorldTransform (poseUpdate g X))"
      using g by (rule worldTransformOf.cached) simp
    then have "worldTransformOf s' p 0 (tmul Tp (relativeTransform f))"
      unfolding X by simp
    then show ?thesis ..
  qed
qed

lemma poseTouched_backward:
  "worldTransformOf s' p m T \<Longrightarrow> poseTouched s n s' \<Longrightarrow> \<exists>m'. worldTransformOf s p m' T"
proof (induction rule: worldTransformOf.induct)
  case (cached s' p f)
  from cached.prems show ?case
  proof (cases rule: poseTouched_cases [of _ _ _ p])
    case 1
    with cached.hyps(1) have "getFrame s p = Some f" by (simp add: getFrame_def)
    then have "worldTransformOf s p 0 (mWorldTransform f)"
      using cached.hyps(2) by (rule worldTransformOf.cached)
    then show ?thesis ..
  next
    case (2 g k X)
    from 2(5) have "getFrame s' p = Some (poseUpdate g X)" by (simp only: getFrame_Some)
    with cached.hyps(1) have "f = poseUpdate g X" by simp
    then have "mWorldTransform f = X" by simp
    with 2(4) show ?thesis by blast
  qed
next
  case (recompute s' p f q k Tp)
  from recompute.prems have "\<exists>m'. worldTransformOf s q m' Tp" by (rule recompute.IH)
  then obtain m' where IH: "worldTransformOf s q m' Tp" ..
  from recompute.prems show ?case
  proof (cases rule: poseTouched_cases [of _ _ _ p])
    case 1
    with recompute.hyps(1) have "getFrame s p = Some f" by (simp add: getFrame_def)
    then have "worldTransformOf s p (Suc m') (tmul Tp (relativeTransform f))"
      using recompute.hyps(2,3,4) IH by (rule worldTransformOf.recompute)
    then show ?thesis ..
  next
    case (2 g j X)
    from 2(5) have "getFrame s' p = Some (poseUpdate g X)" by (simp only: getFrame_Some)
    with recompute.hyps(1) have "f = poseUpdate g X" by simp
    with recompute.hyps(3) show ?thesis by simp
  qed
qed

lemma poseTouched_world:
  assumes "poseTouched s n s'"
  shows "frameCell worldView (s' q) = frameCell worldView (s q)"
    and "getFrame s q = None \<Longrightarrow> s' q = s q"
proof -
  have "frameCell worldView (s' q) = frameCell worldView (s q) \<and>
        (getFrame s q = None \<longrightarrow> s' q = s q)"
    using assms
  proof (cases rule: poseTouched_cases [of _ _ _ q])
    case 1
    then show ?thesis by simp
  next
    case (2 f m X)
    from 2(1) have c: "s q = Some (FrameObj f)" by (simp only: getFrame_Some)
    from worldTransformOf_dirty [OF 2(4,2,1)] have "\<not> mAmWorld f" by simp
    then have "worldView (poseUpdate f X) = worldView f" by (simp add: worldView_def)
    with c 2(1,5) show ?thesis by (simp add: frameCell_def)
  qed
  then show "frameCell worldView (s' q) = frameCell worldView (s q)"
    and "getFrame s q = None \<Longrightarrow> s' q = s q" by blast+
qed

section \<open>Properties of the notify methods\<close>

lemma raise_raise: "raise a b c (raise a' b' c' f) = raise (a \<or> a') (b \<or> b') (c \<or> c') f"
  by (simp add: raise_def disj_ac)

lemma raise_fields [simp]:
  "mNeedTransformUpdate (raise a b c f) = (mNeedTransformUpdate f \<or> a)"
  "mNeedVelocityUpdate (raise a b c f) = (mNeedVelocityUpdate f \<or> b)"
  "mNeedAccelerationUpdate (raise a b c f) = (mNeedAccelerationUpdate f \<or> c)"
  "mChildEntities (raise a b c f) = mChildEntities f"
  "mChildFrames (raise a b c f) = mChildFrames f"
  "mParentFrame (raise a b c f) = mParentFrame f"
  "mAmWorld (raise a b c f) = mAmWorld f"
  "mAmQuiet (raise a b c f) = mAmQuiet f"
  "mWorldTransform (raise a b c f) = mWorldTransform f"
  "mVelocity (raise a b c f) = mVelocity f"
  "mAcceleration (raise a b c f) = mAcceleration f"
  by (simp_all add: raise_def)

lemma raisedObj_refl: "raisedObj T V A x x"
  by (simp add: raisedObj_def)

lemma raisedObj_raise:
  "(tT \<longrightarrow> T) \<Longrightarrow> (tV \<longrightarrow> V) \<Longrightarrow> (tA \<longrightarrow> A) \<Longrightarrow>
   raisedObj T V A (Some (FrameObj f)) (Some (FrameObj (raise tT tV tA f)))"
  unfolding raisedObj_def by blast

lemma raisedObj_cases:
  assumes "raisedObj T V A x y"
  obtains "y = x"
  | f tT tV tA where "tT \<longrightarrow> T" "tV \<longrightarrow> V" "tA \<longrightarrow> A"
      "x = Some (FrameObj f)" "y = Some (FrameObj (raise tT tV tA f))"
  using assms unfolding raisedObj_def by blast

lemma raisedObj_trans:
  assumes "raisedObj T V A x y" "raisedObj T V A y z"
  shows "raisedObj T V A x z"
  using assms(1)
proof (cases rule: raisedObj_cases)
  case 1
  from assms(2) show ?thesis unfolding 1 .
next
  case (2 f tT tV tA)
  note xy = 2
  from assms(2) show ?thesis
  proof (cases rule: raisedObj_cases)
    case 1
    from assms(1) show ?thesis unfolding 1 .
  next
    case (2 g uT uV uA)
    from 2(4) have "Some (FrameObj g) = Some (FrameObj (raise tT tV tA f))"
      unfolding xy(5) by (rule sym)
    then have g: "g = raise tT tV tA f"
      by (simp only: option.inject obj.inject)
    have z: "z = Some (FrameObj (raise (uT \<or> tT) (uV \<or> tV) (uA \<or> tA) f))"
      unfolding 2(5) g raise_raise by (rule refl)
    have "raisedObj T V A (Some (FrameObj f))
            (Some (FrameObj (raise (uT \<or> tT) (uV \<or> tV) (uA \<or> tA) f)))"
    proof (rule raisedObj_raise)
      show "uT \<or> tT \<longrightarrow> T" using xy(1) 2(1) by blast
      show "uV \<or> tV \<longrightarrow> V" using xy(2) 2(2) by blast
      show "uA \<or> tA \<longrightarrow> A" using xy(3) 2(3) by blast
    qed
    then show ?thesis unfolding z xy(4) .
  qed
qed

lemma raisedObj_weaken:
  assumes "raisedObj T V A x y" "T \<longrightarrow> T'" "V \<longrightarrow> V'" "A \<longrightarrow> A'"
  shows "raisedObj T' V' A' x y"
  using assms(1)
proof (cases rule: raisedObj_cases)
  case 1
  then show ?thesis using raisedObj_refl by blast
next
  case (2 f tT tV tA)
  have "raisedObj T' V' A' (Some (FrameObj f)) (Some (FrameObj (raise tT tV tA f)))"
    using 2(1-3) assms(2-4) by (intro raisedObj_raise) blast+
  with 2(4,5) show ?thesis by blast
qed

lemma raisedBy_refl: "raisedBy T V A s s"
  by (simp add: raisedBy_def raisedObj_refl)

lemma raisedBy_trans:
  assumes "raisedBy T V A s s1" "raisedBy T V A s1 s2"
  shows "raisedBy T V A s s2"
  using assms unfolding raisedBy_def by (blast intro: raisedObj_trans)

lemma raisedBy_weaken:
  assumes "raisedBy T V A s s'" "T \<longrightarrow> T'" "V \<longrightarrow> V'" "A \<longrightarrow> A'"
  shows "raisedBy T' V' A' s s'"
  using assms unfolding raisedBy_def by (blast intro: raisedObj_weaken)

lemma raisedBy_upd:
  assumes "s p = Some (FrameObj f)" "tT \<longrightarrow> T" "tV \<longrightarrow> V" "tA \<longrightarrow> A"
  shows "raisedBy T V A s (s(p \<mapsto> FrameObj (raise tT tV tA f)))"
  unfolding raisedBy_def
proof
  fix q
  show "raisedObj T V A (s q) ((s(p \<mapsto> FrameObj (raise tT tV tA f))) q)"
  proof (cases "q = p")
    case True
    have "raisedObj T V A (Some (FrameObj f)) (Some (FrameObj (raise tT tV tA f)))"
      using assms(2-4) by (rule raisedObj_raise)
    with True assms(1) show ?thesis by simp
  next
    case False
    then show ?thesis by (simp add: raisedObj_refl)
  qed
qed

lemma raise_none: "raise False False False f = f"
  by (simp add: raise_def)

lemma raisedBy_frame:
  assumes "raisedBy T V A s s'" "getFrame s p = Some f"
  obtains tT tV tA where "tT \<longrightarrow> T" "tV \<longrightarrow> V" "tA \<longrightarrow> A"
    "getFrame s' p = Some (raise tT tV tA f)"
proof -
  from assms(2) have sp: "s p = Some (FrameObj f)" by (simp only: getFrame_Some)
  from assms(1) have "raisedObj T V A (s p) (s' p)"
    unfolding raisedBy_def by (rule spec)
  then show ?thesis
  proof (cases rule: raisedObj_cases)
    case 1
    have "s' p = Some (FrameObj (raise False False False f))"
      unfolding 1 sp raise_none by (rule refl)
    then have "getFrame s' p = Some (raise False False False f)"
      by (simp only: getFrame_Some)
    then show ?thesis by (rule that [rotated 3]) simp_all
  next
    case (2 g tT tV tA)
    from 2(4) have "Some (FrameObj g) = Some (FrameObj f)"
      unfolding sp by (rule sym)
    then have g: "g = f" by (simp only: option.inject obj.inject)
    from 2(5) have "getFrame s' p = Some (raise tT tV tA f)"
      unfolding g by (simp only: getFrame_Some)
    with 2(1-3) show ?thesis by (rule that)
  qed
qed

lemma raisedBy_other:
  assumes "raisedBy T V A s s'" and n: "getFrame s p = None"
  shows "s' p = s p"
proof -
  from assms(1) have "raisedObj T V A (s p) (s' p)"
    unfolding raisedBy_def by (rule spec)
  then show "s' p = s p"
  proof (cases rule: raisedObj_cases)
    case 1
    then show ?thesis .
  next
    case (2 g tT tV tA)
    from 2(4) have "getFrame s p = Some g" by (simp only: getFrame_Some)
    with n show ?thesis by simp
  qed
qed

lemma forEach_raisedBy:
  assumes g: "\<And>s c s'. c \<in> set cs \<Longrightarrow> g s c = Some s' \<Longrightarrow> raisedBy T V A s s'"
  shows "forEach cs g s = Some s' \<Longrightarrow> raisedBy T V A s s'"
  using g
proof (induction cs arbitrary: s)
  case Nil
  then show ?case by (simp add: raisedBy_refl)
next
  case (Cons c cs)
  from Cons.prems(1) obtain s1 where s1: "g s c = Some s1" "forEach cs g s1 = Some s'"
    by (cases "g s c") simp_all
  have "raisedBy T V A s s1"
    using s1(1) by (intro Cons.prems(2) [of c s s1]) simp_all
  moreover have "raisedBy T V A s1 s'"
  proof (rule Cons.IH [OF s1(2)])
    fix sa ca sb
    assume "ca \<in> set cs" "g sa ca = Some sb"
    then show "raisedBy T V A sa sb"
      by (intro Cons.prems(2) [of ca sa sb]) simp_all
  qed
  ultimately show ?case by (rule raisedBy_trans)
qed

lemma notifyAccelerationUpdate_raisedBy:
  "notifyAccelerationUpdate n s p = Some s' \<Longrightarrow> raisedBy False False True s s'"
proof (induction n arbitrary: s p s')
  case 0
  then show ?case by simp
next
  case (Suc n)
  show ?case
  proof (cases "s p")
    case None
    with Suc.prems show ?thesis by simp
  next
    case (Some x)
    show ?thesis
    proof (cases x)
      case (EntityObj e)
      with Some Suc.prems show ?thesis by (simp add: Entity_notifyUpdate_def raisedBy_refl)
    next
      case ShapeObj
      with Some Suc.prems show ?thesis by simp
    next
      case (FrameObj f)
      show ?thesis
      proof (cases "mNeedAccelerationUpdate f")
        case True
        with Some FrameObj Suc.prems show ?thesis by (simp add: raisedBy_refl)
      next
        case False
        have eq: "f\<lparr>mNeedAccelerationUpdate := True\<rparr> = raise False False True f"
          by (simp add: raise_def)
        from False Some FrameObj Suc.prems
        have "forEach (mChildEntities f) (notifyAccelerationUpdate n)
                (s(p \<mapsto> FrameObj (raise False False True f))) = Some s'"
          by (simp add: eq)
        then have "raisedBy False False True (s(p \<mapsto> FrameObj (raise False False True f))) s'"
          using Suc.IH by (rule forEach_raisedBy [rotated])
        moreover have "raisedBy False False True s (s(p \<mapsto> FrameObj (raise False False True f)))"
          using Some FrameObj by (intro raisedBy_upd) simp_all
        ultimately show ?thesis by (rule raisedBy_trans [rotated])
      qed
    qed
  qed
qed

lemma set_flag_raise:
  "f\<lparr>mNeedAccelerationUpdate := True\<rparr> = raise False False True f"
  "f\<lparr>mNeedVelocityUpdate := True\<rparr> = raise False True False f"
  "f\<lparr>mNeedTransformUpdate := True\<rparr> = raise True False False f"
  by (simp_all add: raise_def)

lemma notifyVelocityUpdate_frameE:
  assumes "notifyVelocityUpdate (Suc n) s p = Some s'" "s p = Some (FrameObj f)"
  obtains s1 f1 where "notifyAccelerationUpdate n s p = Some s1" "getFrame s1 p = Some f1"
    "mNeedVelocityUpdate f1 \<Longrightarrow> s' = s1"
    "\<not> mNeedVelocityUpdate f1 \<Longrightarrow>
       forEach (mChildEntities f1) (notifyVelocityUpdate n)
         (s1(p \<mapsto> FrameObj (raise False True False f1))) = Some s'"
proof -
  from assms obtain s1 where s1: "notifyAccelerationUpdate n s p = Some s1"
    by (cases "notifyAccelerationUpdate n s p") simp_all
  from assms s1 obtain f1 where f1: "getFrame s1 p = Some f1"
    by (cases "getFrame s1 p") simp_all
  from assms s1 f1 have "mNeedVelocityUpdate f1 \<Longrightarrow> s' = s1"
    by simp
  moreover from assms s1 f1 have "\<not> mNeedVelocityUpdate f1 \<Longrightarrow>
       forEach (mChildEntities f1) (notifyVelocityUpdate n)
         (s1(p \<mapsto> FrameObj (raise False True False f1))) = Some s'"
    by (simp add: set_flag_raise)
  ultimately show ?thesis using s1 f1 by (rule that [rotated 2])
qed

lemma notifyTransformUpdate_frameE:
  assumes "notifyTransformUpdate (Suc n) s p = Some s'" "s p = Some (FrameObj f)"
  obtains s1 f1 where "notifyVelocityUpdate n s p = Some s1" "getFrame s1 p = Some f1"
    "mNeedTransformUpdate f1 \<Longrightarrow> s' = s1"
    "\<not> mNeedTransformUpdate f1 \<Longrightarrow>
       forEach (mChildEntities f1) (notifyTransformUpdate n)
         (s1(p \<mapsto> FrameObj (raise True False False f1))) = Some s'"
proof -
  from assms obtain s1 where s1: "notifyVelocityUpdate n s p = Some s1"
    by (cases "notifyVelocityUpdate n s p") simp_all
  from assms s1 obtain f1 where f1: "getFrame s1 p = Some f1"
    by (cases "getFrame s1 p") simp_all
  from assms s1 f1 have "mNeedTransformUpdate f1 \<Longrightarrow> s' = s1"
    by simp
  moreover from assms s1 f1 have "\<not> mNeedTransformUpdate f1 \<Longrightarrow>
       forEach (mChildEntities f1) (notifyTransformUpdate n)
         (s1(p \<mapsto> FrameObj (raise True False False f1))) = Some s'"
    by (simp add: set_flag_raise)
  ultimately show ?thesis using s1 f1 by (rule that [rotated 2])
qed

lemma notifyVelocityUpdate_raisedBy:
  "notifyVelocityUpdate n s p = Some s' \<Longrightarrow> raisedBy False True True s s'"
proof (induction n arbitrary: s p s')
  case 0
  then show ?case by simp
next
  case (Suc n)
  show ?case
  proof (cases "s p")
    case None
    with Suc.prems show ?thesis by simp
  next
    case (Some x)
    show ?thesis
    proof (cases x)
      case (EntityObj e)
      with Some Suc.prems show ?thesis by (simp add: Entity_notifyUpdate_def raisedBy_refl)
    next
      case ShapeObj
      with Some Suc.prems show ?thesis by simp
    next
      case (FrameObj f)
      with Some have sp: "s p = Some (FrameObj f)" by simp
      from Suc.prems sp show ?thesis
      proof (rule notifyVelocityUpdate_frameE)
        fix s1 f1
        assume a: "notifyAccelerationUpdate n s p = Some s1" "getFrame s1 p = Some f1"
          "mNeedVelocityUpdate f1 \<Longrightarrow> s' = s1"
          "\<not> mNeedVelocityUpdate f1 \<Longrightarrow>
             forEach (mChildEntities f1) (notifyVelocityUpdate n)
               (s1(p \<mapsto> FrameObj (raise False True False f1))) = Some s'"
        have r1: "raisedBy False True True s s1"
          using notifyAccelerationUpdate_raisedBy [OF a(1)] by (rule raisedBy_weaken) simp_all
        show ?thesis
        proof (cases "mNeedVelocityUpdate f1")
          case True
          with a(3) r1 show ?thesis by simp
        next
          case False
          with a(4) have "forEach (mChildEntities f1) (notifyVelocityUpdate n)
               (s1(p \<mapsto> FrameObj (raise False True False f1))) = Some s'" by simp
          then have "raisedBy False True True (s1(p \<mapsto> FrameObj (raise False True False f1))) s'"
            using Suc.IH by (rule forEach_raisedBy [rotated])
          moreover have "raisedBy False True True s1 (s1(p \<mapsto> FrameObj (raise False True False f1)))"
            using a(2) by (intro raisedBy_upd) (simp_all only: getFrame_Some simp_thms)
          ultimately have "raisedBy False True True s1 s'" by (rule raisedBy_trans [rotated])
          with r1 show ?thesis by (rule raisedBy_trans)
        qed
      qed
    qed
  qed
qed

lemma notifyTransformUpdate_raisedBy:
  "notifyTransformUpdate n s p = Some s' \<Longrightarrow> raisedBy True True True s s'"
proof (induction n arbitrary: s p s')
  case 0
  then show ?case by simp
next
  case (Suc n)
  show ?case
  proof (cases "s p")
    case None
    with Suc.prems show ?thesis by simp
  next
    case (Some x)
    show ?thesis
    proof (cases x)
      case (EntityObj e)
      with Some Suc.prems show ?thesis by (simp add: Entity_notifyUpdate_def raisedBy_refl)
    next
      case ShapeObj
      with Some Suc.prems show ?thesis by simp
    next
      case (FrameObj f)
      with Some have sp: "s p = Some (FrameObj f)" by simp
      from Suc.prems sp show ?thesis
      proof (rule notifyTransformUpdate_frameE)
        fix s1 f1
        assume a: "notifyVelocityUpdate n s p = Some s1" "getFrame s1 p = Some f1"
          "mNeedTransformUpdate f1 \<Longrightarrow> s' = s1"
          "\<not> mNeedTransformUpdate f1 \<Longrightarrow>
             forEach (mChildEntities f1) (notifyTransformUpdate n)
               (s1(p \<mapsto> FrameObj (raise True False False f1))) = Some s'"
        have r1: "raisedBy True True True s s1"
          using notifyVelocityUpdate_raisedBy [OF a(1)] by (rule raisedBy_weaken) simp_all
        show ?thesis
        proof (cases "mNeedTransformUpdate f1")
          case True
          with a(3) r1 show ?thesis by simp
        next
          case False
          with a(4) have "forEach (mChildEntities f1) (notifyTransformUpdate n)
               (s1(p \<mapsto> FrameObj (raise True False False f1))) = Some s'" by simp
          then have "raisedBy True True True (s1(p \<mapsto> FrameObj (raise True False False f1))) s'"
            using Suc.IH by (rule forEach_raisedBy [rotated])
          moreover have "raisedBy True True True s1 (s1(p \<mapsto> FrameObj (raise True False False f1)))"
            using a(2) by (intro raisedBy_upd) (simp_all only: getFrame_Some simp_thms)
          ultimately have "raisedBy True True True s1 s'" by (rule raisedBy_trans [rotated])
          with r1 show ?thesis by (rule raisedBy_trans)
        qed
      qed
    qed
  qed
qed

lemma forEach_notify_raisedBy:
  assumes "forEach cs (notifyAccelerationUpdate n) s = Some s'"
  shows "raisedBy False False True s s'"
  using assms notifyAccelerationUpdate_raisedBy by (rule forEach_raisedBy [rotated])

lemma notifyAccelerationUpdate_sets:
  assumes "notifyAccelerationUpdate n s p = Some s'" "getFrame s p = Some f"
  obtains f' where "getFrame s' p = Some f'" "mNeedAccelerationUpdate f'"
proof (cases n)
  case 0
  with assms(1) show ?thesis by simp
next
  case (Suc m)
  from assms(2) have sp: "s p = Some (FrameObj f)" by (simp only: getFrame_Some)
  show ?thesis
  proof (cases "mNeedAccelerationUpdate f")
    case True
    with assms(1) sp Suc have "s' = s" by simp
    with assms(2) True show ?thesis by (intro that [of f]) simp_all
  next
    case False
    let ?s0 = "s(p \<mapsto> FrameObj (raise False False True f))"
    from False assms(1) sp Suc
    have "forEach (mChildEntities f) (notifyAccelerationUpdate m) ?s0 = Some s'"
      by (simp add: set_flag_raise)
    then have r: "raisedBy False False True ?s0 s'"
      by (rule forEach_notify_raisedBy)
    have "getFrame ?s0 p = Some (raise False False True f)"
      by (rule getFrame_upd_same)
    with r obtain tT tV tA where "getFrame s' p = Some (raise tT tV tA (raise False False True f))"
      by (rule raisedBy_frame)
    then show ?thesis by (rule that) simp
  qed
qed

lemma notifyVelocityUpdate_sets:
  assumes "notifyVelocityUpdate n s p = Some s'" "getFrame s p = Some f"
  obtains f' where "getFrame s' p = Some f'" "mNeedVelocityUpdate f'" "mNeedAccelerationUpdate f'"
proof (cases n)
  case 0
  with assms(1) show ?thesis by simp
next
  case (Suc m)
  from assms(2) have sp: "s p = Some (FrameObj f)" by (simp only: getFrame_Some)
  from assms(1) [unfolded Suc] sp show ?thesis
  proof (rule notifyVelocityUpdate_frameE)
    fix s1 f1
    assume a: "notifyAccelerationUpdate m s p = Some s1" "getFrame s1 p = Some f1"
      "mNeedVelocityUpdate f1 \<Longrightarrow> s' = s1"
      "\<not> mNeedVelocityUpdate f1 \<Longrightarrow>
         forEach (mChildEntities f1) (notifyVelocityUpdate m)
           (s1(p \<mapsto> FrameObj (raise False True False f1))) = Some s'"
    from a(1) assms(2) obtain g where g: "getFrame s1 p = Some g" "mNeedAccelerationUpdate g"
      by (rule notifyAccelerationUpdate_sets)
    from g(1) a(2) have "g = f1" by simp
    with g(2) have A1: "mNeedAccelerationUpdate f1" by simp
    show ?thesis
    proof (cases "mNeedVelocityUpdate f1")
      case True
      with a(3) have "s' = s1" by simp
      with a(2) True A1 show ?thesis by (intro that [of f1]) simp_all
    next
      case False
      let ?s0 = "s1(p \<mapsto> FrameObj (raise False True False f1))"
      from False a(4) have "forEach (mChildEntities f1) (notifyVelocityUpdate m) ?s0 = Some s'"
        by simp
      then have r: "raisedBy False True True ?s0 s'"
        using notifyVelocityUpdate_raisedBy by (rule forEach_raisedBy [rotated])
      have "getFrame ?s0 p = Some (raise False True False f1)"
        by (rule getFrame_upd_same)
      with r obtain tT tV tA where
        h: "getFrame s' p = Some (raise tT tV tA (raise False True False f1))"
        by (rule raisedBy_frame)
      show ?thesis by (rule that [OF h]) (simp_all add: A1)
    qed
  qed
qed

lemma notifyAccelerationUpdate_dirty:
  "s p = Some (FrameObj f) \<Longrightarrow> mNeedAccelerationUpdate f \<Longrightarrow>
   notifyAccelerationUpdate (Suc n) s p = Some s"
  by simp

lemma notifyVelocityUpdate_dirty:
  "s p = Some (FrameObj f) \<Longrightarrow> mNeedAccelerationUpdate f \<Longrightarrow> mNeedVelocityUpdate f \<Longrightarrow>
   notifyVelocityUpdate (Suc (Suc n)) s p = Some s"
  by (simp add: getFrame_def)

lemma notifyTransformUpdate_dirty:
  "s p = Some (FrameObj f) \<Longrightarrow> mNeedAccelerationUpdate f \<Longrightarrow> mNeedVelocityUpdate f \<Longrightarrow>
   mNeedTransformUpdate f \<Longrightarrow> notifyTransformUpdate (Suc (Suc (Suc n))) s p = Some s"
  by (simp add: getFrame_def)

lemma raisedBy_transform_flag:
  assumes "raisedBy False V A s s'" "getFrame s q = Some g" "getFrame s' q = Some g'"
  shows "mNeedTransformUpdate g' = mNeedTransformUpdate g"
    and "mChildEntities g' = mChildEntities g"
proof -
  from assms(1,2) obtain tT tV tA where t: "tT \<longrightarrow> False" "getFrame s' q = Some (raise tT tV tA g)"
    by (rule raisedBy_frame)
  from t(2) assms(3) have g': "g' = raise tT tV tA g" by simp
  from t(1) show "mNeedTransformUpdate g' = mNeedTransformUpdate g"
    unfolding g' by simp
  show "mChildEntities g' = mChildEntities g"
    unfolding g' by simp
qed

section \<open>The notify methods return\<close>

lemma raisedObj_liveObj: "raisedObj T V A x y \<Longrightarrow> liveObj y = liveObj x"
  by (erule raisedObj_cases) (simp_all add: liveObj_def)

lemma raisedObj_clearFlags: "raisedObj T V A x y \<Longrightarrow> clearFlags y \<le> clearFlags x"
  by (erule raisedObj_cases) (simp_all add: clearFlags_def)

lemma raisedObj_None: "raisedObj T V A x y \<Longrightarrow> y = None \<longleftrightarrow> x = None"
  by (erule raisedObj_cases) simp_all

lemma raisedObj_children:
  assumes "raisedObj T V A x (Some (FrameObj f'))"
  obtains f where "x = Some (FrameObj f)" "mChildEntities f = mChildEntities f'"
  using assms
proof (cases rule: raisedObj_cases)
  case 1
  then show ?thesis by (intro that [of f']) simp_all
next
  case (2 f tT tV tA)
  from 2(5) have "f' = raise tT tV tA f" by simp
  with 2(4) show ?thesis by (intro that [of f]) simp_all
qed

lemma raisedBy_cell: "raisedBy T V A s s' \<Longrightarrow> raisedObj T V A (s q) (s' q)"
  by (simp add: raisedBy_def)

lemma raisedBy_liveObj: "raisedBy T V A s s' \<Longrightarrow> liveObj (s' q) = liveObj (s q)"
  by (rule raisedObj_liveObj) (rule raisedBy_cell)

lemma raisedBy_dom:
  assumes "raisedBy T V A s s'"
  shows "dom s' = dom s"
proof -
  have "s' q = None \<longleftrightarrow> s q = None" for q
    using raisedBy_cell [OF assms, of q] by (rule raisedObj_None)
  then show ?thesis by (auto simp add: dom_def)
qed

lemma raisedBy_liveChildren:
  assumes r: "raisedBy T V A s s'" and l: "liveChildren s"
  shows "liveChildren s'"
  unfolding liveChildren_def
proof (intro allI impI ballI)
  fix p f' c
  assume p: "s' p = Some (FrameObj f')" and c: "c \<in> set (mChildEntities f')"
  from raisedBy_cell [OF r, of p] have "raisedObj T V A (s p) (Some (FrameObj f'))"
    unfolding p .
  then obtain f where f: "s p = Some (FrameObj f)" "mChildEntities f = mChildEntities f'"
    by (rule raisedObj_children)
  from c f(2) have "c \<in> set (mChildEntities f)" by simp
  with l f(1) have "liveObj (s c)" unfolding liveChildren_def by blast
  then show "liveObj (s' c)" by (simp add: raisedBy_liveObj [OF r])
qed

lemma raisedBy_pending:
  assumes r: "raisedBy T V A s s'"
  shows "pending s' \<le> pending s"
proof -
  have "(\<Sum>p \<in> dom s. clearFlags (s' p)) \<le> (\<Sum>p \<in> dom s. clearFlags (s p))"
    by (rule sum_mono) (rule raisedObj_clearFlags [OF raisedBy_cell [OF r]])
  then show ?thesis by (simp add: pending_def raisedBy_dom [OF r])
qed

lemma notifiable_raisedBy:
  assumes "notifiable k s" "raisedBy T V A s s'"
  shows "notifiable k s'"
proof -
  from assms(1) have f: "finite (dom s)" and l: "liveChildren s" and p: "pending s \<le> k"
    by (simp_all add: notifiable_def)
  from f have "finite (dom s')" by (simp add: raisedBy_dom [OF assms(2)])
  moreover from assms(2) l have "liveChildren s'" by (rule raisedBy_liveChildren)
  moreover from raisedBy_pending [OF assms(2)] p have "pending s' \<le> k" by simp
  ultimately show ?thesis by (simp add: notifiable_def)
qed

lemma pending_update:
  assumes f: "finite (dom s)" and p: "s p = Some x"
    and c: "clearFlags (Some y) < clearFlags (Some x)"
  shows "pending (s(p \<mapsto> y)) < pending s"
proof -
  from p have d: "dom (s(p \<mapsto> y)) = dom s" by auto
  from p have m: "p \<in> dom s" by auto
  have "(\<Sum>q \<in> dom s. clearFlags ((s(p \<mapsto> y)) q)) < (\<Sum>q \<in> dom s. clearFlags (s q))"
  proof (rule sum_strict_mono_ex1 [OF f])
    show "\<forall>q \<in> dom s. clearFlags ((s(p \<mapsto> y)) q) \<le> clearFlags (s q)"
      using c p by auto
    show "\<exists>q \<in> dom s. clearFlags ((s(p \<mapsto> y)) q) < clearFlags (s q)"
      using c p m by (intro bexI [of _ p]) simp_all
  qed
  then show ?thesis unfolding pending_def d .
qed

lemma notifiable_set_flag:
  assumes n: "notifiable k s" and p: "s p = Some (FrameObj f)"
    and c: "clearFlags (Some (FrameObj (raise tT tV tA f))) < clearFlags (Some (FrameObj f))"
  shows "\<exists>j < k. notifiable j (s(p \<mapsto> FrameObj (raise tT tV tA f)))"
proof -
  let ?s0 = "s(p \<mapsto> FrameObj (raise tT tV tA f))"
  from n have f: "finite (dom s)" and pk: "pending s \<le> k" by (simp_all add: notifiable_def)
  have r: "raisedBy True True True s ?s0"
    using p by (intro raisedBy_upd) simp_all
  from n r have "notifiable k ?s0" by (rule notifiable_raisedBy)
  then have "notifiable (pending ?s0) ?s0" by (simp add: notifiable_def)
  moreover from pending_update [OF f p c] pk have "pending ?s0 < k" by simp
  ultimately show ?thesis by blast
qed

lemma forEach_returns:
  assumes g: "\<And>s c. c \<in> set cs \<Longrightarrow> I s \<Longrightarrow> \<exists>s'. g s c = Some s' \<and> I s'"
    and i: "I s"
  shows "\<exists>s'. forEach cs g s = Some s' \<and> I s'"
  using g i
proof (induction cs arbitrary: s)
  case Nil
  then show ?case by simp
next
  case (Cons c cs)
  from Cons.prems(1) [of c s] Cons.prems(2)
  obtain s1 where s1: "g s c = Some s1" "I s1" by auto
  have "\<exists>s'. forEach cs g s1 = Some s' \<and> I s'"
  proof (rule Cons.IH)
    fix sa ca assume "ca \<in> set cs" "I sa"
    then show "\<exists>s'. g sa ca = Some s' \<and> I s'"
      by (intro Cons.prems(1)) simp_all
  qed (rule s1(2))
  with s1(1) show ?case by simp
qed

text \<open>The heaps in which the children \<open>cs\<close> can be notified with fuel above \<open>j\<close>.\<close>

lemma children_returns:
  assumes step: "\<And>s c. notifiable j s \<Longrightarrow> liveObj (s c) \<Longrightarrow>
      \<exists>s'. g s c = Some s' \<and> raisedBy True True True s s'"
    and n: "notifiable j s" and l: "\<forall>c \<in> set cs. liveObj (s c)"
  shows "\<exists>s'. forEach cs g s = Some s'"
proof -
  let ?I = "\<lambda>s. notifiable j s \<and> (\<forall>c \<in> set cs. liveObj (s c))"
  have "\<exists>s'. forEach cs g s = Some s' \<and> ?I s'"
  proof (rule forEach_returns [where I = ?I])
    fix sa c assume c: "c \<in> set cs" and I: "?I sa"
    from I c have "notifiable j sa" "liveObj (sa c)" by blast+
    from step [OF this] obtain sb where sb: "g sa c = Some sb" "raisedBy True True True sa sb"
      by blast
    from I sb(2) have "notifiable j sb" by (blast intro: notifiable_raisedBy)
    moreover from I have "\<forall>c \<in> set cs. liveObj (sb c)"
      by (simp add: raisedBy_liveObj [OF sb(2)])
    ultimately show "\<exists>s'. g sa c = Some s' \<and> ?I s'" using sb(1) by blast
  next
    from n l show "?I s" by blast
  qed
  then show ?thesis by blast
qed

lemma liveChildren_frame:
  "notifiable k s \<Longrightarrow> s p = Some (FrameObj f) \<Longrightarrow> \<forall>c \<in> set (mChildEntities f). liveObj (s c)"
  unfolding notifiable_def liveChildren_def by blast

lemma clearFlags_raise:
  "\<not> mNeedAccelerationUpdate f \<Longrightarrow>
     clearFlags (Some (FrameObj (raise False False True f))) < clearFlags (Some (FrameObj f))"
  "\<not> mNeedVelocityUpdate f \<Longrightarrow>
     clearFlags (Some (FrameObj (raise False True False f))) < clearFlags (Some (FrameObj f))"
  "\<not> mNeedTransformUpdate f \<Longrightarrow>
     clearFlags (Some (FrameObj (raise True False False f))) < clearFlags (Some (FrameObj f))"
  by (simp_all add: clearFlags_def)

lemma notifyAccelerationUpdate_returns:
  "notifiable k s \<Longrightarrow> liveObj (s p) \<Longrightarrow> k < n \<Longrightarrow>
   \<exists>s'. notifyAccelerationUpdate n s p = Some s' \<and> raisedBy True True True s s'"
proof (induction n arbitrary: k s p)
  case 0
  then show ?case by simp
next
  case (Suc n)
  from Suc.prems(2) obtain x where x: "s p = Some x"
    by (cases "s p") (simp_all add: liveObj_def)
  show ?case
  proof (cases x)
    case (EntityObj e)
    with x show ?thesis by (simp add: Entity_notifyUpdate_def raisedBy_refl)
  next
    case ShapeObj
    with x Suc.prems(2) show ?thesis by (simp add: liveObj_def)
  next
    case (FrameObj f)
    with x have sp: "s p = Some (FrameObj f)" by simp
    show ?thesis
    proof (cases "mNeedAccelerationUpdate f")
      case True
      with sp show ?thesis by (simp add: raisedBy_refl)
    next
      case False
      let ?s0 = "s(p \<mapsto> FrameObj (raise False False True f))"
      from notifiable_set_flag [OF Suc.prems(1) sp clearFlags_raise(1) [OF False]]
      obtain j where j: "j < k" "notifiable j ?s0" by blast
      from j(1) Suc.prems(3) have jn: "j < n" by simp
      have r0: "raisedBy True True True s ?s0"
        using sp by (intro raisedBy_upd) simp_all
      from liveChildren_frame [OF Suc.prems(1) sp]
      have l: "\<forall>c \<in> set (mChildEntities f). liveObj (?s0 c)"
        by (simp only: raisedBy_liveObj [OF r0])
      have "\<exists>s'. forEach (mChildEntities f) (notifyAccelerationUpdate n) ?s0 = Some s'"
      proof (rule children_returns [OF _ j(2) l])
        fix sa c assume "notifiable j sa" "liveObj (sa c)"
        then show "\<exists>s'. notifyAccelerationUpdate n sa c = Some s' \<and> raisedBy True True True sa s'"
          using jn by (rule Suc.IH)
      qed
      then obtain s' where s': "forEach (mChildEntities f) (notifyAccelerationUpdate n) ?s0 = Some s'"
        ..
      with sp False have e: "notifyAccelerationUpdate (Suc n) s p = Some s'"
        by (simp add: set_flag_raise)
      then have "raisedBy False False True s s'" by (rule notifyAccelerationUpdate_raisedBy)
      then have "raisedBy True True True s s'" by (rule raisedBy_weaken) simp_all
      with e show ?thesis by blast
    qed
  qed
qed

lemma notifyVelocityUpdate_returns:
  "notifiable k s \<Longrightarrow> liveObj (s p) \<Longrightarrow> Suc k < n \<Longrightarrow>
   \<exists>s'. notifyVelocityUpdate n s p = Some s' \<and> raisedBy True True True s s'"
proof (induction n arbitrary: k s p)
  case 0
  then show ?case by simp
next
  case (Suc n)
  from Suc.prems(2) obtain x where x: "s p = Some x"
    by (cases "s p") (simp_all add: liveObj_def)
  show ?case
  proof (cases x)
    case (EntityObj e)
    with x show ?thesis by (simp add: Entity_notifyUpdate_def raisedBy_refl)
  next
    case ShapeObj
    with x Suc.prems(2) show ?thesis by (simp add: liveObj_def)
  next
    case (FrameObj f)
    with x have sp: "s p = Some (FrameObj f)" by simp
    from Suc.prems(3) have "k < n" by simp
    with Suc.prems(1,2) obtain s1 where s1: "notifyAccelerationUpdate n s p = Some s1"
      "raisedBy True True True s s1"
      using notifyAccelerationUpdate_returns by blast
    from Suc.prems(1) s1(2) have n1: "notifiable k s1" by (rule notifiable_raisedBy)
    from sp have "getFrame s p = Some f" by (simp only: getFrame_Some)
    with s1(2) obtain tT tV tA where "getFrame s1 p = Some (raise tT tV tA f)"
      by (rule raisedBy_frame)
    then obtain f1 where f1: "getFrame s1 p = Some f1" ..
    then have sp1: "s1 p = Some (FrameObj f1)" by (simp only: getFrame_Some)
    show ?thesis
    proof (cases "mNeedVelocityUpdate f1")
      case True
      with sp s1(1) f1 have "notifyVelocityUpdate (Suc n) s p = Some s1" by simp
      with s1(2) show ?thesis by blast
    next
      case False
      let ?s0 = "s1(p \<mapsto> FrameObj (raise False True False f1))"
      from notifiable_set_flag [OF n1 sp1 clearFlags_raise(2) [OF False]]
      obtain j where j: "j < k" "notifiable j ?s0" by blast
      from j(1) Suc.prems(3) have jn: "Suc j < n" by simp
      have r0: "raisedBy True True True s1 ?s0"
        using sp1 by (intro raisedBy_upd) simp_all
      from liveChildren_frame [OF n1 sp1]
      have l: "\<forall>c \<in> set (mChildEntities f1). liveObj (?s0 c)"
        by (simp only: raisedBy_liveObj [OF r0])
      have "\<exists>s'. forEach (mChildEntities f1) (notifyVelocityUpdate n) ?s0 = Some s'"
      proof (rule children_returns [OF _ j(2) l])
        fix sa c assume "notifiable j sa" "liveObj (sa c)"
        then show "\<exists>s'. notifyVelocityUpdate n sa c = Some s' \<and> raisedBy True True True sa s'"
          using jn by (rule Suc.IH)
      qed
      then obtain s' where s': "forEach (mChildEntities f1) (notifyVelocityUpdate n) ?s0 = Some s'"
        ..
      with sp s1(1) f1 False have e: "notifyVelocityUpdate (Suc n) s p = Some s'"
        by (simp add: set_flag_raise)
      then have "raisedBy False True True s s'" by (rule notifyVelocityUpdate_raisedBy)
      then have "raisedBy True True True s s'" by (rule raisedBy_weaken) simp_all
      with e show ?thesis by blast
    qed
  qed
qed

lemma notifyTransformUpdate_returns:
  "notifiable k s \<Longrightarrow> liveObj (s p) \<Longrightarrow> Suc (Suc k) < n \<Longrightarrow>
   \<exists>s'. notifyTransformUpdate n s p = Some s' \<and> raisedBy True True True s s'"
proof (induction n arbitrary: k s p)
  case 0
  then show ?case by simp
next
  case (Suc n)
  from Suc.prems(2) obtain x where x: "s p = Some x"
    by (cases "s p") (simp_all add: liveObj_def)
  show ?case
  proof (cases x)
    case (EntityObj e)
    with x show ?thesis by (simp add: Entity_notifyUpdate_def raisedBy_refl)
  next
    case ShapeObj
    with x Suc.prems(2) show ?thesis by (simp add: liveObj_def)
  next
    case (FrameObj f)
    with x have sp: "s p = Some (FrameObj f)" by simp
    from Suc.prems(3) have "Suc k < n" by simp
    with Suc.prems(1,2) obtain s1 where s1: "notifyVelocityUpdate n s p = Some s1"
      "raisedBy True True True s s1"
      using notifyVelocityUpdate_returns by blast
    from Suc.prems(1) s1(2) have n1: "notifiable k s1" by (rule notifiable_raisedBy)
    from sp have "getFrame s p = Some f" by (simp only: getFrame_Some)
    with s1(2) obtain tT tV tA where "getFrame s1 p = Some (raise tT tV tA f)"
      by (rule raisedBy_frame)
    then obtain f1 where f1: "getFrame s1 p = Some f1" ..
    then have sp1: "s1 p = Some (FrameObj f1)" by (simp only: getFrame_Some)
    show ?thesis
    proof (cases "mNeedTransformUpdate f1")
      case True
      with sp s1(1) f1 have "notifyTransformUpdate (Suc n) s p = Some s1" by simp
      with s1(2) show ?thesis by blast
    next
      case False
      let ?s0 = "s1(p \<mapsto> FrameObj (raise True False False f1))"
      from notifiable_set_flag [OF n1 sp1 clearFlags_raise(3) [OF False]]
      obtain j where j: "j < k" "notifiable j ?s0" by blast
      from j(1) Suc.prems(3) have jn: "Suc (Suc j) < n" by simp
      have r0: "raisedBy True True True s1 ?s0"
        using sp1 by (intro raisedBy_upd) simp_all
      from liveChildren_frame [OF n1 sp1]
      have l: "\<forall>c \<in> set (mChildEntities f1). liveObj (?s0 c)"
        by (simp only: raisedBy_liveObj [OF r0])
      have "\<exists>s'. forEach (mChildEntities f1) (notifyTransformUpdate n) ?s0 = Some s'"
      proof (rule children_returns [OF _ j(2) l])
        fix sa c assume "notifiable j sa" "liveObj (sa c)"
        then show "\<exists>s'. notifyTransformUpdate n sa c = Some s' \<and> raisedBy True True True sa s'"
          using jn by (rule Suc.IH)
      qed
      then obtain s' where s': "forEach (mChildEntities f1) (notifyTransformUpdate n) ?s0 = Some s'"
        ..
      with sp s1(1) f1 False have e: "notifyTransformUpdate (Suc n) s p = Some s'"
        by (simp add: set_flag_raise)
      then have "raisedBy True True True s s'" by (rule notifyTransformUpdate_raisedBy)
      with e show ?thesis by blast
    qed
  qed
qed

section \<open>Properties of the reparenting\<close>

lemma dependsOn_self:
  "getFrame s t = Some f \<Longrightarrow> dependsOn s t t = Some True"
  by (subst dependsOn.simps) (simp add: getFrame_Some)

lemma dependsOn_descendsFrom:
  assumes "descendsFrom s p t" "getFrame s t = Some g"
  shows "dependsOn s p t = Some True"
  using assms
proof (induction rule: descendsFrom.induct)
  case (self s t)
  then show ?case by (rule dependsOn_self)
next
  case (up s p f q t)
  from up.prems have IH: "dependsOn s q t = Some True" by (rule up.IH)
  from up.hyps(1) have sp: "s p = Some (FrameObj f)" by (simp only: getFrame_Some)
  show ?case
    by (subst dependsOn.simps) (simp add: sp up.hyps(2,3) IH)
qed

lemma isWorld_frame: "getFrame s p = Some f \<Longrightarrow> isWorld s p = Some (mAmWorld f)"
  by (simp add: isWorld_def)

lemma getName_frame: "getFrame s p = Some f \<Longrightarrow> getName s p = Some (mName f)"
  by (simp add: getName_def getFrame_Some)

lemma circularWarning_nonempty: "[circularWarning a b] \<noteq> []"
  by simp

lemma changeParentFrame_rejected:
  assumes f: "getFrame s this = Some f" and g: "getFrame s np = Some g"
    and d: "dependsOn s np this = Some True" and w: "\<not> (mAmWorld f \<and> mAmWorld g)"
  shows "changeParentFrame s this (Some np) = Some ([circularWarning (mName f) (mName g)], s)"
  using w
  by (simp add: changeParentFrame_def f d isWorld_frame [OF g] getName_frame [OF g])

lemma changeParentFrame_world_bootstrap:
  assumes f: "getFrame s this = Some f" and w: "mAmWorld f" and q: "mAmQuiet f"
    and p: "mParentFrame f = None \<or> mParentFrame f = Some this"
  shows "\<exists>s' f'. changeParentFrame s this (Some this) = Some ([], s') \<and>
           getFrame s' this = Some f' \<and> mParentFrame f' = Some this"
proof -
  from f have sp: "s this = Some (FrameObj f)" by (simp only: getFrame_Some)
  from p show ?thesis
  proof
    assume n: "mParentFrame f = None"
    have "changeParentFrame s this (Some this) =
            Some ([], s(this \<mapsto> FrameObj (f\<lparr>mParentFrame := Some this\<rparr>)))"
      by (simp add: changeParentFrame_def f dependsOn_self [OF f] isWorld_frame [OF f] w n
          Entity_changeParentFrame_def getAmQuiet_def getParentFrame_def setParentFrame_def
          sp q getFrame_upd_same)
    moreover have "getFrame (s(this \<mapsto> FrameObj (f\<lparr>mParentFrame := Some this\<rparr>))) this =
            Some (f\<lparr>mParentFrame := Some this\<rparr>)"
      by (rule getFrame_upd_same)
    ultimately show ?thesis by simp
  next
    assume n: "mParentFrame f = Some this"
    let ?f1 = "f\<lparr>mChildFrames := set_erase this (mChildFrames f)\<rparr>"
    have "changeParentFrame s this (Some this) =
            Some ([], s(this \<mapsto> FrameObj (?f1\<lparr>mParentFrame := Some this\<rparr>)))"
      by (simp add: changeParentFrame_def f dependsOn_self [OF f] isWorld_frame [OF f] w n
          Entity_changeParentFrame_def getAmQuiet_def getParentFrame_def setParentFrame_def
          sp q getFrame_upd_same)
    moreover have "getFrame (s(this \<mapsto> FrameObj (?f1\<lparr>mParentFrame := Some this\<rparr>))) this =
            Some (?f1\<lparr>mParentFrame := Some this\<rparr>)"
      by (rule getFrame_upd_same)
    ultimately show ?thesis by simp
  qed
qed

section \<open>What a returning notify call has done\<close>

lemma notifyTransformUpdate_sets:
  assumes "notifyTransformUpdate n s p = Some s'" "getFrame s p = Some f"
  obtains f' where "getFrame s' p = Some f'" "mNeedTransformUpdate f'"
    "mNeedVelocityUpdate f'" "mNeedAccelerationUpdate f'"
proof (cases n)
  case 0
  with assms(1) show ?thesis by simp
next
  case (Suc m)
  from assms(2) have sp: "s p = Some (FrameObj f)" by (simp only: getFrame_Some)
  from assms(1) [unfolded Suc] sp show ?thesis
  proof (rule notifyTransformUpdate_frameE)
    fix s1 f1
    assume a: "notifyVelocityUpdate m s p = Some s1" "getFrame s1 p = Some f1"
      "mNeedTransformUpdate f1 \<Longrightarrow> s' = s1"
      "\<not> mNeedTransformUpdate f1 \<Longrightarrow>
         forEach (mChildEntities f1) (notifyTransformUpdate m)
           (s1(p \<mapsto> FrameObj (raise True False False f1))) = Some s'"
    from a(1) assms(2) obtain g where g: "getFrame s1 p = Some g" "mNeedVelocityUpdate g"
      "mNeedAccelerationUpdate g"
      by (rule notifyVelocityUpdate_sets)
    from g(1) a(2) have "g = f1" by simp
    with g(2,3) have A1: "mNeedVelocityUpdate f1" "mNeedAccelerationUpdate f1" by simp_all
    show ?thesis
    proof (cases "mNeedTransformUpdate f1")
      case True
      with a(3) have "s' = s1" by simp
      with a(2) True A1 show ?thesis by (intro that [of f1]) simp_all
    next
      case False
      let ?s0 = "s1(p \<mapsto> FrameObj (raise True False False f1))"
      from False a(4) have "forEach (mChildEntities f1) (notifyTransformUpdate m) ?s0 = Some s'"
        by simp
      then have r: "raisedBy True True True ?s0 s'"
        using notifyTransformUpdate_raisedBy by (rule forEach_raisedBy [rotated])
      have "getFrame ?s0 p = Some (raise True False False f1)"
        by (rule getFrame_upd_same)
      with r obtain tT tV tA where
        h: "getFrame s' p = Some (raise tT tV tA (raise True False False f1))"
        by (rule raisedBy_frame)
      show ?thesis by (rule that [OF h]) (simp_all add: A1)
    qed
  qed
qed

text \<open>The loop over the children, spelt out: the heaps between the calls.\<close>

lemma forEach_chain:
  "forEach cs g s = Some s' \<Longrightarrow>
   \<exists>hs. length hs = Suc (length cs) \<and> hs ! 0 = s \<and> hs ! length cs = s' \<and>
        (\<forall>i < length cs. g (hs ! i) (cs ! i) = Some (hs ! Suc i))"
proof (induction cs arbitrary: s)
  case Nil
  then have "length [s] = Suc (length ([] :: ptr list)) \<and> [s] ! 0 = s \<and>
      [s] ! length ([] :: ptr list) = s' \<and>
      (\<forall>i < length ([] :: ptr list). g ([s] ! i) ([] ! i) = Some ([s] ! Suc i))"
    by simp
  then show ?case by (rule exI)
next
  case (Cons c cs)
  from Cons.prems obtain s1 where s1: "g s c = Some s1" "forEach cs g s1 = Some s'"
    by (cases "g s c") simp_all
  from Cons.IH [OF s1(2)] obtain hs where hs: "length hs = Suc (length cs)" "hs ! 0 = s1"
    "hs ! length cs = s'" "\<forall>i < length cs. g (hs ! i) (cs ! i) = Some (hs ! Suc i)"
    by blast
  have step: "g ((s # hs) ! i) ((c # cs) ! i) = Some ((s # hs) ! Suc i)"
    if "i < length (c # cs)" for i
  proof (cases i)
    case 0
    with s1(1) hs(2) show ?thesis by simp
  next
    case (Suc j)
    with that have "j < length cs" by simp
    with hs(4) Suc show ?thesis by simp
  qed
  have "length (s # hs) = Suc (length (c # cs)) \<and> (s # hs) ! 0 = s \<and>
      (s # hs) ! length (c # cs) = s' \<and>
      (\<forall>i < length (c # cs). g ((s # hs) ! i) ((c # cs) ! i) = Some ((s # hs) ! Suc i))"
    using hs(1,3) step by simp
  then show ?case by (rule exI)
qed

lemma raisedBy_flags_kept:
  assumes "raisedBy T V A s s'" "getFrame s p = Some g"
    "mNeedTransformUpdate g" "mNeedVelocityUpdate g" "mNeedAccelerationUpdate g"
  obtains g' where "getFrame s' p = Some g'"
    "mNeedTransformUpdate g'" "mNeedVelocityUpdate g'" "mNeedAccelerationUpdate g'"
proof -
  from assms(1,2) obtain tT tV tA where h: "getFrame s' p = Some (raise tT tV tA g)"
    by (rule raisedBy_frame)
  show ?thesis by (rule that [OF h]) (simp_all add: assms)
qed

text \<open>Every child that is a frame ends with its three flags set.\<close>

lemma forEach_notified:
  "forEach cs (notifyTransformUpdate n) s = Some s' \<Longrightarrow> c \<in> set cs \<Longrightarrow>
   getFrame s c = Some g \<Longrightarrow>
   \<exists>g'. getFrame s' c = Some g' \<and>
     mNeedTransformUpdate g' \<and> mNeedVelocityUpdate g' \<and> mNeedAccelerationUpdate g'"
proof (induction cs arbitrary: s g)
  case Nil
  then show ?case by simp
next
  case (Cons a cs)
  from Cons.prems(1) obtain s1 where s1: "notifyTransformUpdate n s a = Some s1"
    "forEach cs (notifyTransformUpdate n) s1 = Some s'"
    by (cases "notifyTransformUpdate n s a") simp_all
  have r1: "raisedBy True True True s s1"
    using s1(1) by (rule notifyTransformUpdate_raisedBy)
  have r2: "raisedBy True True True s1 s'"
    using s1(2) notifyTransformUpdate_raisedBy by (rule forEach_raisedBy [rotated])
  show ?case
  proof (cases "c = a")
    case True
    from s1(1) Cons.prems(3) [unfolded True]
    obtain g1 where g1: "getFrame s1 a = Some g1" "mNeedTransformUpdate g1"
      "mNeedVelocityUpdate g1" "mNeedAccelerationUpdate g1"
      by (rule notifyTransformUpdate_sets)
    from r2 g1 obtain g' where "getFrame s' a = Some g'" "mNeedTransformUpdate g'"
      "mNeedVelocityUpdate g'" "mNeedAccelerationUpdate g'"
      by (rule raisedBy_flags_kept)
    with True show ?thesis by blast
  next
    case False
    with Cons.prems(2) have c: "c \<in> set cs" by simp
    from r1 Cons.prems(3) obtain tT tV tA where "getFrame s1 c = Some (raise tT tV tA g)"
      by (rule raisedBy_frame)
    with s1(2) c show ?thesis by (rule Cons.IH)
  qed
qed

lemma notifyTransformUpdate_effect:
  assumes "getFrame s this = Some f" and "notifyTransformUpdate (Suc n) s this = Some s'"
  shows "\<exists>s1 f1 f'.
     notifyVelocityUpdate n s this = Some s1 \<and>
     (\<exists>m s0. n = Suc m \<and> notifyAccelerationUpdate m s this = Some s0) \<and>
     getFrame s1 this = Some f1 \<and>
     mNeedTransformUpdate f1 = mNeedTransformUpdate f \<and>
     mChildEntities f1 = mChildEntities f \<and>
     (mNeedTransformUpdate f \<longrightarrow> s' = s1 \<and>
        (\<forall>q g g'. getFrame s q = Some g \<longrightarrow> getFrame s' q = Some g' \<longrightarrow>
           mNeedTransformUpdate g' = mNeedTransformUpdate g)) \<and>
     (\<not> mNeedTransformUpdate f \<longrightarrow>
        forEach (mChildEntities f) (notifyTransformUpdate n)
          (s1(this \<mapsto> FrameObj (f1\<lparr>mNeedTransformUpdate := True\<rparr>))) = Some s') \<and>
     getFrame s' this = Some f' \<and>
     mNeedTransformUpdate f' \<and> mNeedVelocityUpdate f' \<and> mNeedAccelerationUpdate f' \<and>
     (\<forall>k. notifyTransformUpdate (Suc (Suc (Suc k))) s' this = Some s')"
proof -
  from assms(1) have sp: "s this = Some (FrameObj f)" by (simp only: getFrame_Some)
  from assms(2) sp show ?thesis
  proof (rule notifyTransformUpdate_frameE)
    fix s1 f1
    assume a: "notifyVelocityUpdate n s this = Some s1" "getFrame s1 this = Some f1"
      "mNeedTransformUpdate f1 \<Longrightarrow> s' = s1"
      "\<not> mNeedTransformUpdate f1 \<Longrightarrow>
         forEach (mChildEntities f1) (notifyTransformUpdate n)
           (s1(this \<mapsto> FrameObj (raise True False False f1))) = Some s'"
    have r1: "raisedBy False True True s s1"
      using a(1) by (rule notifyVelocityUpdate_raisedBy)
    have same: "mNeedTransformUpdate f1 = mNeedTransformUpdate f" "mChildEntities f1 = mChildEntities f"
      using r1 assms(1) a(2) by (rule raisedBy_transform_flag)+
    from a(1) assms(1) obtain g where g: "getFrame s1 this = Some g"
      "mNeedVelocityUpdate g" "mNeedAccelerationUpdate g"
      by (rule notifyVelocityUpdate_sets)
    from g(1) a(2) have "g = f1" by simp
    with g have VA: "mNeedVelocityUpdate f1" "mNeedAccelerationUpdate f1" by simp_all
    have acc: "\<exists>m s0. n = Suc m \<and> notifyAccelerationUpdate m s this = Some s0"
    proof (cases n)
      case 0
      with a(1) show ?thesis by simp
    next
      case (Suc m)
      from a(1) [unfolded Suc] sp show ?thesis
        by (rule notifyVelocityUpdate_frameE) (use Suc in blast)
    qed
    have dirty: "mNeedTransformUpdate f \<longrightarrow> s' = s1 \<and>
        (\<forall>q g g'. getFrame s q = Some g \<longrightarrow> getFrame s' q = Some g' \<longrightarrow>
           mNeedTransformUpdate g' = mNeedTransformUpdate g)"
    proof
      assume "mNeedTransformUpdate f"
      with same(1) a(3) have e: "s' = s1" by simp
      have "\<forall>q g g'. getFrame s q = Some g \<longrightarrow> getFrame s' q = Some g' \<longrightarrow>
           mNeedTransformUpdate g' = mNeedTransformUpdate g"
        unfolding e using raisedBy_transform_flag(1) [OF r1] by blast
      with e show "s' = s1 \<and>
        (\<forall>q g g'. getFrame s q = Some g \<longrightarrow> getFrame s' q = Some g' \<longrightarrow>
           mNeedTransformUpdate g' = mNeedTransformUpdate g)" by blast
    qed
    have clean: "\<not> mNeedTransformUpdate f \<longrightarrow>
        forEach (mChildEntities f) (notifyTransformUpdate n)
          (s1(this \<mapsto> FrameObj (f1\<lparr>mNeedTransformUpdate := True\<rparr>))) = Some s'"
      using a(4) same by (simp add: set_flag_raise)
    obtain f' where f': "getFrame s' this = Some f'"
      "mNeedTransformUpdate f'" "mNeedVelocityUpdate f'" "mNeedAccelerationUpdate f'"
    proof (cases "mNeedTransformUpdate f1")
      case True
      with a(3) have "s' = s1" by simp
      with a(2) True VA show ?thesis by (intro that [of f1]) simp_all
    next
      case False
      let ?s0 = "s1(this \<mapsto> FrameObj (raise True False False f1))"
      from False a(4) have "forEach (mChildEntities f1) (notifyTransformUpdate n) ?s0 = Some s'"
        by simp
      then have r: "raisedBy True True True ?s0 s'"
        using notifyTransformUpdate_raisedBy by (rule forEach_raisedBy [rotated])
      have "getFrame ?s0 this = Some (raise True False False f1)"
        by (rule getFrame_upd_same)
      with r obtain tT tV tA where
        h: "getFrame s' this = Some (raise tT tV tA (raise True False False f1))"
        by (rule raisedBy_frame)
      show ?thesis by (rule that [OF h]) (simp_all add: VA)
    qed
    from f'(1) have "s' this = Some (FrameObj f')" by (simp only: getFrame_Some)
    then have again: "\<forall>k. notifyTransformUpdate (Suc (Suc (Suc k))) s' this = Some s'"
      using f'(2-4) notifyTransformUpdate_dirty by blast
    show ?thesis
      using a(1) acc a(2) same dirty clean f' again by blast
  qed
qed

section \<open>Properties of the destruction\<close>

lemma relinkedObj_refl: "relinkedObj P CE CF q x x"
  by (simp add: relinkedObj_def)

lemma relinkedObj_trans:
  "relinkedObj P CE CF q x y \<Longrightarrow> relinkedObj P' CE' CF' q y z \<Longrightarrow>
   relinkedObj (P \<union> P') (CE \<union> CE') (CF \<union> CF') q x z"
  unfolding relinkedObj_def by (intro conjI) (simp, blast, blast, blast, blast, simp)

lemma relinked_refl: "relinked P CE CF s s"
  by (simp add: relinked_def relinkedObj_refl)

lemma relinked_trans:
  "relinked P CE CF s s1 \<Longrightarrow> relinked P' CE' CF' s1 s2 \<Longrightarrow>
   relinked (P \<union> P') (CE \<union> CE') (CF \<union> CF') s s2"
  unfolding relinked_def by (blast intro: relinkedObj_trans)

lemma relinked_mono:
  "relinked P CE CF s s' \<Longrightarrow> P \<subseteq> P' \<Longrightarrow> CE \<subseteq> CE' \<Longrightarrow> CF \<subseteq> CF' \<Longrightarrow>
   relinked P' CE' CF' s s'"
  unfolding relinked_def relinkedObj_def by blast

lemma relinked_upd:
  assumes "relinkedObj P CE CF p (s p) (Some y)"
  shows "relinked P CE CF s (s(p \<mapsto> y))"
  unfolding relinked_def
proof
  fix q
  show "relinkedObj P CE CF q (s q) ((s(p \<mapsto> y)) q)"
    using assms by (cases "q = p") (simp_all add: relinkedObj_refl)
qed

lemma set_erase_subset:
  "set (set_erase e xs) \<subseteq> {e} \<union> set xs" "set xs \<subseteq> {e} \<union> set (set_erase e xs)"
  by (auto simp: set_erase_def)

lemma set_erase_notin: "e \<notin> set (set_erase e xs)"
  by (simp add: set_erase_def)

lemma set_insert_eq: "set (set_insert e xs) = insert e (set xs)"
  by (auto simp: set_insert_def set_insort_key)

lemma relinked_childEntities:
  assumes "getFrame s p = Some pf" "set xs \<subseteq> C \<union> set (mChildEntities pf)"
    "set (mChildEntities pf) \<subseteq> C \<union> set xs"
  shows "relinked {} C {} s (s(p \<mapsto> FrameObj (pf\<lparr>mChildEntities := xs\<rparr>)))"
proof (rule relinked_upd)
  from assms(1) have sp: "s p = Some (FrameObj pf)" by (simp only: getFrame_Some)
  show "relinkedObj {} C {} p (s p) (Some (FrameObj (pf\<lparr>mChildEntities := xs\<rparr>)))"
    unfolding sp relinkedObj_def using assms(2,3)
    by (simp add: restObj_def childE_def childF_def parentCell_def)
qed

lemma relinked_childFrames:
  assumes "getFrame s p = Some pf" "set xs \<subseteq> C \<union> set (mChildFrames pf)"
    "set (mChildFrames pf) \<subseteq> C \<union> set xs"
  shows "relinked {} {} C s (s(p \<mapsto> FrameObj (pf\<lparr>mChildFrames := xs\<rparr>)))"
proof (rule relinked_upd)
  from assms(1) have sp: "s p = Some (FrameObj pf)" by (simp only: getFrame_Some)
  show "relinkedObj {} {} C p (s p) (Some (FrameObj (pf\<lparr>mChildFrames := xs\<rparr>)))"
    unfolding sp relinkedObj_def using assms(2,3)
    by (simp add: restObj_def childE_def childF_def parentCell_def)
qed

lemma relinked_setParentFrame:
  assumes "setParentFrame s e np = Some s'"
  shows "relinked {e} {} {} s s'" and "parentCell (s' e) = Some np"
proof -
  show "relinked {e} {} {} s s'"
  proof (cases "s e")
    case None
    with assms show ?thesis by (simp add: setParentFrame_def)
  next
    case (Some x)
    show ?thesis
    proof (cases x)
      case (EntityObj en)
      with Some assms have s': "s' = s(e \<mapsto> EntityObj (en\<lparr>mParentFrame := np\<rparr>))"
        by (simp add: setParentFrame_def)
      show ?thesis unfolding s'
        by (rule relinked_upd)
           (simp add: Some EntityObj relinkedObj_def restObj_def childE_def childF_def)
    next
      case (FrameObj f)
      with Some assms have s': "s' = s(e \<mapsto> FrameObj (f\<lparr>mParentFrame := np\<rparr>))"
        by (simp add: setParentFrame_def)
      show ?thesis unfolding s'
        by (rule relinked_upd)
           (simp add: Some FrameObj relinkedObj_def restObj_def childE_def childF_def)
    next
      case ShapeObj
      with Some assms show ?thesis by (simp add: setParentFrame_def)
    qed
  qed
  show "parentCell (s' e) = Some np"
    using assms by (auto simp: setParentFrame_def parentCell_def split: option.splits obj.splits)
qed

lemma getParentFrame_parentCell: "getParentFrame s q = parentCell (s q)"
  by (simp add: getParentFrame_def parentCell_def)

lemma relinked_parent:
  "relinked P CE CF s s' \<Longrightarrow> q \<notin> P \<Longrightarrow> parentCell (s' q) = parentCell (s q)"
  unfolding relinked_def relinkedObj_def by blast

lemma Entity_changeParentFrame_steps:
  assumes "Entity_changeParentFrame s e np = Some s'"
  obtains quiet oldp s1 s2 where
    "getAmQuiet s e = Some quiet" "getParentFrame s e = Some oldp"
    "(case oldp of
        Some op \<Rightarrow>
          if quiet then Some s
          else Option.bind (getFrame s op) (\<lambda>pf.
            Some (s(op \<mapsto> FrameObj (pf\<lparr>mChildEntities := set_erase e (mChildEntities pf)\<rparr>))))
      | None \<Rightarrow> Some s) = Some s1"
    "setParentFrame s1 e np = Some s2"
    "(case np of
        Some p \<Rightarrow>
          if quiet then Some s2
          else Option.bind (getFrame s2 p) (\<lambda>pf.
            Some (s2(p \<mapsto> FrameObj (pf\<lparr>mChildEntities := set_insert e (mChildEntities pf)\<rparr>))))
      | None \<Rightarrow> Some s2) = Some s'"
  using assms unfolding Entity_changeParentFrame_def bind_eq_Some_conv by blast

lemma eraseEntity_relinked:
  assumes "(case oldp of
        Some op \<Rightarrow>
          if quiet then Some s
          else Option.bind (getFrame s op) (\<lambda>pf.
            Some (s(op \<mapsto> FrameObj (pf\<lparr>mChildEntities := set_erase e (mChildEntities pf)\<rparr>))))
      | None \<Rightarrow> Some s) = Some s1"
  shows "relinked {} {e} {} s s1"
proof (cases oldp)
  case None
  with assms show ?thesis by (simp add: relinked_refl)
next
  case (Some op)
  show ?thesis
  proof (cases quiet)
    case True
    with Some assms show ?thesis by (simp add: relinked_refl)
  next
    case False
    with Some assms obtain pf where pf: "getFrame s op = Some pf"
      by (cases "getFrame s op") simp_all
    with False Some assms
    have s1: "s1 = s(op \<mapsto> FrameObj (pf\<lparr>mChildEntities := set_erase e (mChildEntities pf)\<rparr>))"
      by simp
    show ?thesis unfolding s1 using pf set_erase_subset by (rule relinked_childEntities)
  qed
qed

lemma insertEntity_relinked:
  assumes "(case np of
        Some p \<Rightarrow>
          if quiet then Some s2
          else Option.bind (getFrame s2 p) (\<lambda>pf.
            Some (s2(p \<mapsto> FrameObj (pf\<lparr>mChildEntities := set_insert e (mChildEntities pf)\<rparr>))))
      | None \<Rightarrow> Some s2) = Some s'"
  shows "relinked {} {e} {} s2 s'"
proof (cases np)
  case None
  with assms show ?thesis by (simp add: relinked_refl)
next
  case (Some p)
  show ?thesis
  proof (cases quiet)
    case True
    with Some assms show ?thesis by (simp add: relinked_refl)
  next
    case False
    with Some assms obtain pf where pf: "getFrame s2 p = Some pf"
      by (cases "getFrame s2 p") simp_all
    with False Some assms
    have s': "s' = s2(p \<mapsto> FrameObj (pf\<lparr>mChildEntities := set_insert e (mChildEntities pf)\<rparr>))"
      by simp
    have "set (set_insert e (mChildEntities pf)) \<subseteq> {e} \<union> set (mChildEntities pf)"
      "set (mChildEntities pf) \<subseteq> {e} \<union> set (set_insert e (mChildEntities pf))"
      by (auto simp add: set_insert_eq)
    with pf show ?thesis unfolding s' by (rule relinked_childEntities)
  qed
qed

lemma Entity_changeParentFrame_relinked:
  assumes "Entity_changeParentFrame s e np = Some s'"
  shows "relinked {e} {e} {} s s'" and "parentCell (s' e) = Some np"
proof -
  from assms obtain quiet oldp s1 s2 where st:
    "(case oldp of
        Some op \<Rightarrow>
          if quiet then Some s
          else Option.bind (getFrame s op) (\<lambda>pf.
            Some (s(op \<mapsto> FrameObj (pf\<lparr>mChildEntities := set_erase e (mChildEntities pf)\<rparr>))))
      | None \<Rightarrow> Some s) = Some s1"
    "setParentFrame s1 e np = Some s2"
    "(case np of
        Some p \<Rightarrow>
          if quiet then Some s2
          else Option.bind (getFrame s2 p) (\<lambda>pf.
            Some (s2(p \<mapsto> FrameObj (pf\<lparr>mChildEntities := set_insert e (mChildEntities pf)\<rparr>))))
      | None \<Rightarrow> Some s2) = Some s'"
    by (rule Entity_changeParentFrame_steps)
  have r1: "relinked {} {e} {} s s1" using st(1) by (rule eraseEntity_relinked)
  have r2: "relinked {e} {} {} s1 s2" using st(2) by (rule relinked_setParentFrame)
  have r3: "relinked {} {e} {} s2 s'" using st(3) by (rule insertEntity_relinked)
  from relinked_trans [OF relinked_trans [OF r1 r2] r3]
  show "relinked {e} {e} {} s s'" by simp
  have "parentCell (s' e) = parentCell (s2 e)"
    using r3 by (rule relinked_parent) simp
  also have "\<dots> = Some np" using st(2) by (rule relinked_setParentFrame)
  finally show "parentCell (s' e) = Some np" .
qed

lemma changeParentFrame_steps:
  assumes "changeParentFrame s e np = Some r"
  obtains f warning where "getFrame s e = Some f"
    "(case np of
        Some p \<Rightarrow>
          Option.bind (dependsOn s p e) (\<lambda>d.
            if d then
              Option.bind (isWorld s p) (\<lambda>w.
                if \<not> (mAmWorld f \<and> w) then
                  Option.bind (getName s p) (\<lambda>nm. Some [circularWarning (mName f) nm])
                else Some [])
            else Some [])
      | None \<Rightarrow> Some []) = Some warning"
    "warning \<noteq> [] \<Longrightarrow> r = (warning, s)"
    "warning = [] \<Longrightarrow> \<exists>s1.
       (case mParentFrame f of
          Some op \<Rightarrow>
            Option.bind (getFrame s op) (\<lambda>pf.
              Some (s(op \<mapsto> FrameObj (pf\<lparr>mChildFrames := set_erase e (mChildFrames pf)\<rparr>))))
        | None \<Rightarrow> Some s) = Some s1 \<and>
       (case np of
          None \<Rightarrow> Option.bind (Entity_changeParentFrame s1 e None) (\<lambda>s2. Some ([], s2))
        | Some p \<Rightarrow>
            Option.bind (Entity_changeParentFrame s1 e (Some p)) (\<lambda>s2.
            Option.bind (getFrame s2 e) (\<lambda>f2.
              if \<not> mAmQuiet f2 then
                (case mParentFrame f2 of
                   None \<Rightarrow> None
                 | Some q \<Rightarrow>
                     Option.bind (getFrame s2 q) (\<lambda>pf.
                       Some ([], s2(q \<mapsto> FrameObj
                               (pf\<lparr>mChildFrames := set_insert e (mChildFrames pf)\<rparr>)))))
              else Some ([], s2)))) = Some r"
proof -
  from assms obtain f where f: "getFrame s e = Some f"
    unfolding changeParentFrame_def bind_eq_Some_conv by blast
  from assms f obtain warning where w: "(case np of
        Some p \<Rightarrow>
          Option.bind (dependsOn s p e) (\<lambda>d.
            if d then
              Option.bind (isWorld s p) (\<lambda>w.
                if \<not> (mAmWorld f \<and> w) then
                  Option.bind (getName s p) (\<lambda>nm. Some [circularWarning (mName f) nm])
                else Some [])
            else Some [])
      | None \<Rightarrow> Some []) = Some warning"
    unfolding changeParentFrame_def by (simp add: bind_eq_Some_conv) blast
  from assms f w have rest: "(if warning \<noteq> [] then Some (warning, s)
       else
         Option.bind
           (case mParentFrame f of
              Some op \<Rightarrow>
                Option.bind (getFrame s op) (\<lambda>pf.
                  Some (s(op \<mapsto> FrameObj (pf\<lparr>mChildFrames := set_erase e (mChildFrames pf)\<rparr>))))
            | None \<Rightarrow> Some s) (\<lambda>s1.
           (case np of
              None \<Rightarrow> Option.bind (Entity_changeParentFrame s1 e None) (\<lambda>s2. Some ([], s2))
            | Some p \<Rightarrow>
                Option.bind (Entity_changeParentFrame s1 e (Some p)) (\<lambda>s2.
                Option.bind (getFrame s2 e) (\<lambda>f2.
                  if \<not> mAmQuiet f2 then
                    (case mParentFrame f2 of
                       None \<Rightarrow> None
                     | Some q \<Rightarrow>
                         Option.bind (getFrame s2 q) (\<lambda>pf.
                           Some ([], s2(q \<mapsto> FrameObj
                                   (pf\<lparr>mChildFrames := set_insert e (mChildFrames pf)\<rparr>)))))
                  else Some ([], s2)))))) = Some r"
    unfolding changeParentFrame_def by simp
  have a: "warning \<noteq> [] \<Longrightarrow> r = (warning, s)"
    using rest by simp
  have b: "warning = [] \<Longrightarrow> \<exists>s1.
       (case mParentFrame f of
          Some op \<Rightarrow>
            Option.bind (getFrame s op) (\<lambda>pf.
              Some (s(op \<mapsto> FrameObj (pf\<lparr>mChildFrames := set_erase e (mChildFrames pf)\<rparr>))))
        | None \<Rightarrow> Some s) = Some s1 \<and>
       (case np of
          None \<Rightarrow> Option.bind (Entity_changeParentFrame s1 e None) (\<lambda>s2. Some ([], s2))
        | Some p \<Rightarrow>
            Option.bind (Entity_changeParentFrame s1 e (Some p)) (\<lambda>s2.
            Option.bind (getFrame s2 e) (\<lambda>f2.
              if \<not> mAmQuiet f2 then
                (case mParentFrame f2 of
                   None \<Rightarrow> None
                 | Some q \<Rightarrow>
                     Option.bind (getFrame s2 q) (\<lambda>pf.
                       Some ([], s2(q \<mapsto> FrameObj
                               (pf\<lparr>mChildFrames := set_insert e (mChildFrames pf)\<rparr>)))))
              else Some ([], s2)))) = Some r"
    using rest by (simp add: bind_eq_Some_conv)
  from f w a b show ?thesis by (rule that)
qed

lemma eraseFrame_relinked:
  assumes "(case oldp of
          Some op \<Rightarrow>
            Option.bind (getFrame s op) (\<lambda>pf.
              Some (s(op \<mapsto> FrameObj (pf\<lparr>mChildFrames := set_erase e (mChildFrames pf)\<rparr>))))
        | None \<Rightarrow> Some s) = Some s1"
  shows "relinked {} {} {e} s s1"
proof (cases oldp)
  case None
  with assms show ?thesis by (simp add: relinked_refl)
next
  case (Some op)
  with assms obtain pf where pf: "getFrame s op = Some pf"
    by (cases "getFrame s op") simp_all
  with Some assms
  have s1: "s1 = s(op \<mapsto> FrameObj (pf\<lparr>mChildFrames := set_erase e (mChildFrames pf)\<rparr>))"
    by simp
  show ?thesis unfolding s1 using pf set_erase_subset by (rule relinked_childFrames)
qed

lemma attachFrame_relinked:
  assumes "(case np of
          None \<Rightarrow> Option.bind (Entity_changeParentFrame s1 e None) (\<lambda>s2. Some ([], s2))
        | Some p \<Rightarrow>
            Option.bind (Entity_changeParentFrame s1 e (Some p)) (\<lambda>s2.
            Option.bind (getFrame s2 e) (\<lambda>f2.
              if \<not> mAmQuiet f2 then
                (case mParentFrame f2 of
                   None \<Rightarrow> None
                 | Some q \<Rightarrow>
                     Option.bind (getFrame s2 q) (\<lambda>pf.
                       Some ([], s2(q \<mapsto> FrameObj
                               (pf\<lparr>mChildFrames := set_insert e (mChildFrames pf)\<rparr>)))))
              else Some ([], s2)))) = Some (out, s')"
  shows "relinked {e} {e} {e} s1 s'" and "parentCell (s' e) = Some np" and "out = []"
proof -
  obtain s2 where s2: "Entity_changeParentFrame s1 e np = Some s2"
    and r: "relinked {} {} {e} s2 s'" and o: "out = []"
  proof (cases np)
    case None
    with assms obtain s2 where "Entity_changeParentFrame s1 e None = Some s2" "s' = s2" "out = []"
      by (cases "Entity_changeParentFrame s1 e None") simp_all
    with None show ?thesis by (intro that [of s2]) (simp_all add: relinked_refl)
  next
    case (Some p)
    with assms obtain s2 where s2: "Entity_changeParentFrame s1 e (Some p) = Some s2"
      by (cases "Entity_changeParentFrame s1 e (Some p)") simp_all
    with Some assms obtain f2 where f2: "getFrame s2 e = Some f2"
      by (cases "getFrame s2 e") simp_all
    show ?thesis
    proof (cases "mAmQuiet f2")
      case True
      with Some assms s2 f2 have "s' = s2" "out = []" by simp_all
      with Some s2 show ?thesis by (intro that [of s2]) (simp_all add: relinked_refl)
    next
      case False
      with Some assms s2 f2 obtain q where q: "mParentFrame f2 = Some q"
        by (cases "mParentFrame f2") simp_all
      with False Some assms s2 f2 obtain pf where pf: "getFrame s2 q = Some pf"
        by (cases "getFrame s2 q") simp_all
      with q False Some assms s2 f2
      have s': "s' = s2(q \<mapsto> FrameObj (pf\<lparr>mChildFrames := set_insert e (mChildFrames pf)\<rparr>))"
        and o: "out = []"
        by simp_all
      have "set (set_insert e (mChildFrames pf)) \<subseteq> {e} \<union> set (mChildFrames pf)"
        "set (mChildFrames pf) \<subseteq> {e} \<union> set (set_insert e (mChildFrames pf))"
        by (auto simp add: set_insert_eq)
      with pf have "relinked {} {} {e} s2 s'" unfolding s' by (rule relinked_childFrames)
      with Some s2 o show ?thesis by (intro that [of s2]) simp_all
    qed
  qed
  from relinked_trans [OF Entity_changeParentFrame_relinked(1) [OF s2] r]
  show "relinked {e} {e} {e} s1 s'" by simp
  have "parentCell (s' e) = parentCell (s2 e)"
    using r by (rule relinked_parent) simp
  also have "\<dots> = Some np" using s2 by (rule Entity_changeParentFrame_relinked)
  finally show "parentCell (s' e) = Some np" .
  show "out = []" by (rule o)
qed

lemma changeParentFrame_relinked:
  assumes "changeParentFrame s e np = Some (out, s')"
  shows "relinked {e} {e} {e} s s'" and "out = [] \<Longrightarrow> parentCell (s' e) = Some np"
    and "out \<noteq> [] \<Longrightarrow> s' = s"
proof -
  from assms obtain f :: Frame and warning where st0: "getFrame s e = Some f"
    "(case np of
        Some p \<Rightarrow>
          Option.bind (dependsOn s p e) (\<lambda>d.
            if d then
              Option.bind (isWorld s p) (\<lambda>w.
                if \<not> (mAmWorld f \<and> w) then
                  Option.bind (getName s p) (\<lambda>nm. Some [circularWarning (mName f) nm])
                else Some [])
            else Some [])
      | None \<Rightarrow> Some []) = Some warning" and st:
    "warning \<noteq> [] \<Longrightarrow> (out, s') = (warning, s)"
    "warning = [] \<Longrightarrow> \<exists>s1.
       (case mParentFrame f of
          Some op \<Rightarrow>
            Option.bind (getFrame s op) (\<lambda>pf.
              Some (s(op \<mapsto> FrameObj (pf\<lparr>mChildFrames := set_erase e (mChildFrames pf)\<rparr>))))
        | None \<Rightarrow> Some s) = Some s1 \<and>
       (case np of
          None \<Rightarrow> Option.bind (Entity_changeParentFrame s1 e None) (\<lambda>s2. Some ([], s2))
        | Some p \<Rightarrow>
            Option.bind (Entity_changeParentFrame s1 e (Some p)) (\<lambda>s2.
            Option.bind (getFrame s2 e) (\<lambda>f2.
              if \<not> mAmQuiet f2 then
                (case mParentFrame f2 of
                   None \<Rightarrow> None
                 | Some q \<Rightarrow>
                     Option.bind (getFrame s2 q) (\<lambda>pf.
                       Some ([], s2(q \<mapsto> FrameObj
                               (pf\<lparr>mChildFrames := set_insert e (mChildFrames pf)\<rparr>)))))
              else Some ([], s2)))) = Some (out, s')"
    by (rule changeParentFrame_steps) (rule that)
  have all: "relinked {e} {e} {e} s s' \<and> (out = [] \<longrightarrow> parentCell (s' e) = Some np) \<and>
             (out \<noteq> [] \<longrightarrow> s' = s)"
  proof (cases "warning = []")
    case False
    with st(1) have "out = warning" "s' = s" by simp_all
    with False show ?thesis by (simp add: relinked_refl)
  next
    case True
    with st(2) obtain s1 where s1: "(case mParentFrame f of
          Some op \<Rightarrow>
            Option.bind (getFrame s op) (\<lambda>pf.
              Some (s(op \<mapsto> FrameObj (pf\<lparr>mChildFrames := set_erase e (mChildFrames pf)\<rparr>))))
        | None \<Rightarrow> Some s) = Some s1"
      and rest: "(case np of
          None \<Rightarrow> Option.bind (Entity_changeParentFrame s1 e None) (\<lambda>s2. Some ([], s2))
        | Some p \<Rightarrow>
            Option.bind (Entity_changeParentFrame s1 e (Some p)) (\<lambda>s2.
            Option.bind (getFrame s2 e) (\<lambda>f2.
              if \<not> mAmQuiet f2 then
                (case mParentFrame f2 of
                   None \<Rightarrow> None
                 | Some q \<Rightarrow>
                     Option.bind (getFrame s2 q) (\<lambda>pf.
                       Some ([], s2(q \<mapsto> FrameObj
                               (pf\<lparr>mChildFrames := set_insert e (mChildFrames pf)\<rparr>)))))
              else Some ([], s2)))) = Some (out, s')"
      by blast
    have r1: "relinked {} {} {e} s s1" using s1 by (rule eraseFrame_relinked)
    note r2 = attachFrame_relinked [OF rest]
    from relinked_trans [OF r1 r2(1)] have "relinked {e} {e} {e} s s'" by simp
    with r2(2,3) show ?thesis by simp
  qed
  from all show "relinked {e} {e} {e} s s'" by blast
  from all show "out = [] \<Longrightarrow> parentCell (s' e) = Some np" by blast
  from all show "out \<noteq> [] \<Longrightarrow> s' = s" by blast
qed

lemma relinked_childE_iff:
  "relinked P CE CF s s' \<Longrightarrow> x \<notin> CE \<Longrightarrow> x \<in> childE (s' q) \<longleftrightarrow> x \<in> childE (s q)"
  unfolding relinked_def relinkedObj_def by blast

lemma relinked_childF_iff:
  "relinked P CE CF s s' \<Longrightarrow> x \<notin> CF \<Longrightarrow> x \<in> childF (s' q) \<longleftrightarrow> x \<in> childF (s q)"
  unfolding relinked_def relinkedObj_def by blast

lemma relinked_rest:
  "relinked P CE CF s s' \<Longrightarrow> map_option restObj (s' q) = map_option restObj (s q)"
  unfolding relinked_def relinkedObj_def by blast

lemma restObj_kind:
  "restObj y = restObj (FrameObj g) \<Longrightarrow> \<exists>g'. y = FrameObj g'"
  "restObj y = restObj (EntityObj e) \<Longrightarrow> \<exists>e'. y = EntityObj e'"
  "restObj y = restObj ShapeObj \<Longrightarrow> y = ShapeObj"
  by (cases y; simp add: restObj_def)+

lemma restObj_frame_fields:
  assumes "restObj (FrameObj g') = restObj (FrameObj g)"
  shows "mAmWorld g' = mAmWorld g" "mVizShapes g' = mVizShapes g" "mAmQuiet g' = mAmQuiet g"
    "mWorldTransform g' = mWorldTransform g" "mVelocity g' = mVelocity g"
    "mAcceleration g' = mAcceleration g"
    "mNeedTransformUpdate g' = mNeedTransformUpdate g"
    "mNeedVelocityUpdate g' = mNeedVelocityUpdate g"
    "mNeedAccelerationUpdate g' = mNeedAccelerationUpdate g"
proof -
  from assms have e: "g'\<lparr>mParentFrame := None, mChildEntities := [], mChildFrames := []\<rparr> =
                      g\<lparr>mParentFrame := None, mChildEntities := [], mChildFrames := []\<rparr>"
    by (simp only: restObj_def obj.case obj.inject)
  from arg_cong [OF e, of mAmWorld] show "mAmWorld g' = mAmWorld g" by simp
  from arg_cong [OF e, of mVizShapes] show "mVizShapes g' = mVizShapes g" by simp
  from arg_cong [OF e, of mAmQuiet] show "mAmQuiet g' = mAmQuiet g" by simp
  from arg_cong [OF e, of mWorldTransform] show "mWorldTransform g' = mWorldTransform g" by simp
  from arg_cong [OF e, of mVelocity] show "mVelocity g' = mVelocity g" by simp
  from arg_cong [OF e, of mAcceleration] show "mAcceleration g' = mAcceleration g" by simp
  from arg_cong [OF e, of mNeedTransformUpdate]
  show "mNeedTransformUpdate g' = mNeedTransformUpdate g" by simp
  from arg_cong [OF e, of mNeedVelocityUpdate]
  show "mNeedVelocityUpdate g' = mNeedVelocityUpdate g" by simp
  from arg_cong [OF e, of mNeedAccelerationUpdate]
  show "mNeedAccelerationUpdate g' = mNeedAccelerationUpdate g" by simp
qed

lemma relinked_frame:
  assumes "relinked P CE CF s s'" "getFrame s q = Some g"
  obtains g' where "getFrame s' q = Some g'" "restObj (FrameObj g') = restObj (FrameObj g)"
proof -
  from assms(2) have sq: "s q = Some (FrameObj g)" by (simp only: getFrame_Some)
  from relinked_rest [OF assms(1), of q] sq
  have m: "map_option restObj (s' q) = Some (restObj (FrameObj g))" by simp
  then obtain y where y: "s' q = Some y" "restObj y = restObj (FrameObj g)"
    by (cases "s' q") simp_all
  from restObj_kind(1) [OF y(2)] obtain g' where g': "y = FrameObj g'" ..
  from y(1) have "getFrame s' q = Some g'" unfolding g' by (simp only: getFrame_Some)
  moreover from y(2) have "restObj (FrameObj g') = restObj (FrameObj g)" unfolding g' .
  ultimately show ?thesis by (rule that)
qed

lemma relinked_shape:
  assumes "relinked P CE CF s s'"
  shows "s' q = Some ShapeObj \<longleftrightarrow> s q = Some ShapeObj"
proof
  assume "s' q = Some ShapeObj"
  with relinked_rest [OF assms, of q]
  have "map_option restObj (s q) = Some (restObj ShapeObj)" by simp
  then obtain y where y: "s q = Some y" "restObj y = restObj ShapeObj"
    by (cases "s q") simp_all
  from restObj_kind(3) [OF y(2)] y(1) show "s q = Some ShapeObj" by simp
next
  assume "s q = Some ShapeObj"
  with relinked_rest [OF assms, of q]
  have "map_option restObj (s' q) = Some (restObj ShapeObj)" by simp
  then obtain y where y: "s' q = Some y" "restObj y = restObj ShapeObj"
    by (cases "s' q") simp_all
  from restObj_kind(3) [OF y(2)] y(1) show "s' q = Some ShapeObj" by simp
qed

lemma getAmQuiet_rest:
  assumes "map_option restObj y = map_option restObj x"
  shows "(case y of Some (FrameObj f) \<Rightarrow> Some (mAmQuiet f) | Some (EntityObj e) \<Rightarrow> Some (mAmQuiet e)
          | _ \<Rightarrow> None) =
         (case x of Some (FrameObj f) \<Rightarrow> Some (mAmQuiet f) | Some (EntityObj e) \<Rightarrow> Some (mAmQuiet e)
          | _ \<Rightarrow> None)"
proof (cases x)
  case None
  with assms show ?thesis by simp
next
  case (Some a)
  with assms obtain b where b: "y = Some b" "restObj b = restObj a"
    by (cases y) simp_all
  show ?thesis
  proof (cases a)
    case (FrameObj g)
    from b(2) restObj_kind(1) [of b g] obtain g' where g': "b = FrameObj g'"
      unfolding FrameObj by blast
    from b(2) have "mAmQuiet g' = mAmQuiet g"
      unfolding g' FrameObj by (rule restObj_frame_fields)
    then show ?thesis by (simp add: Some b(1) g' FrameObj)
  next
    case (EntityObj e)
    from b(2) restObj_kind(2) [of b e] obtain e' where e': "b = EntityObj e'"
      unfolding EntityObj by blast
    from b(2) have "e'\<lparr>mParentFrame := None\<rparr> = e\<lparr>mParentFrame := None\<rparr>"
      unfolding e' EntityObj by (simp only: restObj_def obj.case obj.inject)
    from arg_cong [OF this, of mAmQuiet] have "mAmQuiet e' = mAmQuiet e" by simp
    then show ?thesis by (simp add: Some b(1) e' EntityObj)
  next
    case ShapeObj
    from b(2) restObj_kind(3) [of b] have "b = ShapeObj" unfolding ShapeObj by blast
    then show ?thesis by (simp add: Some b(1) ShapeObj)
  qed
qed

lemma relinked_quiet:
  "relinked P CE CF s s' \<Longrightarrow> getAmQuiet s' q = getAmQuiet s q"
  unfolding getAmQuiet_def by (rule getAmQuiet_rest) (rule relinked_rest)

lemma Entity_changeParentFrame_detach:
  assumes "Entity_changeParentFrame s e None = Some s'"
    and "parentCell (s e) = Some (Some op)" "getAmQuiet s e = Some False"
  shows "e \<notin> childE (s' op)"
proof -
  from assms(1) obtain quiet oldp s1 s2 where st:
    "getAmQuiet s e = Some quiet" "getParentFrame s e = Some oldp"
    "(case oldp of
        Some op \<Rightarrow>
          if quiet then Some s
          else Option.bind (getFrame s op) (\<lambda>pf.
            Some (s(op \<mapsto> FrameObj (pf\<lparr>mChildEntities := set_erase e (mChildEntities pf)\<rparr>))))
      | None \<Rightarrow> Some s) = Some s1"
    "setParentFrame s1 e None = Some s2"
    "(case None of
        Some p \<Rightarrow>
          if quiet then Some s2
          else Option.bind (getFrame s2 p) (\<lambda>pf.
            Some (s2(p \<mapsto> FrameObj (pf\<lparr>mChildEntities := set_insert e (mChildEntities pf)\<rparr>))))
      | None \<Rightarrow> Some s2) = Some s'"
    by (rule Entity_changeParentFrame_steps)
  from st(1) assms(3) have q: "quiet = False" by simp
  from st(2) assms(2) have o: "oldp = Some op" by (simp add: getParentFrame_parentCell)
  from st(3) q o obtain pf where pf: "getFrame s op = Some pf"
    by (cases "getFrame s op") simp_all
  with st(3) q o
  have s1: "s1 = s(op \<mapsto> FrameObj (pf\<lparr>mChildEntities := set_erase e (mChildEntities pf)\<rparr>))"
    by simp
  have "e \<notin> childE (s1 op)"
    unfolding s1 by (simp add: childE_def set_erase_notin)
  moreover have "relinked {e} {} {} s1 s2" using st(4) by (rule relinked_setParentFrame)
  ultimately have "e \<notin> childE (s2 op)" by (simp add: relinked_childE_iff)
  moreover from st(5) have "s' = s2" by simp
  ultimately show ?thesis by simp
qed

lemma changeParentFrame_detach:
  assumes c: "changeParentFrame s e None = Some (out, s')" and f: "getFrame s e = Some f"
  shows "out = []" and "parentCell (s' e) = Some None"
    and "mParentFrame f = Some op \<Longrightarrow> e \<notin> childF (s' op)"
    and "mParentFrame f = Some op \<Longrightarrow> \<not> mAmQuiet f \<Longrightarrow> e \<notin> childE (s' op)"
proof -
  from c obtain g :: Frame and warning where st: "getFrame s e = Some g"
    "(case None of
        Some p \<Rightarrow>
          Option.bind (dependsOn s p e) (\<lambda>d.
            if d then
              Option.bind (isWorld s p) (\<lambda>w.
                if \<not> (mAmWorld g \<and> w) then
                  Option.bind (getName s p) (\<lambda>nm. Some [circularWarning (mName g) nm])
                else Some [])
            else Some [])
      | None \<Rightarrow> Some []) = Some warning"
    "warning \<noteq> [] \<Longrightarrow> (out, s') = (warning, s)"
    "warning = [] \<Longrightarrow> \<exists>s1.
       (case mParentFrame g of
          Some op \<Rightarrow>
            Option.bind (getFrame s op) (\<lambda>pf.
              Some (s(op \<mapsto> FrameObj (pf\<lparr>mChildFrames := set_erase e (mChildFrames pf)\<rparr>))))
        | None \<Rightarrow> Some s) = Some s1 \<and>
       (case None of
          None \<Rightarrow> Option.bind (Entity_changeParentFrame s1 e None) (\<lambda>s2. Some ([], s2))
        | Some p \<Rightarrow>
            Option.bind (Entity_changeParentFrame s1 e (Some p)) (\<lambda>s2.
            Option.bind (getFrame s2 e) (\<lambda>f2.
              if \<not> mAmQuiet f2 then
                (case mParentFrame f2 of
                   None \<Rightarrow> None
                 | Some q \<Rightarrow>
                     Option.bind (getFrame s2 q) (\<lambda>pf.
                       Some ([], s2(q \<mapsto> FrameObj
                               (pf\<lparr>mChildFrames := set_insert e (mChildFrames pf)\<rparr>)))))
              else Some ([], s2)))) = Some (out, s')"
    by (rule changeParentFrame_steps) (rule that)
  from st(1) f have g: "g = f" by simp
  from st(2) have w: "warning = []" by simp
  from st(4) [OF w] obtain s1 where s1: "(case mParentFrame f of
          Some op \<Rightarrow>
            Option.bind (getFrame s op) (\<lambda>pf.
              Some (s(op \<mapsto> FrameObj (pf\<lparr>mChildFrames := set_erase e (mChildFrames pf)\<rparr>))))
        | None \<Rightarrow> Some s) = Some s1"
    and rest: "Option.bind (Entity_changeParentFrame s1 e None) (\<lambda>s2. Some ([], s2)) = Some (out, s')"
    unfolding g by auto
  from rest have en: "Entity_changeParentFrame s1 e None = Some s'" and o: "out = []"
    by (cases "Entity_changeParentFrame s1 e None"; simp)+
  show "out = []" by (rule o)
  show "parentCell (s' e) = Some None"
    using en by (rule Entity_changeParentFrame_relinked)
  have r1: "relinked {} {} {e} s s1" using s1 by (rule eraseFrame_relinked)
  have r2: "relinked {e} {e} {} s1 s'" using en by (rule Entity_changeParentFrame_relinked)
  {
    assume p: "mParentFrame f = Some op"
    from s1 p obtain pf where pf: "getFrame s op = Some pf"
      by (cases "getFrame s op") simp_all
    with s1 p
    have e1: "s1 = s(op \<mapsto> FrameObj (pf\<lparr>mChildFrames := set_erase e (mChildFrames pf)\<rparr>))"
      by simp
    have "e \<notin> childF (s1 op)"
      unfolding e1 by (simp add: childF_def set_erase_notin)
    with r2 show "e \<notin> childF (s' op)" by (simp add: relinked_childF_iff)
    assume nq: "\<not> mAmQuiet f"
    have "parentCell (s1 e) = parentCell (s e)"
      using r1 by (rule relinked_parent) simp
    with f p have pc: "parentCell (s1 e) = Some (Some op)"
      by (simp add: parentCell_def getFrame_Some)
    have "getAmQuiet s1 e = getAmQuiet s e" using r1 by (rule relinked_quiet)
    with f nq have "getAmQuiet s1 e = Some False"
      by (simp add: getAmQuiet_def getFrame_Some)
    with en pc show "e \<notin> childE (s' op)" by (rule Entity_changeParentFrame_detach)
  }
qed

lemma World_exists: "s worldAddr = Some x \<Longrightarrow> World s = Some (worldAddr, [], s)"
  by (simp add: World_def)

lemma dependsOn_world:
  "getFrame s w = Some fw \<Longrightarrow> mAmWorld fw \<Longrightarrow> dependsOn s w c = Some (w = c)"
  by (subst dependsOn.simps) (simp add: getFrame_Some)

lemma changeParentFrame_to_world:
  assumes c: "changeParentFrame s e (Some w) = Some (out, s')"
    and w: "getFrame s w = Some fw" "mAmWorld fw"
  shows "out = []"
proof -
  from c obtain g :: Frame and warning where st: "getFrame s e = Some g"
    "(case Some w of
        Some p \<Rightarrow>
          Option.bind (dependsOn s p e) (\<lambda>d.
            if d then
              Option.bind (isWorld s p) (\<lambda>w.
                if \<not> (mAmWorld g \<and> w) then
                  Option.bind (getName s p) (\<lambda>nm. Some [circularWarning (mName g) nm])
                else Some [])
            else Some [])
      | None \<Rightarrow> Some []) = Some warning"
    "warning \<noteq> [] \<Longrightarrow> (out, s') = (warning, s)"
    "warning = [] \<Longrightarrow> \<exists>s1.
       (case mParentFrame g of
          Some op \<Rightarrow>
            Option.bind (getFrame s op) (\<lambda>pf.
              Some (s(op \<mapsto> FrameObj (pf\<lparr>mChildFrames := set_erase e (mChildFrames pf)\<rparr>))))
        | None \<Rightarrow> Some s) = Some s1 \<and>
       (case Some w of
          None \<Rightarrow> Option.bind (Entity_changeParentFrame s1 e None) (\<lambda>s2. Some ([], s2))
        | Some p \<Rightarrow>
            Option.bind (Entity_changeParentFrame s1 e (Some p)) (\<lambda>s2.
            Option.bind (getFrame s2 e) (\<lambda>f2.
              if \<not> mAmQuiet f2 then
                (case mParentFrame f2 of
                   None \<Rightarrow> None
                 | Some q \<Rightarrow>
                     Option.bind (getFrame s2 q) (\<lambda>pf.
                       Some ([], s2(q \<mapsto> FrameObj
                               (pf\<lparr>mChildFrames := set_insert e (mChildFrames pf)\<rparr>)))))
              else Some ([], s2)))) = Some (out, s')"
    by (rule changeParentFrame_steps) (rule that)
  have wn: "warning = []"
  proof (cases "w = e")
    case True
    with st(1) w(1) have g: "g = fw" by simp
    have d: "dependsOn s w e = Some True"
      using dependsOn_world [OF w, of e] True by simp
    have i: "isWorld s w = Some True"
      using isWorld_frame [OF w(1)] w(2) by simp
    from st(2) show ?thesis
      unfolding option.case d i g by (simp add: w(2))
  next
    case False
    with st(2) show ?thesis by (simp add: dependsOn_world [OF w])
  qed
  from st(4) [OF wn] obtain s1 where rest: "(case Some w of
          None \<Rightarrow> Option.bind (Entity_changeParentFrame s1 e None) (\<lambda>s2. Some ([], s2))
        | Some p \<Rightarrow>
            Option.bind (Entity_changeParentFrame s1 e (Some p)) (\<lambda>s2.
            Option.bind (getFrame s2 e) (\<lambda>f2.
              if \<not> mAmQuiet f2 then
                (case mParentFrame f2 of
                   None \<Rightarrow> None
                 | Some q \<Rightarrow>
                     Option.bind (getFrame s2 q) (\<lambda>pf.
                       Some ([], s2(q \<mapsto> FrameObj
                               (pf\<lparr>mChildFrames := set_insert e (mChildFrames pf)\<rparr>)))))
              else Some ([], s2)))) = Some (out, s')"
    by blast
  then show ?thesis by (rule attachFrame_relinked)
qed

lemma virtual_changeParentFrame_world:
  assumes c: "virtual_changeParentFrame s e (Some w) = Some (out, s')"
    and w: "getFrame s w = Some fw" "mAmWorld fw"
  shows "relinked {e} {e} {e} s s'" and "parentCell (s' e) = Some (Some w)" and "out = []"
proof -
  have "relinked {e} {e} {e} s s' \<and> parentCell (s' e) = Some (Some w) \<and> out = []"
  proof (cases "s e")
    case None
    with c show ?thesis by (simp add: virtual_changeParentFrame_def)
  next
    case (Some x)
    show ?thesis
    proof (cases x)
      case (EntityObj en)
      with Some c obtain s1 where s1: "Entity_changeParentFrame s e (Some w) = Some s1"
        by (cases "Entity_changeParentFrame s e (Some w)")
           (simp_all add: virtual_changeParentFrame_def)
      with EntityObj Some c have e: "s' = s1" "out = []"
        by (simp_all add: virtual_changeParentFrame_def)
      from Entity_changeParentFrame_relinked [OF s1]
      have "relinked {e} {e} {} s s1" "parentCell (s1 e) = Some (Some w)" by blast+
      then have "relinked {e} {e} {e} s s1" "parentCell (s1 e) = Some (Some w)"
        by (auto intro: relinked_mono)
      with e show ?thesis by simp
    next
      case (FrameObj f)
      with Some c have c': "changeParentFrame s e (Some w) = Some (out, s')"
        by (simp add: virtual_changeParentFrame_def)
      from c' w have o: "out = []" by (rule changeParentFrame_to_world)
      from changeParentFrame_relinked(1,2) [OF c'] o show ?thesis by blast
    next
      case ShapeObj
      with Some c show ?thesis by (simp add: virtual_changeParentFrame_def)
    qed
  qed
  then show "relinked {e} {e} {e} s s'" and "parentCell (s' e) = Some (Some w)" and "out = []"
    by blast+
qed

lemma relinked_world:
  assumes "relinked P CE CF s s'" "getFrame s w = Some fw" "mAmWorld fw"
  obtains fw' where "getFrame s' w = Some fw'" "mAmWorld fw'"
proof -
  from assms(1,2) obtain g' where g': "getFrame s' w = Some g'"
    "restObj (FrameObj g') = restObj (FrameObj fw)"
    by (rule relinked_frame)
  from restObj_frame_fields(1) [OF g'(2)] assms(3) have "mAmWorld g'" by simp
  with g'(1) show ?thesis by (rule that)
qed

lemma reparentToWorld_relinked:
  assumes "reparentToWorld cs s = Some (out, s')"
    and "getFrame s worldAddr = Some fw" "mAmWorld fw"
  shows "relinked (set cs) (set cs) (set cs) s s' \<and>
         (\<forall>c \<in> set cs. parentCell (s' c) = Some (Some worldAddr)) \<and> out = []"
  using assms
proof (induction cs arbitrary: s out fw s')
  case Nil
  then show ?case by (simp add: relinked_refl)
next
  case (Cons c cs)
  from Cons.prems(2) have "s worldAddr = Some (FrameObj fw)" by (simp only: getFrame_Some)
  then have W: "World s = Some (worldAddr, [], s)" by (rule World_exists)
  from Cons.prems(1) W obtain out1 s1 where
    v: "virtual_changeParentFrame s c (Some worldAddr) = Some (out1, s1)"
    by (cases "virtual_changeParentFrame s c (Some worldAddr)") auto
  from Cons.prems(1) W v obtain out2 s2 where
    l: "reparentToWorld cs s1 = Some (out2, s2)"
    by (cases "reparentToWorld cs s1") auto
  from Cons.prems(1) W v l have e: "out = out1 @ out2" "s' = s2" by simp_all
  note r1 = virtual_changeParentFrame_world [OF v Cons.prems(2,3)]
  from r1(1) Cons.prems(2,3) obtain fw1 where fw1: "getFrame s1 worldAddr = Some fw1" "mAmWorld fw1"
    by (rule relinked_world)
  from Cons.IH [OF l fw1] have IH: "relinked (set cs) (set cs) (set cs) s1 s2"
    "\<forall>c \<in> set cs. parentCell (s2 c) = Some (Some worldAddr)" "out2 = []"
    by blast+
  from relinked_trans [OF r1(1) IH(1)]
  have R: "relinked (set (c # cs)) (set (c # cs)) (set (c # cs)) s s2" by simp
  have "parentCell (s2 c) = Some (Some worldAddr)"
  proof (cases "c \<in> set cs")
    case True
    with IH(2) show ?thesis by blast
  next
    case False
    with IH(1) have "parentCell (s2 c) = parentCell (s1 c)" by (rule relinked_parent)
    with r1(2) show ?thesis by simp
  qed
  with IH(2) have "\<forall>c' \<in> set (c # cs). parentCell (s2 c') = Some (Some worldAddr)" by simp
  with R e r1(3) IH(3) show ?case by simp
qed

lemma deleteShapes_effect:
  "deleteShapes ps s = Some s' \<Longrightarrow>
   (\<forall>p \<in> set ps. s' p = None) \<and> (\<forall>q. q \<notin> set ps \<longrightarrow> s' q = s q) \<and>
   (\<forall>p \<in> set ps. s p = Some ShapeObj)"
proof (induction ps arbitrary: s)
  case Nil
  then show ?case by simp
next
  case (Cons p ps)
  from Cons.prems have sp: "s p = Some ShapeObj"
    by (simp split: option.splits obj.splits)
  with Cons.prems have d: "deleteShapes ps (s(p := None)) = Some s'" by simp
  from Cons.IH [OF d] have IH: "\<forall>p \<in> set ps. s' p = None"
    "\<forall>q. q \<notin> set ps \<longrightarrow> s' q = (s(p := None)) q"
    "\<forall>p' \<in> set ps. (s(p := None)) p' = Some ShapeObj" by blast+
  have 1: "\<forall>p' \<in> set (p # ps). s' p' = None"
  proof
    fix p' assume "p' \<in> set (p # ps)"
    show "s' p' = None"
    proof (cases "p' \<in> set ps")
      case True
      with IH(1) show ?thesis by blast
    next
      case False
      with \<open>p' \<in> set (p # ps)\<close> have "p' = p" by simp
      with False IH(2) show ?thesis by simp
    qed
  qed
  have 2: "\<forall>q. q \<notin> set (p # ps) \<longrightarrow> s' q = s q"
    using IH(2) by simp
  have 3: "\<forall>p' \<in> set (p # ps). s p' = Some ShapeObj"
  proof
    fix p' assume a: "p' \<in> set (p # ps)"
    show "s p' = Some ShapeObj"
    proof (cases "p' = p")
      case True
      with sp show ?thesis by simp
    next
      case False
      with a have "p' \<in> set ps" by simp
      with IH(3) have "(s(p := None)) p' = Some ShapeObj" by (rule bspec)
      with False show ?thesis by simp
    qed
  qed
  from 1 2 3 show ?case by blast
qed

lemma childE_frame: "getFrame s q = Some g \<Longrightarrow> childE (s q) = set (mChildEntities g)"
  by (simp add: childE_def getFrame_Some)

lemma childF_frame: "getFrame s q = Some g \<Longrightarrow> childF (s q) = set (mChildFrames g)"
  by (simp add: childF_def getFrame_Some)

lemma parentCell_frame: "getFrame s q = Some g \<Longrightarrow> parentCell (s q) = Some (mParentFrame g)"
  by (simp add: parentCell_def getFrame_Some)

lemma eraseEntity_shrinks:
  assumes "(case oldp of
        Some op \<Rightarrow>
          if quiet then Some s
          else Option.bind (getFrame s op) (\<lambda>pf.
            Some (s(op \<mapsto> FrameObj (pf\<lparr>mChildEntities := set_erase e (mChildEntities pf)\<rparr>))))
      | None \<Rightarrow> Some s) = Some s1"
  shows "childE (s1 q) \<subseteq> childE (s q)"
proof (cases oldp)
  case None
  with assms show ?thesis by simp
next
  case (Some op)
  show ?thesis
  proof (cases quiet)
    case True
    with Some assms show ?thesis by simp
  next
    case False
    with Some assms obtain pf where pf: "getFrame s op = Some pf"
      by (cases "getFrame s op") simp_all
    with False Some assms
    have s1: "s1 = s(op \<mapsto> FrameObj (pf\<lparr>mChildEntities := set_erase e (mChildEntities pf)\<rparr>))"
      by simp
    show ?thesis
    proof (cases "q = op")
      case True
      then show ?thesis
        unfolding s1 using childE_frame [OF pf] by (auto simp: childE_def set_erase_def)
    next
      case False
      then show ?thesis unfolding s1 by simp
    qed
  qed
qed

lemma Entity_changeParentFrame_detach_shrinks:
  assumes "Entity_changeParentFrame s e None = Some s'"
  shows "childE (s' q) \<subseteq> childE (s q)"
proof -
  from assms obtain quiet oldp s1 s2 where st:
    "getAmQuiet s e = Some quiet" "getParentFrame s e = Some oldp"
    "(case oldp of
        Some op \<Rightarrow>
          if quiet then Some s
          else Option.bind (getFrame s op) (\<lambda>pf.
            Some (s(op \<mapsto> FrameObj (pf\<lparr>mChildEntities := set_erase e (mChildEntities pf)\<rparr>))))
      | None \<Rightarrow> Some s) = Some s1"
    "setParentFrame s1 e None = Some s2"
    "(case None of
        Some p \<Rightarrow>
          if quiet then Some s2
          else Option.bind (getFrame s2 p) (\<lambda>pf.
            Some (s2(p \<mapsto> FrameObj (pf\<lparr>mChildEntities := set_insert e (mChildEntities pf)\<rparr>))))
      | None \<Rightarrow> Some s2) = Some s'"
    by (rule Entity_changeParentFrame_steps)
  have "childE (s1 q) \<subseteq> childE (s q)" using st(3) by (rule eraseEntity_shrinks)
  moreover have "relinked {e} {} {} s1 s2" using st(4) by (rule relinked_setParentFrame)
  then have "childE (s2 q) \<subseteq> childE (s1 q)"
    unfolding relinked_def relinkedObj_def by blast
  moreover from st(5) have "s' = s2" by simp
  ultimately show ?thesis by blast
qed

lemma changeParentFrame_detach_shrinks:
  assumes c: "changeParentFrame s e None = Some (out, s')"
  shows "childE (s' q) \<subseteq> childE (s q)"
proof -
  from c obtain g :: Frame and warning where st: "getFrame s e = Some g"
    "(case None of
        Some p \<Rightarrow>
          Option.bind (dependsOn s p e) (\<lambda>d.
            if d then
              Option.bind (isWorld s p) (\<lambda>w.
                if \<not> (mAmWorld g \<and> w) then
                  Option.bind (getName s p) (\<lambda>nm. Some [circularWarning (mName g) nm])
                else Some [])
            else Some [])
      | None \<Rightarrow> Some []) = Some warning"
    "warning \<noteq> [] \<Longrightarrow> (out, s') = (warning, s)"
    "warning = [] \<Longrightarrow> \<exists>s1.
       (case mParentFrame g of
          Some op \<Rightarrow>
            Option.bind (getFrame s op) (\<lambda>pf.
              Some (s(op \<mapsto> FrameObj (pf\<lparr>mChildFrames := set_erase e (mChildFrames pf)\<rparr>))))
        | None \<Rightarrow> Some s) = Some s1 \<and>
       (case None of
          None \<Rightarrow> Option.bind (Entity_changeParentFrame s1 e None) (\<lambda>s2. Some ([], s2))
        | Some p \<Rightarrow>
            Option.bind (Entity_changeParentFrame s1 e (Some p)) (\<lambda>s2.
            Option.bind (getFrame s2 e) (\<lambda>f2.
              if \<not> mAmQuiet f2 then
                (case mParentFrame f2 of
                   None \<Rightarrow> None
                 | Some q \<Rightarrow>
                     Option.bind (getFrame s2 q) (\<lambda>pf.
                       Some ([], s2(q \<mapsto> FrameObj
                               (pf\<lparr>mChildFrames := set_insert e (mChildFrames pf)\<rparr>)))))
              else Some ([], s2)))) = Some (out, s')"
    by (rule changeParentFrame_steps) (rule that)
  from st(2) have w: "warning = []" by simp
  from st(4) [OF w] obtain s1 where s1: "(case mParentFrame g of
          Some op \<Rightarrow>
            Option.bind (getFrame s op) (\<lambda>pf.
              Some (s(op \<mapsto> FrameObj (pf\<lparr>mChildFrames := set_erase e (mChildFrames pf)\<rparr>))))
        | None \<Rightarrow> Some s) = Some s1"
    and rest: "Option.bind (Entity_changeParentFrame s1 e None) (\<lambda>s2. Some ([], s2)) = Some (out, s')"
    by auto
  from rest have en: "Entity_changeParentFrame s1 e None = Some s'"
    by (cases "Entity_changeParentFrame s1 e None") simp_all
  have "relinked {} {} {e} s s1" using s1 by (rule eraseFrame_relinked)
  then have "childE (s1 q) \<subseteq> childE (s q)"
    unfolding relinked_def relinkedObj_def by blast
  moreover have "childE (s' q) \<subseteq> childE (s1 q)"
    using en by (rule Entity_changeParentFrame_detach_shrinks)
  ultimately show ?thesis by blast
qed

lemma Frame_dtor_steps:
  assumes "Frame_dtor s this = Some r" "getFrame s this = Some f" "\<not> mAmWorld f"
  obtains out1 s1 f1 out2 s2 f2 s3 f3 where
    "changeParentFrame s this None = Some (out1, s1)" "getFrame s1 this = Some f1"
    "reparentToWorld (mChildEntities f1) s1 = Some (out2, s2)" "getFrame s2 this = Some f2"
    "deleteShapes (mVizShapes f2) s2 = Some s3" "getFrame s3 this = Some f3"
    "r = (out1 @ out2, s3(this \<mapsto> FrameObj (f3\<lparr>mVizShapes := []\<rparr>)))"
proof -
  from assms obtain out1 s1 where 1: "changeParentFrame s this None = Some (out1, s1)"
    by (cases "changeParentFrame s this None") (auto simp: Frame_dtor_def)
  from assms 1 obtain f1 where 2: "getFrame s1 this = Some f1"
    by (cases "getFrame s1 this") (simp_all add: Frame_dtor_def)
  from assms 1 2 obtain out2 s2 where
    3: "reparentToWorld (mChildEntities f1) s1 = Some (out2, s2)"
    by (cases "reparentToWorld (mChildEntities f1) s1") (auto simp: Frame_dtor_def)
  from assms 1 2 3 obtain f2 where 4: "getFrame s2 this = Some f2"
    by (cases "getFrame s2 this") (simp_all add: Frame_dtor_def)
  from assms 1 2 3 4 obtain s3 where 5: "deleteShapes (mVizShapes f2) s2 = Some s3"
    by (cases "deleteShapes (mVizShapes f2) s2") (simp_all add: Frame_dtor_def)
  from assms 1 2 3 4 5 obtain f3 where 6: "getFrame s3 this = Some f3"
    by (cases "getFrame s3 this") (simp_all add: Frame_dtor_def)
  from assms 1 2 3 4 5 6
  have "r = (out1 @ out2, s3(this \<mapsto> FrameObj (f3\<lparr>mVizShapes := []\<rparr>)))"
    by (simp add: Frame_dtor_def)
  with 1 2 3 4 5 6 show ?thesis by (rule that)
qed

section \<open>The destructor returns\<close>

lemma liveObj_rest:
  assumes "map_option restObj y = map_option restObj x"
  shows "liveObj y = liveObj x"
proof (cases x)
  case None
  with assms show ?thesis by simp
next
  case (Some a)
  with assms obtain b where b: "y = Some b" "restObj b = restObj a" by (cases y) simp_all
  show ?thesis
  proof (cases a)
    case (FrameObj g)
    with b(2) restObj_kind(1) obtain g' where "b = FrameObj g'" by blast
    with Some FrameObj b(1) show ?thesis by (simp add: liveObj_def)
  next
    case (EntityObj e)
    with b(2) restObj_kind(2) obtain e' where "b = EntityObj e'" by blast
    with Some EntityObj b(1) show ?thesis by (simp add: liveObj_def)
  next
    case ShapeObj
    with b(2) restObj_kind(3) have "b = ShapeObj" by blast
    with Some ShapeObj b(1) show ?thesis by (simp add: liveObj_def)
  qed
qed

lemma relinked_liveObj: "relinked P CE CF s s' \<Longrightarrow> liveObj (s' q) = liveObj (s q)"
  by (rule liveObj_rest) (rule relinked_rest)

lemma relinked_isFrame:
  assumes "relinked P CE CF s s'" "\<exists>g. getFrame s q = Some g"
  shows "\<exists>g'. getFrame s' q = Some g'"
proof -
  from assms(2) obtain g where "getFrame s q = Some g" ..
  with assms(1) obtain g' where "getFrame s' q = Some g'" by (rule relinked_frame)
  then show ?thesis ..
qed

lemma relinked_liveParents:
  assumes r: "relinked P CE CF s s'" and l: "liveParents s"
    and p: "\<And>q op. q \<in> P \<Longrightarrow> parentCell (s' q) = Some (Some op) \<Longrightarrow> \<exists>pf. getFrame s op = Some pf"
  shows "liveParents s'"
  unfolding liveParents_def
proof (intro allI impI)
  fix q op assume a: "parentCell (s' q) = Some (Some op)"
  have "\<exists>pf. getFrame s op = Some pf"
  proof (cases "q \<in> P")
    case True
    then show ?thesis using a by (rule p)
  next
    case False
    with r have "parentCell (s' q) = parentCell (s q)" by (rule relinked_parent)
    with a l show ?thesis unfolding liveParents_def by simp
  qed
  with r show "\<exists>pf. getFrame s' op = Some pf" by (rule relinked_isFrame)
qed

lemma liveObj_cases:
  assumes "liveObj (s e)"
  obtains f where "s e = Some (FrameObj f)" | x where "s e = Some (EntityObj x)"
  using assms by (cases "s e") (auto simp add: liveObj_def split: obj.splits)

lemma liveObj_quiet_parent:
  assumes "liveObj (s e)"
  obtains quiet oldp where "getAmQuiet s e = Some quiet" "getParentFrame s e = Some oldp"
  using assms
  by (cases rule: liveObj_cases) (simp_all add: getAmQuiet_def getParentFrame_def)

lemma setParentFrame_returns: "liveObj (s e) \<Longrightarrow> \<exists>s'. setParentFrame s e np = Some s'"
  by (erule liveObj_cases) (simp_all add: setParentFrame_def)

lemma Entity_changeParentFrame_returns:
  assumes live: "liveObj (s e)"
    and par: "\<And>op. parentCell (s e) = Some (Some op) \<Longrightarrow> \<exists>pf. getFrame s op = Some pf"
    and new: "\<And>q. np = Some q \<Longrightarrow> \<exists>pf. getFrame s q = Some pf"
  shows "\<exists>s'. Entity_changeParentFrame s e np = Some s'"
proof -
  from live obtain quiet oldp where q: "getAmQuiet s e = Some quiet"
    and o: "getParentFrame s e = Some oldp"
    by (rule liveObj_quiet_parent)
  let ?A = "case oldp of
        Some op \<Rightarrow>
          if quiet then Some s
          else Option.bind (getFrame s op) (\<lambda>pf.
            Some (s(op \<mapsto> FrameObj (pf\<lparr>mChildEntities := set_erase e (mChildEntities pf)\<rparr>))))
      | None \<Rightarrow> Some s"
  have "\<exists>s1. ?A = Some s1"
  proof (cases oldp)
    case None
    then show ?thesis by simp
  next
    case (Some op)
    with o have "parentCell (s e) = Some (Some op)" by (simp add: getParentFrame_parentCell)
    then obtain pf where "getFrame s op = Some pf" using par by blast
    with Some show ?thesis by simp
  qed
  then obtain s1 where A: "?A = Some s1" ..
  then have r1: "relinked {} {e} {} s s1" by (rule eraseEntity_relinked)
  from live have "liveObj (s1 e)" by (simp add: relinked_liveObj [OF r1])
  then obtain s2 where B: "setParentFrame s1 e np = Some s2"
    using setParentFrame_returns by blast
  then have r2: "relinked {e} {} {} s1 s2" by (rule relinked_setParentFrame)
  let ?C = "case np of
        Some p \<Rightarrow>
          if quiet then Some s2
          else Option.bind (getFrame s2 p) (\<lambda>pf.
            Some (s2(p \<mapsto> FrameObj (pf\<lparr>mChildEntities := set_insert e (mChildEntities pf)\<rparr>))))
      | None \<Rightarrow> Some s2"
  have "\<exists>s'. ?C = Some s'"
  proof (cases np)
    case None
    then show ?thesis by simp
  next
    case (Some p)
    then have "\<exists>pf. getFrame s p = Some pf" by (rule new)
    with r1 have "\<exists>pf. getFrame s1 p = Some pf" by (rule relinked_isFrame)
    with r2 have "\<exists>pf. getFrame s2 p = Some pf" by (rule relinked_isFrame)
    then obtain pf where "getFrame s2 p = Some pf" ..
    with Some show ?thesis by simp
  qed
  then obtain s' where C: "?C = Some s'" ..
  have "Entity_changeParentFrame s e np = Some s'"
    unfolding Entity_changeParentFrame_def by (simp add: q o A B C)
  then show ?thesis by blast
qed

lemma eraseFrame_returns:
  assumes "\<And>op. oldp = Some op \<Longrightarrow> \<exists>pf. getFrame s op = Some pf"
  shows "\<exists>s1. (case oldp of
          Some op \<Rightarrow>
            Option.bind (getFrame s op) (\<lambda>pf.
              Some (s(op \<mapsto> FrameObj (pf\<lparr>mChildFrames := set_erase e (mChildFrames pf)\<rparr>))))
        | None \<Rightarrow> Some s) = Some s1"
proof (cases oldp)
  case None
  then show ?thesis by simp
next
  case (Some op)
  then obtain pf where "getFrame s op = Some pf" using assms by blast
  with Some show ?thesis by simp
qed

lemma changeParentFrame_null_returns:
  assumes f: "getFrame s this = Some f"
    and par: "\<And>op. mParentFrame f = Some op \<Longrightarrow> \<exists>pf. getFrame s op = Some pf"
  shows "\<exists>s'. changeParentFrame s this None = Some ([], s')"
proof -
  let ?A = "case mParentFrame f of
          Some op \<Rightarrow>
            Option.bind (getFrame s op) (\<lambda>pf.
              Some (s(op \<mapsto> FrameObj (pf\<lparr>mChildFrames := set_erase this (mChildFrames pf)\<rparr>))))
        | None \<Rightarrow> Some s"
  from par have "\<exists>s1. ?A = Some s1" by (rule eraseFrame_returns)
  then obtain s1 where A: "?A = Some s1" ..
  then have r1: "relinked {} {} {this} s s1" by (rule eraseFrame_relinked)
  from f have "liveObj (s this)" by (simp add: getFrame_Some liveObj_def)
  then have l1: "liveObj (s1 this)" by (simp add: relinked_liveObj [OF r1])
  have "\<exists>s'. Entity_changeParentFrame s1 this None = Some s'"
  proof (rule Entity_changeParentFrame_returns [of s1 this, OF l1])
    fix op assume "parentCell (s1 this) = Some (Some op)"
    with relinked_parent [OF r1, of this] have "parentCell (s this) = Some (Some op)" by simp
    with f have "mParentFrame f = Some op" by (simp add: parentCell_frame)
    then have "\<exists>pf. getFrame s op = Some pf" by (rule par)
    with r1 show "\<exists>pf. getFrame s1 op = Some pf" by (rule relinked_isFrame)
  qed simp
  then obtain s' where B: "Entity_changeParentFrame s1 this None = Some s'" ..
  have "changeParentFrame s this None = Some ([], s')"
    unfolding changeParentFrame_def by (simp add: f A B)
  then show ?thesis by blast
qed

lemma changeParentFrame_world_returns:
  assumes f: "getFrame s c = Some f"
    and w: "getFrame s w = Some fw" "mAmWorld fw"
    and par: "\<And>op. mParentFrame f = Some op \<Longrightarrow> \<exists>pf. getFrame s op = Some pf"
  shows "\<exists>s'. changeParentFrame s c (Some w) = Some ([], s')"
proof -
  have d: "dependsOn s w c = Some (w = c)" using w by (rule dependsOn_world)
  have iw: "isWorld s w = Some True" using w by (simp add: isWorld_def)
  have "\<exists>b. dependsOn s w c = Some b \<and> (b \<longrightarrow> mAmWorld f)"
  proof (cases "w = c")
    case True
    with f w have "mAmWorld f" by simp
    with d True have "dependsOn s w c = Some True \<and> (True \<longrightarrow> mAmWorld f)" by simp
    then show ?thesis by (rule exI)
  next
    case False
    with d have "dependsOn s w c = Some False \<and> (False \<longrightarrow> mAmWorld f)" by simp
    then show ?thesis by (rule exI)
  qed
  then obtain b where b: "dependsOn s w c = Some b" "b \<longrightarrow> mAmWorld f" by blast
  let ?A = "case mParentFrame f of
          Some op \<Rightarrow>
            Option.bind (getFrame s op) (\<lambda>pf.
              Some (s(op \<mapsto> FrameObj (pf\<lparr>mChildFrames := set_erase c (mChildFrames pf)\<rparr>))))
        | None \<Rightarrow> Some s"
  from par have "\<exists>s1. ?A = Some s1" by (rule eraseFrame_returns)
  then obtain s1 where A: "?A = Some s1" ..
  then have r1: "relinked {} {} {c} s s1" by (rule eraseFrame_relinked)
  from f have "liveObj (s c)" by (simp add: getFrame_Some liveObj_def)
  then have l1: "liveObj (s1 c)" by (simp add: relinked_liveObj [OF r1])
  have "\<exists>s2. Entity_changeParentFrame s1 c (Some w) = Some s2"
  proof (rule Entity_changeParentFrame_returns [of s1 c, OF l1])
    fix op assume "parentCell (s1 c) = Some (Some op)"
    with relinked_parent [OF r1, of c] have "parentCell (s c) = Some (Some op)" by simp
    with f have "mParentFrame f = Some op" by (simp add: parentCell_frame)
    then have "\<exists>pf. getFrame s op = Some pf" by (rule par)
    with r1 show "\<exists>pf. getFrame s1 op = Some pf" by (rule relinked_isFrame)
  next
    fix q assume "Some w = Some q"
    then have "q = w" by simp
    moreover from r1 have "\<exists>pf. getFrame s1 w = Some pf"
      by (rule relinked_isFrame) (use w in blast)
    ultimately show "\<exists>pf. getFrame s1 q = Some pf" by simp
  qed
  then obtain s2 where B: "Entity_changeParentFrame s1 c (Some w) = Some s2" ..
  then have r2: "relinked {c} {c} {} s1 s2" and p2: "parentCell (s2 c) = Some (Some w)"
    by (rule Entity_changeParentFrame_relinked)+
  from r1 have "\<exists>g. getFrame s1 c = Some g" by (rule relinked_isFrame) (use f in blast)
  with r2 have "\<exists>g. getFrame s2 c = Some g" by (rule relinked_isFrame)
  then obtain f2 where f2: "getFrame s2 c = Some f2" ..
  with p2 have m2: "mParentFrame f2 = Some w" by (simp add: parentCell_frame)
  from r1 have "\<exists>g. getFrame s1 w = Some g" by (rule relinked_isFrame) (use w in blast)
  with r2 have "\<exists>g. getFrame s2 w = Some g" by (rule relinked_isFrame)
  then obtain pf where pf: "getFrame s2 w = Some pf" ..
  show ?thesis
    unfolding changeParentFrame_def using b(2)
    by (cases b) (simp_all add: f b(1) iw A B f2 m2 pf)
qed

lemma virtual_changeParentFrame_world_returns:
  assumes live: "liveObj (s c)"
    and w: "getFrame s w = Some fw" "mAmWorld fw"
    and par: "\<And>op. parentCell (s c) = Some (Some op) \<Longrightarrow> \<exists>pf. getFrame s op = Some pf"
  shows "\<exists>out s'. virtual_changeParentFrame s c (Some w) = Some (out, s')"
  using live
proof (cases rule: liveObj_cases)
  case (1 f)
  then have f: "getFrame s c = Some f" by (simp only: getFrame_Some)
  have "\<exists>s'. changeParentFrame s c (Some w) = Some ([], s')"
  proof (rule changeParentFrame_world_returns [OF f w])
    fix op assume "mParentFrame f = Some op"
    with f have "parentCell (s c) = Some (Some op)" by (simp add: parentCell_frame)
    then show "\<exists>pf. getFrame s op = Some pf" by (rule par)
  qed
  then obtain s' where "changeParentFrame s c (Some w) = Some ([], s')" ..
  with 1 show ?thesis by (simp add: virtual_changeParentFrame_def)
next
  case (2 x)
  have "\<exists>s'. Entity_changeParentFrame s c (Some w) = Some s'"
  proof (rule Entity_changeParentFrame_returns [of s c, OF live par])
    fix q assume "Some w = Some q"
    with w show "\<exists>pf. getFrame s q = Some pf" by auto
  qed
  then obtain s' where "Entity_changeParentFrame s c (Some w) = Some s'" ..
  with 2 show ?thesis by (simp add: virtual_changeParentFrame_def)
qed

lemma reparentToWorld_returns:
  "getFrame s worldAddr = Some fw \<Longrightarrow> mAmWorld fw \<Longrightarrow> liveParents s \<Longrightarrow>
   \<forall>c \<in> set cs. liveObj (s c) \<Longrightarrow> \<exists>out s'. reparentToWorld cs s = Some (out, s')"
proof (induction cs arbitrary: s fw)
  case Nil
  then show ?case by simp
next
  case (Cons c cs)
  from Cons.prems(1) have "s worldAddr = Some (FrameObj fw)" by (simp only: getFrame_Some)
  then have W: "World s = Some (worldAddr, [], s)" by (rule World_exists)
  from Cons.prems(4) have lc: "liveObj (s c)" by simp
  have "\<exists>out s'. virtual_changeParentFrame s c (Some worldAddr) = Some (out, s')"
  proof (rule virtual_changeParentFrame_world_returns [OF lc Cons.prems(1,2)])
    fix op assume "parentCell (s c) = Some (Some op)"
    with Cons.prems(3) show "\<exists>pf. getFrame s op = Some pf" unfolding liveParents_def by blast
  qed
  then obtain out1 s1 where V: "virtual_changeParentFrame s c (Some worldAddr) = Some (out1, s1)"
    by blast
  note v = virtual_changeParentFrame_world [OF V Cons.prems(1,2)]
  from v(1) Cons.prems(1,2) obtain fw1 where fw1: "getFrame s1 worldAddr = Some fw1" "mAmWorld fw1"
    by (rule relinked_world)
  have lp1: "liveParents s1"
  proof (rule relinked_liveParents [OF v(1) Cons.prems(3)])
    fix q op assume "q \<in> {c}" "parentCell (s1 q) = Some (Some op)"
    with v(2) have "op = worldAddr" by simp
    with Cons.prems(1) show "\<exists>pf. getFrame s op = Some pf" by simp
  qed
  from Cons.prems(4) have "\<forall>c \<in> set cs. liveObj (s1 c)"
    by (simp add: relinked_liveObj [OF v(1)])
  with fw1 lp1 have "\<exists>out s'. reparentToWorld cs s1 = Some (out, s')"
    by (rule Cons.IH)
  then obtain out2 s' where "reparentToWorld cs s1 = Some (out2, s')" by blast
  with W V show ?case by simp
qed

lemma deleteShapes_returns:
  "distinct ps \<Longrightarrow> \<forall>p \<in> set ps. s p = Some ShapeObj \<Longrightarrow> \<exists>s'. deleteShapes ps s = Some s'"
proof (induction ps arbitrary: s)
  case Nil
  then show ?case by simp
next
  case (Cons p ps)
  from Cons.prems have "distinct ps" "\<forall>q \<in> set ps. (s(p := None)) q = Some ShapeObj"
    by auto
  then have "\<exists>s'. deleteShapes ps (s(p := None)) = Some s'" by (rule Cons.IH)
  with Cons.prems(2) show ?case by simp
qed

lemma Frame_dtor_returns:
  assumes f: "getFrame s this = Some f"
    and w: "getFrame s worldAddr = Some fw" "mAmWorld fw"
    and lp: "liveParents s"
    and lc: "\<forall>c \<in> set (mChildEntities f). liveObj (s c)"
    and sh: "distinct (mVizShapes f)" "\<forall>p \<in> set (mVizShapes f). s p = Some ShapeObj"
  shows "\<exists>out s'. Frame_dtor s this = Some (out, s')"
proof (cases "mAmWorld f")
  case True
  with f show ?thesis by (simp add: Frame_dtor_def)
next
  case False
  have "\<exists>s1. changeParentFrame s this None = Some ([], s1)"
  proof (rule changeParentFrame_null_returns [OF f])
    fix op assume "mParentFrame f = Some op"
    with f have "parentCell (s this) = Some (Some op)" by (simp add: parentCell_frame)
    with lp show "\<exists>pf. getFrame s op = Some pf" unfolding liveParents_def by blast
  qed
  then obtain s1 where a: "changeParentFrame s this None = Some ([], s1)" ..
  then have r1: "relinked {this} {this} {this} s s1" by (rule changeParentFrame_relinked)
  from changeParentFrame_detach(2) [OF a f] have p1: "parentCell (s1 this) = Some None" .
  from r1 f obtain f1 where f1: "getFrame s1 this = Some f1"
    "restObj (FrameObj f1) = restObj (FrameObj f)"
    by (rule relinked_frame)
  from r1 w obtain fw1 where fw1: "getFrame s1 worldAddr = Some fw1" "mAmWorld fw1"
    by (rule relinked_world)
  have lp1: "liveParents s1"
  proof (rule relinked_liveParents [OF r1 lp])
    fix q op assume "q \<in> {this}" "parentCell (s1 q) = Some (Some op)"
    with p1 show "\<exists>pf. getFrame s op = Some pf" by simp
  qed
  have lc1: "\<forall>c \<in> set (mChildEntities f1). liveObj (s1 c)"
  proof
    fix c assume "c \<in> set (mChildEntities f1)"
    then have "c \<in> childE (s1 this)" by (simp add: childE_frame [OF f1(1)])
    moreover from r1 have "childE (s1 this) \<subseteq> {this} \<union> childE (s this)"
      unfolding relinked_def relinkedObj_def by blast
    ultimately have "c = this \<or> c \<in> set (mChildEntities f)"
      by (auto simp add: childE_frame [OF f])
    then have "liveObj (s c)"
    proof
      assume "c = this"
      with f show ?thesis by (simp add: getFrame_Some liveObj_def)
    next
      assume "c \<in> set (mChildEntities f)"
      with lc show ?thesis by blast
    qed
    then show "liveObj (s1 c)" by (simp add: relinked_liveObj [OF r1])
  qed
  from fw1 lp1 lc1 have "\<exists>out s'. reparentToWorld (mChildEntities f1) s1 = Some (out, s')"
    by (rule reparentToWorld_returns)
  then obtain out2 s2 where b: "reparentToWorld (mChildEntities f1) s1 = Some (out2, s2)"
    by blast
  from reparentToWorld_relinked [OF b fw1]
  have r2: "relinked (set (mChildEntities f1)) (set (mChildEntities f1))
      (set (mChildEntities f1)) s1 s2" by blast
  from r2 f1(1) obtain f2 where f2: "getFrame s2 this = Some f2"
    "restObj (FrameObj f2) = restObj (FrameObj f1)"
    by (rule relinked_frame)
  have v: "mVizShapes f2 = mVizShapes f"
    using restObj_frame_fields(2) [OF f2(2)] restObj_frame_fields(2) [OF f1(2)] by simp
  have "\<forall>p \<in> set (mVizShapes f2). s2 p = Some ShapeObj"
    using sh(2) by (simp add: v relinked_shape [OF r2] relinked_shape [OF r1])
  moreover from sh(1) have "distinct (mVizShapes f2)" by (simp add: v)
  ultimately have "\<exists>s3. deleteShapes (mVizShapes f2) s2 = Some s3"
    by (rule deleteShapes_returns [rotated])
  then obtain s3 where c: "deleteShapes (mVizShapes f2) s2 = Some s3" ..
  have "this \<notin> set (mVizShapes f2)"
  proof
    assume "this \<in> set (mVizShapes f2)"
    with deleteShapes_effect [OF c] have "s2 this = Some ShapeObj" by blast
    with f2(1) show False by (simp add: getFrame_def)
  qed
  with deleteShapes_effect [OF c] have "s3 this = s2 this" by blast
  with f2(1) have f3: "getFrame s3 this = Some f2" by (simp add: getFrame_def)
  show ?thesis
    by (simp add: Frame_dtor_def f False a f1(1) b f2(1) c f3)
qed

text \<open>What a returning destructor has done.\<close>

lemma Frame_dtor_changes:
  assumes f: "getFrame s this = Some f"
    and w: "getFrame s worldAddr = Some fw" "mAmWorld fw"
    and d: "Frame_dtor s this = Some (out, s')"
  shows "(mAmWorld f \<longrightarrow> out = [] \<and> s' = s) \<and>
         (\<not> mAmWorld f \<and> this \<notin> set (mChildEntities f) \<longrightarrow>
            (\<exists>out1 s1 f'. changeParentFrame s this None = Some (out1, s1) \<and>
               getFrame s' this = Some f' \<and> mParentFrame f' = None \<and> mVizShapes f' = [] \<and>
               (\<forall>op pf. mParentFrame f = Some op \<longrightarrow> getFrame s' op = Some pf \<longrightarrow>
                  this \<notin> set (mChildFrames pf) \<and>
                  (\<not> mAmQuiet f \<longrightarrow> this \<notin> set (mChildEntities pf))) \<and>
               (\<forall>c \<in> set (mChildEntities f). getParentFrame s' c = Some (Some worldAddr)) \<and>
               ((\<forall>q. getParentFrame s q = Some (Some this) \<longrightarrow> q \<in> set (mChildEntities f)) \<longrightarrow>
                  (\<forall>q. getParentFrame s' q \<noteq> Some (Some this))) \<and>
               (\<forall>p \<in> set (mVizShapes f). s' p = None)))"
proof (rule conjI; rule impI)
  assume "mAmWorld f"
  with d f show "out = [] \<and> s' = s" by (simp add: Frame_dtor_def)
next
  assume a: "\<not> mAmWorld f \<and> this \<notin> set (mChildEntities f)"
  then have nw: "\<not> mAmWorld f" and nc: "this \<notin> set (mChildEntities f)" by blast+
  from d f nw obtain out1 s1 f1 out2 s2 f2 s3 f3 where st:
    "changeParentFrame s this None = Some (out1, s1)" "getFrame s1 this = Some f1"
    "reparentToWorld (mChildEntities f1) s1 = Some (out2, s2)" "getFrame s2 this = Some f2"
    "deleteShapes (mVizShapes f2) s2 = Some s3" "getFrame s3 this = Some f3"
    "(out, s') = (out1 @ out2, s3(this \<mapsto> FrameObj (f3\<lparr>mVizShapes := []\<rparr>)))"
    by (rule Frame_dtor_steps)
  let ?cs = "mChildEntities f1"
  from st(7) have s': "s' = s3(this \<mapsto> FrameObj (f3\<lparr>mVizShapes := []\<rparr>))" by simp
  note D = changeParentFrame_detach [OF st(1) f]
  have R1: "relinked {this} {this} {this} s s1"
    using st(1) by (rule changeParentFrame_relinked)
  from R1 w obtain fw1 where fw1: "getFrame s1 worldAddr = Some fw1" "mAmWorld fw1"
    by (rule relinked_world)
  from reparentToWorld_relinked [OF st(3) fw1]
  have R2: "relinked (set ?cs) (set ?cs) (set ?cs) s1 s2"
    and P2: "\<forall>c \<in> set ?cs. parentCell (s2 c) = Some (Some worldAddr)" by blast+
  from deleteShapes_effect [OF st(5)]
  have S1: "\<forall>p \<in> set (mVizShapes f2). s3 p = None"
    and S2: "\<forall>q. q \<notin> set (mVizShapes f2) \<longrightarrow> s3 q = s2 q"
    and S3: "\<forall>p \<in> set (mVizShapes f2). s2 p = Some ShapeObj" by blast+
  have notshape: "s3 q = s2 q" if "parentCell (s2 q) \<noteq> None" for q
  proof -
    from that have "s2 q \<noteq> Some ShapeObj" by (auto simp: parentCell_def)
    with S3 have "q \<notin> set (mVizShapes f2)" by blast
    with S2 show "s3 q = s2 q" by simp
  qed
  have s3cases: "s3 q = s2 q \<or> s3 q = None" for q
    using S1 S2 by (cases "q \<in> set (mVizShapes f2)") simp_all
  \<comment> \<open>the children visited by the loop\<close>
  have sub1: "set ?cs \<subseteq> set (mChildEntities f)"
    using changeParentFrame_detach_shrinks [OF st(1), of this]
    unfolding childE_frame [OF f] childE_frame [OF st(2)] .
  have sub2: "set (mChildEntities f) \<subseteq> set ?cs"
  proof -
    from R1 have "childE (s this) \<subseteq> {this} \<union> childE (s1 this)"
      unfolding relinked_def relinkedObj_def by blast
    then have "set (mChildEntities f) \<subseteq> {this} \<union> set ?cs"
      unfolding childE_frame [OF f] childE_frame [OF st(2)] .
    with nc show ?thesis by blast
  qed
  from sub1 nc have ncs: "this \<notin> set ?cs" by blast
  \<comment> \<open>the frame itself\<close>
  have p2: "parentCell (s2 this) = Some None"
    using relinked_parent [OF R2 ncs] D(2) by simp
  then have "s3 this = s2 this" by (intro notshape) simp
  then have "parentCell (s3 this) = Some None" using p2 by simp
  with st(6) have par3: "mParentFrame f3 = None" by (simp add: parentCell_frame)
  have f': "getFrame s' this = Some (f3\<lparr>mVizShapes := []\<rparr>)"
    unfolding s' by (rule getFrame_upd_same)
  \<comment> \<open>the shapes\<close>
  from R1 f obtain g1 where g1: "getFrame s1 this = Some g1"
    "restObj (FrameObj g1) = restObj (FrameObj f)" by (rule relinked_frame)
  from R2 g1(1) obtain g2 where g2: "getFrame s2 this = Some g2"
    "restObj (FrameObj g2) = restObj (FrameObj g1)" by (rule relinked_frame)
  from g2(1) st(4) have "g2 = f2" by simp
  with restObj_frame_fields(2) [OF g2(2)] restObj_frame_fields(2) [OF g1(2)]
  have viz: "mVizShapes f2 = mVizShapes f" by simp
  have this_noshape: "this \<notin> set (mVizShapes f2)"
  proof
    assume "this \<in> set (mVizShapes f2)"
    with S3 have "s2 this = Some ShapeObj" by blast
    with st(4) show False by (simp add: getFrame_def)
  qed
  have shapes: "\<forall>p \<in> set (mVizShapes f). s' p = None"
  proof
    fix p assume "p \<in> set (mVizShapes f)"
    then have p: "p \<in> set (mVizShapes f2)" unfolding viz .
    with this_noshape have "p \<noteq> this" by blast
    with S1 p show "s' p = None" unfolding s' by simp
  qed
  \<comment> \<open>the child sets never gain the frame\<close>
  have cf: "childF (s' q) \<subseteq> childF (s2 q)" "childE (s' q) \<subseteq> childE (s2 q)" for q
  proof -
    have a: "childF (s3 q) \<subseteq> childF (s2 q)" "childE (s3 q) \<subseteq> childE (s2 q)"
      using s3cases [of q] by (auto simp: childF_def childE_def)
    have b: "childF (s' q) = childF (s3 q) \<and> childE (s' q) = childE (s3 q)"
    proof (cases "q = this")
      case True
      with st(6) show ?thesis unfolding s'
        by (simp add: childF_def childE_def getFrame_Some)
    next
      case False
      then show ?thesis unfolding s' by simp
    qed
    from a b show "childF (s' q) \<subseteq> childF (s2 q)" "childE (s' q) \<subseteq> childE (s2 q)"
      by simp_all
  qed
  have parent_sets: "\<forall>op pf. mParentFrame f = Some op \<longrightarrow> getFrame s' op = Some pf \<longrightarrow>
                  this \<notin> set (mChildFrames pf) \<and>
                  (\<not> mAmQuiet f \<longrightarrow> this \<notin> set (mChildEntities pf))"
  proof (intro allI impI)
    fix op pf assume op: "mParentFrame f = Some op" and pf: "getFrame s' op = Some pf"
    from D(3) [OF op] have "this \<notin> childF (s2 op)"
      using relinked_childF_iff [OF R2 ncs] by simp
    with cf(1) [of op] have 1: "this \<notin> set (mChildFrames pf)"
      unfolding childF_frame [OF pf] by blast
    have 2: "\<not> mAmQuiet f \<longrightarrow> this \<notin> set (mChildEntities pf)"
    proof
      assume "\<not> mAmQuiet f"
      with D(4) [OF op] have "this \<notin> childE (s2 op)"
        using relinked_childE_iff [OF R2 ncs] by simp
      with cf(2) [of op] show "this \<notin> set (mChildEntities pf)"
        unfolding childE_frame [OF pf] by blast
    qed
    from 1 2 show "this \<notin> set (mChildFrames pf) \<and>
                  (\<not> mAmQuiet f \<longrightarrow> this \<notin> set (mChildEntities pf))" by blast
  qed
  \<comment> \<open>the children\<close>
  have children: "\<forall>c \<in> set (mChildEntities f). getParentFrame s' c = Some (Some worldAddr)"
  proof
    fix c assume c: "c \<in> set (mChildEntities f)"
    with sub2 have c2: "c \<in> set ?cs" by blast
    with P2 have p: "parentCell (s2 c) = Some (Some worldAddr)" by blast
    then have "s3 c = s2 c" by (intro notshape) simp
    moreover from c nc have "c \<noteq> this" by blast
    ultimately show "getParentFrame s' c = Some (Some worldAddr)"
      unfolding s' using p by (simp add: getParentFrame_parentCell)
  qed
  \<comment> \<open>no dangling reference\<close>
  have tw: "this \<noteq> worldAddr"
  proof
    assume "this = worldAddr"
    with f w(1) have "f = fw" by simp
    with nw w(2) show False by simp
  qed
  have norefs: "(\<forall>q. getParentFrame s q = Some (Some this) \<longrightarrow> q \<in> set (mChildEntities f)) \<longrightarrow>
                  (\<forall>q. getParentFrame s' q \<noteq> Some (Some this))"
  proof (intro impI allI)
    fix q
    assume reg: "\<forall>q. getParentFrame s q = Some (Some this) \<longrightarrow> q \<in> set (mChildEntities f)"
    show "getParentFrame s' q \<noteq> Some (Some this)"
    proof (cases "q = this")
      case True
      with f' par3 show ?thesis
        by (simp add: getParentFrame_parentCell parentCell_frame)
    next
      case False
      then have e: "s' q = s3 q" unfolding s' by simp
      show ?thesis
      proof (cases "s3 q = None")
        case True
        with e show ?thesis by (simp add: getParentFrame_parentCell parentCell_def)
      next
        case nn: False
        with s3cases [of q] have e3: "s3 q = s2 q" by blast
        show ?thesis
        proof (cases "q \<in> set ?cs")
          case True
          with P2 have "parentCell (s2 q) = Some (Some worldAddr)" by blast
          with e e3 tw show ?thesis by (simp add: getParentFrame_parentCell)
        next
          case nin: False
          with R2 have "parentCell (s2 q) = parentCell (s1 q)" by (rule relinked_parent)
          also have "\<dots> = parentCell (s q)"
            using R1 by (rule relinked_parent) (use False in simp)
          finally have pq: "parentCell (s' q) = parentCell (s q)" using e e3 by simp
          show ?thesis
          proof
            assume "getParentFrame s' q = Some (Some this)"
            with pq have "getParentFrame s q = Some (Some this)"
              by (simp add: getParentFrame_parentCell)
            with reg have "q \<in> set (mChildEntities f)" by blast
            with sub2 nin show False by blast
          qed
        qed
      qed
    qed
  qed
  have "changeParentFrame s this None = Some (out1, s1) \<and>
        getFrame s' this = Some (f3\<lparr>mVizShapes := []\<rparr>) \<and>
        mParentFrame (f3\<lparr>mVizShapes := []\<rparr>) = None \<and> mVizShapes (f3\<lparr>mVizShapes := []\<rparr>) = []"
    using st(1) f' par3 by simp
  with parent_sets children norefs shapes
  show "\<exists>out1 s1 f'. changeParentFrame s this None = Some (out1, s1) \<and>
               getFrame s' this = Some f' \<and> mParentFrame f' = None \<and> mVizShapes f' = [] \<and>
               (\<forall>op pf. mParentFrame f = Some op \<longrightarrow> getFrame s' op = Some pf \<longrightarrow>
                  this \<notin> set (mChildFrames pf) \<and>
                  (\<not> mAmQuiet f \<longrightarrow> this \<notin> set (mChildEntities pf))) \<and>
               (\<forall>c \<in> set (mChildEntities f). getParentFrame s' c = Some (Some worldAddr)) \<and>
               ((\<forall>q. getParentFrame s q = Some (Some this) \<longrightarrow> q \<in> set (mChildEntities f)) \<longrightarrow>
                  (\<forall>q. getParentFrame s' q \<noteq> Some (Some this))) \<and>
               (\<forall>p \<in> set (mVizShapes f). s' p = None)"
    by blast
qed

text \<open>What the destructor leaves alone: the parent pointer of every entity other than
  the frame and its registered child entities.\<close>

lemma Frame_dtor_others:
  assumes f: "getFrame s this = Some f"
    and w: "getFrame s worldAddr = Some fw" "mAmWorld fw"
    and d: "Frame_dtor s this = Some (out, s')"
    and q: "q \<noteq> this" "q \<notin> set (mChildEntities f)"
  shows "getParentFrame s' q = getParentFrame s q"
proof (cases "mAmWorld f")
  case True
  with d f have "s' = s" by (simp add: Frame_dtor_def)
  then show ?thesis by simp
next
  case False
  from d f False obtain out1 s1 and f1 :: Frame and out2 s2 and f2 :: Frame
    and s3 and f3 :: Frame where st:
    "changeParentFrame s this None = Some (out1, s1)" "getFrame s1 this = Some f1"
    "reparentToWorld (mChildEntities f1) s1 = Some (out2, s2)" "getFrame s2 this = Some f2"
    "deleteShapes (mVizShapes f2) s2 = Some s3" "getFrame s3 this = Some f3"
    "(out, s') = (out1 @ out2, s3(this \<mapsto> FrameObj (f3\<lparr>mVizShapes := []\<rparr>)))"
    by (rule Frame_dtor_steps) (rule that)
  have r1: "relinked {this} {this} {this} s s1"
    using st(1) by (rule changeParentFrame_relinked)
  from r1 w obtain fw1 where fw1: "getFrame s1 worldAddr = Some fw1" "mAmWorld fw1"
    by (rule relinked_world)
  from reparentToWorld_relinked [OF st(3) fw1]
  have r2: "relinked (set (mChildEntities f1)) (set (mChildEntities f1))
      (set (mChildEntities f1)) s1 s2" by blast
  from r1 have "childE (s1 this) \<subseteq> {this} \<union> childE (s this)"
    unfolding relinked_def relinkedObj_def by blast
  then have "set (mChildEntities f1) \<subseteq> {this} \<union> set (mChildEntities f)"
    by (simp add: childE_frame [OF st(2)] childE_frame [OF f])
  with q have q1: "q \<notin> set (mChildEntities f1)" by blast
  from q(1) have "q \<notin> {this}" by simp
  with r1 have p1: "parentCell (s1 q) = parentCell (s q)" by (rule relinked_parent)
  from r2 q1 have p2: "parentCell (s2 q) = parentCell (s1 q)" by (rule relinked_parent)
  have p3: "parentCell (s3 q) = parentCell (s2 q)"
  proof (cases "q \<in> set (mVizShapes f2)")
    case True
    with deleteShapes_effect [OF st(5)] have "s3 q = None" "s2 q = Some ShapeObj" by blast+
    then show ?thesis by (simp add: parentCell_def)
  next
    case False
    with deleteShapes_effect [OF st(5)] have "s3 q = s2 q" by blast
    then show ?thesis by simp
  qed
  from st(7) q(1) have "s' q = s3 q" by simp
  with p1 p2 p3 show ?thesis by (simp add: getParentFrame_parentCell)
qed

section \<open>Invocations of the relative-transform primitive\<close>

lemma bump_fields:
  "relativeTransform (bump f) = relativeTransform f"
  "relativeSpatialVelocity (bump f) = relativeSpatialVelocity f"
  "primaryRelativeAcceleration (bump f) = primaryRelativeAcceleration f"
  "partialAcceleration (bump f) = partialAcceleration f"
  "mParentFrame (bump f) = mParentFrame f"
  "mAmWorld (bump f) = mAmWorld f"
  "mNeedTransformUpdate (bump f) = mNeedTransformUpdate f"
  "mNeedVelocityUpdate (bump f) = mNeedVelocityUpdate f"
  "mNeedAccelerationUpdate (bump f) = mNeedAccelerationUpdate f"
  "mWorldTransform (bump f) = mWorldTransform f"
  "mVelocity (bump f) = mVelocity f"
  "mAcceleration (bump f) = mAcceleration f"
  "relativeTransformCalls (bump f) = Suc (relativeTransformCalls f)"
  by (simp_all add: bump_def)

section \<open>Properties of the velocity query\<close>

lemma getSpatialVelocity_world:
  "getFrame s p = Some f \<Longrightarrow> mAmWorld f \<Longrightarrow> getSpatialVelocity s p = Some (mVelocity f, s)"
  by (subst getSpatialVelocity.simps) simp

lemma getSpatialVelocity_clean:
  "getFrame s p = Some f \<Longrightarrow> \<not> mNeedVelocityUpdate f \<Longrightarrow>
   getSpatialVelocity s p = Some (mVelocity f, s)"
  by (subst getSpatialVelocity.simps) simp

lemma velUpdate_bump:
  "(bump f)\<lparr>mVelocity := X, mNeedVelocityUpdate := False\<rparr> = velUpdate f X"
  by (simp add: bump_def velUpdate_def)

lemma getSpatialVelocity_dirty:
  assumes "getFrame s p = Some f" "\<not> mAmWorld f" "mNeedVelocityUpdate f"
    and "mParentFrame f = Some q"
    and "getSpatialVelocity (s(p \<mapsto> FrameObj (bump f))) q = Some (Vp, s2)"
    and "getFrame s2 p = Some (bump f)"
  shows "getSpatialVelocity s p =
         Some (add6 (AdInvT (relativeTransform f) Vp) (relativeSpatialVelocity f),
               s2(p \<mapsto> FrameObj (velUpdate f (add6 (AdInvT (relativeTransform f) Vp) (relativeSpatialVelocity f)))))"
  using assms
  by (subst getSpatialVelocity.simps)
     (simp add: getRelativeTransform_def getRelativeSpatialVelocity_def bump_def [symmetric]
        velUpdate_bump bump_fields)

lemma spatialVelocityOf_det:
  "spatialVelocityOf s p n V \<Longrightarrow> spatialVelocityOf s p m V' \<Longrightarrow> n = m \<and> V = V'"
proof (induction arbitrary: m V' rule: spatialVelocityOf.induct)
  case (cached s p f)
  from cached.prems show ?case
  proof (cases rule: spatialVelocityOf.cases)
    case (cached f')
    from cached(3) \<open>getFrame s p = Some f\<close> have "f' = f" by (metis option.inject)
    with cached(1,2) show ?thesis by blast
  next
    case (recompute f' q n' Vp)
    from recompute(3) \<open>getFrame s p = Some f\<close> have "f' = f" by (metis option.inject)
    with recompute(4,5) cached.hyps(2) show ?thesis by blast
  qed
next
  case (recompute s p f q n Vp)
  from recompute.prems show ?case
  proof (cases rule: spatialVelocityOf.cases)
    case (cached f')
    from cached(3) \<open>getFrame s p = Some f\<close> have "f' = f" by (metis option.inject)
    with cached(4) recompute.hyps(2,3) show ?thesis by blast
  next
    case (recompute f' q' n' Vp')
    from recompute(3) \<open>getFrame s p = Some f\<close> have ff: "f' = f" by (metis option.inject)
    with recompute(6) \<open>mParentFrame f = Some q\<close> have "q' = q" by (metis option.inject)
    with recompute(7) have "spatialVelocityOf s q n' Vp'" by blast
    then have "n = n' \<and> Vp = Vp'" by (rule recompute.IH)
    with recompute(1,2) ff show ?thesis by blast
  qed
qed

lemma spatialVelocityOf_cong:
  "spatialVelocityOf s p n V \<Longrightarrow> (\<And>q. frameCell velView (s' q) = frameCell velView (s q)) \<Longrightarrow>
   spatialVelocityOf s' p n V"
proof (induction rule: spatialVelocityOf.induct)
  case (cached s p f)
  from cached.prems [of p] cached.hyps(1)
  obtain f' where f': "getFrame s' p = Some f'" "velView f' = velView f"
    by (rule frameCell_eq_frame)
  from f'(2) have v: "mAmWorld f' = mAmWorld f" "mNeedVelocityUpdate f' = mNeedVelocityUpdate f"
    "mVelocity f' = mVelocity f" by (simp_all add: velView_def)
  from cached.hyps(2) have "mAmWorld f' \<or> \<not> mNeedVelocityUpdate f'" unfolding v .
  with f'(1) have "spatialVelocityOf s' p 0 (mVelocity f')"
    by (rule spatialVelocityOf.cached)
  then show ?case unfolding v .
next
  case (recompute s p f q n Vp)
  from recompute.prems [of p] recompute.hyps(1)
  obtain f' where f': "getFrame s' p = Some f'" "velView f' = velView f"
    by (rule frameCell_eq_frame)
  from f'(2) have v: "mAmWorld f' = mAmWorld f" "mNeedVelocityUpdate f' = mNeedVelocityUpdate f"
    "mParentFrame f' = mParentFrame f" "relativeTransform f' = relativeTransform f"
    "relativeSpatialVelocity f' = relativeSpatialVelocity f"
    by (simp_all add: velView_def)
  have IH: "spatialVelocityOf s' q n Vp"
    using recompute.prems by (rule recompute.IH)
  have "spatialVelocityOf s' p (Suc n) (add6 (AdInvT (relativeTransform f') Vp) (relativeSpatialVelocity f'))"
    using f'(1) recompute.hyps(2,3,4) IH
    unfolding v [symmetric] by (rule spatialVelocityOf.recompute)
  then show ?case unfolding v .
qed

lemma spatialVelocityOf_dirty:
  assumes "spatialVelocityOf s q m X" "0 < m" "getFrame s q = Some f"
  shows "\<not> mAmWorld f" "mNeedVelocityUpdate f"
  using assms
  by (induction rule: spatialVelocityOf.induct) simp_all

lemma velUpdate_fields [simp]:
  "mNeedVelocityUpdate (velUpdate f X) = False"
  "mVelocity (velUpdate f X) = X"
  "relativeTransformCalls (velUpdate f X) = Suc (relativeTransformCalls f)"
  "mAmWorld (velUpdate f X) = mAmWorld f"
  "mParentFrame (velUpdate f X) = mParentFrame f"
  "relativeTransform (velUpdate f X) = relativeTransform f"
  "tfView (velUpdate f X) = tfView f"
  "accView (velUpdate f X) = accView f"
  "linkView (velUpdate f X) = linkView f"
  by (simp_all add: velUpdate_def tfView_def accView_def linkView_def)

lemma bump_velView [simp]: "velView (bump f) = velView f"
  by (simp add: bump_def velView_def)

lemma bump_cell_velView:
  "getFrame s p = Some f \<Longrightarrow>
   frameCell velView ((s(p \<mapsto> FrameObj (bump f))) q) = frameCell velView (s q)"
  by (simp add: frameCell_def getFrame_Some)

lemma velTouched_refl: "velTouched s n s"
  by (simp add: velTouched_def)

lemma velTouched_cases:
  assumes "velTouched s n s'"
  obtains "s' q = s q"
  | f m X where "getFrame s q = Some f" "0 < m" "m \<le> n" "spatialVelocityOf s q m X"
      "s' q = Some (FrameObj (velUpdate f X))"
  using assms unfolding velTouched_def by blast

lemma velTouched_same:
  assumes t: "velTouched s n s1" and c: "spatialVelocityOf s p (Suc n) X"
  shows "s1 p = s p"
proof (rule ccontr)
  assume "s1 p \<noteq> s p"
  with t obtain m Y where m: "m \<le> n" "spatialVelocityOf s p m Y"
    unfolding velTouched_def by blast
  from spatialVelocityOf_det [OF c m(2)] m(1) show False by simp
qed

lemma velTouched_step:
  assumes t: "velTouched (s(p \<mapsto> FrameObj (bump f))) n s2" and f: "getFrame s p = Some f"
    and c: "spatialVelocityOf s p (Suc n) X"
  shows "velTouched s (Suc n) (s2(p \<mapsto> FrameObj (velUpdate f X)))"
  unfolding velTouched_def
proof
  fix r
  let ?s1 = "s(p \<mapsto> FrameObj (bump f))"
  let ?s' = "s2(p \<mapsto> FrameObj (velUpdate f X))"
  show "?s' r = s r \<or>
        (\<exists>fa m Y. getFrame s r = Some fa \<and> 0 < m \<and> m \<le> Suc n \<and> spatialVelocityOf s r m Y \<and>
           ?s' r = Some (FrameObj (velUpdate fa Y)))"
  proof (cases "r = p")
    case True
    have "getFrame s r = Some f \<and> 0 < Suc n \<and> Suc n \<le> Suc n \<and> spatialVelocityOf s r (Suc n) X \<and>
           ?s' r = Some (FrameObj (velUpdate f X))"
      using True f c by simp
    then show ?thesis by blast
  next
    case False
    from t show ?thesis
    proof (cases rule: velTouched_cases [of _ _ _ r])
      case 1
      with False show ?thesis by simp
    next
      case (2 fa m Y)
      from 2(1) False have fa: "getFrame s r = Some fa" by (simp add: getFrame_def)
      have "spatialVelocityOf s r m Y"
        using 2(4)
      proof (rule spatialVelocityOf_cong)
        fix q
        show "frameCell velView (s q) = frameCell velView (?s1 q)"
          using bump_cell_velView [OF f, of q] by simp
      qed
      with fa 2(2,3,5) False
      have "getFrame s r = Some fa \<and> 0 < m \<and> m \<le> Suc n \<and> spatialVelocityOf s r m Y \<and>
           ?s' r = Some (FrameObj (velUpdate fa Y))"
        by simp
      then show ?thesis by blast
    qed
  qed
qed

lemma getSpatialVelocity_step:
  assumes f: "getFrame s p = Some f" and nw: "\<not> mAmWorld f" and d: "mNeedVelocityUpdate f"
    and par: "mParentFrame f = Some q"
    and g: "getSpatialVelocity (s(p \<mapsto> FrameObj (bump f))) q = Some (Vp, s2)"
    and t: "velTouched (s(p \<mapsto> FrameObj (bump f))) n s2"
    and c: "spatialVelocityOf (s(p \<mapsto> FrameObj (bump f))) q n Vp"
  shows "getSpatialVelocity s p =
           Some (add6 (AdInvT (relativeTransform f) Vp) (relativeSpatialVelocity f),
                 s2(p \<mapsto> FrameObj (velUpdate f (add6 (AdInvT (relativeTransform f) Vp) (relativeSpatialVelocity f)))))"
    and "spatialVelocityOf s p (Suc n) (add6 (AdInvT (relativeTransform f) Vp) (relativeSpatialVelocity f))"
    and "velTouched s (Suc n)
           (s2(p \<mapsto> FrameObj (velUpdate f (add6 (AdInvT (relativeTransform f) Vp) (relativeSpatialVelocity f)))))"
proof -
  let ?s1 = "s(p \<mapsto> FrameObj (bump f))"
  have cq: "spatialVelocityOf s q n Vp"
    using c
  proof (rule spatialVelocityOf_cong)
    fix r
    show "frameCell velView (s r) = frameCell velView (?s1 r)"
      using bump_cell_velView [OF f, of r] by simp
  qed
  show chain: "spatialVelocityOf s p (Suc n) (add6 (AdInvT (relativeTransform f) Vp) (relativeSpatialVelocity f))"
    using f nw d par cq by (rule spatialVelocityOf.recompute)
  have "spatialVelocityOf ?s1 p (Suc n) (add6 (AdInvT (relativeTransform f) Vp) (relativeSpatialVelocity f))"
    using chain
  proof (rule spatialVelocityOf_cong)
    fix r
    show "frameCell velView (?s1 r) = frameCell velView (s r)"
      by (rule bump_cell_velView [OF f])
  qed
  with t have "s2 p = ?s1 p" by (rule velTouched_same)
  then have f2: "getFrame s2 p = Some (bump f)" by (simp add: getFrame_def)
  show "getSpatialVelocity s p =
           Some (add6 (AdInvT (relativeTransform f) Vp) (relativeSpatialVelocity f),
                 s2(p \<mapsto> FrameObj (velUpdate f (add6 (AdInvT (relativeTransform f) Vp) (relativeSpatialVelocity f)))))"
    using f nw d par g f2 by (rule getSpatialVelocity_dirty)
  show "velTouched s (Suc n)
           (s2(p \<mapsto> FrameObj (velUpdate f (add6 (AdInvT (relativeTransform f) Vp) (relativeSpatialVelocity f)))))"
    using t f chain by (rule velTouched_step)
qed

lemma getSpatialVelocity_returns_aux:
  "\<forall>s p V. spatialVelocityOf s p n V \<longrightarrow>
     (\<exists>s'. getSpatialVelocity s p = Some (V, s') \<and> velTouched s n s')"
proof (induction n)
  case 0
  show ?case
  proof (intro allI impI)
    fix s p V assume "spatialVelocityOf s p 0 V"
    then show "\<exists>s'. getSpatialVelocity s p = Some (V, s') \<and> velTouched s 0 s'"
    proof (cases rule: spatialVelocityOf.cases)
      case (cached f)
      from cached(3) show ?thesis
      proof
        assume "mAmWorld f"
        with cached(2) have "getSpatialVelocity s p = Some (mVelocity f, s)"
          by (rule getSpatialVelocity_world)
        with cached(1) show ?thesis using velTouched_refl by blast
      next
        assume "\<not> mNeedVelocityUpdate f"
        with cached(2) have "getSpatialVelocity s p = Some (mVelocity f, s)"
          by (rule getSpatialVelocity_clean)
        with cached(1) show ?thesis using velTouched_refl by blast
      qed
    qed
  qed
next
  case (Suc n)
  show ?case
  proof (intro allI impI)
    fix s p V assume "spatialVelocityOf s p (Suc n) V"
    then show "\<exists>s'. getSpatialVelocity s p = Some (V, s') \<and> velTouched s (Suc n) s'"
    proof (cases rule: spatialVelocityOf.cases)
      case (recompute f q Vp)
      let ?s1 = "s(p \<mapsto> FrameObj (bump f))"
      have c1: "spatialVelocityOf ?s1 q n Vp"
        using recompute(6)
      proof (rule spatialVelocityOf_cong)
        fix r
        show "frameCell velView (?s1 r) = frameCell velView (s r)"
          by (rule bump_cell_velView [OF recompute(2)])
      qed
      with Suc.IH obtain s2 where g: "getSpatialVelocity ?s1 q = Some (Vp, s2)"
        and t: "velTouched ?s1 n s2" by blast
      note r = getSpatialVelocity_step [OF recompute(2,3,4,5) g t c1]
      from r(1,3) show ?thesis unfolding recompute(1) by blast
    qed
  qed
qed

lemma getSpatialVelocity_returns:
  "spatialVelocityOf s p n V \<Longrightarrow> \<exists>s'. getSpatialVelocity s p = Some (V, s') \<and> velTouched s n s'"
  using getSpatialVelocity_returns_aux by blast

lemma getSpatialVelocity_sound:
  assumes "getSpatialVelocity s p = Some y"
  shows "\<exists>n. spatialVelocityOf s p n (fst y) \<and> velTouched s n (snd y)"
proof (rule getSpatialVelocity.raw_induct
    [where P = "\<lambda>s p y. \<exists>n. spatialVelocityOf s p n (fst y) \<and> velTouched s n (snd y)",
     OF _ assms], goal_cases)
  case (1 gsv s this y)
  from 1(2) obtain f where f: "getFrame s this = Some f"
    by (cases "getFrame s this") simp_all
  show ?case
  proof (cases "mAmWorld f \<or> \<not> mNeedVelocityUpdate f")
    case True
    with 1(2) f have "y = (mVelocity f, s)"
      by (simp split: if_splits)
    moreover have "spatialVelocityOf s this 0 (mVelocity f)"
      using f True by (rule spatialVelocityOf.cached)
    ultimately show ?thesis using velTouched_refl by fastforce
  next
    case False
    then have nw: "\<not> mAmWorld f" and d: "mNeedVelocityUpdate f" by simp_all
    let ?s1 = "s(this \<mapsto> FrameObj (bump f))"
    have rt: "getRelativeTransform s this = Some (relativeTransform f, ?s1)"
      using f by (simp add: getRelativeTransform_def bump_def)
    from 1(2) f nw d rt obtain parent where par: "mParentFrame f = Some parent"
      by (cases "mParentFrame f") simp_all
    from 1(2) f nw d rt par obtain Vp s2 where g: "gsv ?s1 parent = Some (Vp, s2)"
      by (cases "gsv ?s1 parent") auto
    from 1(1) [OF g] obtain n where n: "spatialVelocityOf ?s1 parent n Vp" "velTouched ?s1 n s2"
      by auto
    have cq: "spatialVelocityOf s parent n Vp"
      using n(1)
    proof (rule spatialVelocityOf_cong)
      fix r
      show "frameCell velView (s r) = frameCell velView (?s1 r)"
        using bump_cell_velView [OF f, of r] by simp
    qed
    have chain: "spatialVelocityOf s this (Suc n) (add6 (AdInvT (relativeTransform f) Vp) (relativeSpatialVelocity f))"
      using f nw d par cq by (rule spatialVelocityOf.recompute)
    have "spatialVelocityOf ?s1 this (Suc n) (add6 (AdInvT (relativeTransform f) Vp) (relativeSpatialVelocity f))"
      using chain
    proof (rule spatialVelocityOf_cong)
      fix r
      show "frameCell velView (?s1 r) = frameCell velView (s r)"
        by (rule bump_cell_velView [OF f])
    qed
    with n(2) have "s2 this = ?s1 this" by (rule velTouched_same)
    then have f2: "getFrame s2 this = Some (bump f)" by (simp add: getFrame_def)
    from 1(2) f nw d rt par g f2
    have y: "y = (add6 (AdInvT (relativeTransform f) Vp) (relativeSpatialVelocity f),
                s2(this \<mapsto> FrameObj (velUpdate f (add6 (AdInvT (relativeTransform f) Vp) (relativeSpatialVelocity f)))))"
      by (simp add: getRelativeSpatialVelocity_def velUpdate_bump bump_fields)
    have "velTouched s (Suc n)
            (s2(this \<mapsto> FrameObj (velUpdate f (add6 (AdInvT (relativeTransform f) Vp) (relativeSpatialVelocity f)))))"
      using n(2) f chain by (rule velTouched_step)
    with y chain show ?thesis by fastforce
  qed
qed

lemma velTouched_other_views:
  assumes "velTouched s n s'"
  shows "frameCell tfView (s' q) = frameCell tfView (s q)"
    and "frameCell accView (s' q) = frameCell accView (s q)"
    and "frameCell linkView (s' q) = frameCell linkView (s q)"
proof -
  have "frameCell tfView (s' q) = frameCell tfView (s q) \<and>
        frameCell accView (s' q) = frameCell accView (s q) \<and>
        frameCell linkView (s' q) = frameCell linkView (s q)"
    using assms
  proof (cases rule: velTouched_cases [of _ _ _ q])
    case 1
    then show ?thesis by simp
  next
    case (2 f m X)
    from 2(1) have "s q = Some (FrameObj f)" by (simp only: getFrame_Some)
    with 2(5) show ?thesis by (simp add: frameCell_def)
  qed
  then show "frameCell tfView (s' q) = frameCell tfView (s q)"
    and "frameCell accView (s' q) = frameCell accView (s q)"
    and "frameCell linkView (s' q) = frameCell linkView (s q)" by blast+
qed

lemma velTouched_forward:
  "spatialVelocityOf s p m V \<Longrightarrow> velTouched s n s' \<Longrightarrow> \<exists>m'. spatialVelocityOf s' p m' V"
proof (induction rule: spatialVelocityOf.induct)
  case (cached s p f)
  from cached.prems show ?case
  proof (cases rule: velTouched_cases [of _ _ _ p])
    case 1
    with cached.hyps(1) have "getFrame s' p = Some f" by (simp add: getFrame_def)
    then have "spatialVelocityOf s' p 0 (mVelocity f)"
      using cached.hyps(2) by (rule spatialVelocityOf.cached)
    then show ?thesis ..
  next
    case (2 g k X)
    from 2(1) cached.hyps(1) have "g = f" by simp
    with spatialVelocityOf_dirty [OF 2(4,2,1)] cached.hyps(2) show ?thesis by simp
  qed
next
  case (recompute s p f q k Vp)
  from recompute.prems have "\<exists>m'. spatialVelocityOf s' q m' Vp" by (rule recompute.IH)
  then obtain m' where IH: "spatialVelocityOf s' q m' Vp" ..
  from recompute.prems show ?case
  proof (cases rule: velTouched_cases [of _ _ _ p])
    case 1
    with recompute.hyps(1) have "getFrame s' p = Some f" by (simp add: getFrame_def)
    then have "spatialVelocityOf s' p (Suc m') (add6 (AdInvT (relativeTransform f) Vp) (relativeSpatialVelocity f))"
      using recompute.hyps(2,3,4) IH by (rule spatialVelocityOf.recompute)
    then show ?thesis ..
  next
    case (2 g j X)
    have "spatialVelocityOf s p (Suc k) (add6 (AdInvT (relativeTransform f) Vp) (relativeSpatialVelocity f))"
      using recompute.hyps by (rule spatialVelocityOf.recompute)
    from spatialVelocityOf_det [OF 2(4) this]
    have X: "X = add6 (AdInvT (relativeTransform f) Vp) (relativeSpatialVelocity f)" by simp
    from 2(5) have g: "getFrame s' p = Some (velUpdate g X)" by (simp only: getFrame_Some)
    have "spatialVelocityOf s' p 0 (mVelocity (velUpdate g X))"
      using g by (rule spatialVelocityOf.cached) simp
    then have "spatialVelocityOf s' p 0 (add6 (AdInvT (relativeTransform f) Vp) (relativeSpatialVelocity f))"
      unfolding X by simp
    then show ?thesis ..
  qed
qed

lemma velTouched_backward:
  "spatialVelocityOf s' p m V \<Longrightarrow> velTouched s n s' \<Longrightarrow> \<exists>m'. spatialVelocityOf s p m' V"
proof (induction rule: spatialVelocityOf.induct)
  case (cached s' p f)
  from cached.prems show ?case
  proof (cases rule: velTouched_cases [of _ _ _ p])
    case 1
    with cached.hyps(1) have "getFrame s p = Some f" by (simp add: getFrame_def)
    then have "spatialVelocityOf s p 0 (mVelocity f)"
      using cached.hyps(2) by (rule spatialVelocityOf.cached)
    then show ?thesis ..
  next
    case (2 g k X)
    from 2(5) have "getFrame s' p = Some (velUpdate g X)" by (simp only: getFrame_Some)
    with cached.hyps(1) have "f = velUpdate g X" by simp
    then have "mVelocity f = X" by simp
    with 2(4) show ?thesis by blast
  qed
next
  case (recompute s' p f q k Vp)
  from recompute.prems have "\<exists>m'. spatialVelocityOf s q m' Vp" by (rule recompute.IH)
  then obtain m' where IH: "spatialVelocityOf s q m' Vp" ..
  from recompute.prems show ?case
  proof (cases rule: velTouched_cases [of _ _ _ p])
    case 1
    with recompute.hyps(1) have "getFrame s p = Some f" by (simp add: getFrame_def)
    then have "spatialVelocityOf s p (Suc m') (add6 (AdInvT (relativeTransform f) Vp) (relativeSpatialVelocity f))"
      using recompute.hyps(2,3,4) IH by (rule spatialVelocityOf.recompute)
    then show ?thesis ..
  next
    case (2 g j X)
    from 2(5) have "getFrame s' p = Some (velUpdate g X)" by (simp only: getFrame_Some)
    with recompute.hyps(1) have "f = velUpdate g X" by simp
    with recompute.hyps(3) show ?thesis by simp
  qed
qed

lemma velTouched_world:
  assumes "velTouched s n s'"
  shows "frameCell worldView (s' q) = frameCell worldView (s q)"
    and "getFrame s q = None \<Longrightarrow> s' q = s q"
proof -
  have "frameCell worldView (s' q) = frameCell worldView (s q) \<and>
        (getFrame s q = None \<longrightarrow> s' q = s q)"
    using assms
  proof (cases rule: velTouched_cases [of _ _ _ q])
    case 1
    then show ?thesis by simp
  next
    case (2 f m X)
    from 2(1) have c: "s q = Some (FrameObj f)" by (simp only: getFrame_Some)
    from spatialVelocityOf_dirty [OF 2(4,2,1)] have "\<not> mAmWorld f" by simp
    then have "worldView (velUpdate f X) = worldView f" by (simp add: worldView_def)
    with c 2(1,5) show ?thesis by (simp add: frameCell_def)
  qed
  then show "frameCell worldView (s' q) = frameCell worldView (s q)"
    and "getFrame s q = None \<Longrightarrow> s' q = s q" by blast+
qed

section \<open>Properties of the acceleration query\<close>

lemma getSpatialAcceleration_world:
  "getFrame s p = Some f \<Longrightarrow> mAmWorld f \<Longrightarrow> getSpatialAcceleration s p = Some (mAcceleration f, s)"
  by (subst getSpatialAcceleration.simps) simp

lemma getSpatialAcceleration_clean:
  "getFrame s p = Some f \<Longrightarrow> \<not> mNeedAccelerationUpdate f \<Longrightarrow>
   getSpatialAcceleration s p = Some (mAcceleration f, s)"
  by (subst getSpatialAcceleration.simps) simp

lemma accUpdate_bump:
  "(bump f)\<lparr>mAcceleration := X, mNeedAccelerationUpdate := False\<rparr> = accUpdate f X"
  by (simp add: bump_def accUpdate_def)

lemma getSpatialAcceleration_dirty:
  assumes "getFrame s p = Some f" "\<not> mAmWorld f" "mNeedAccelerationUpdate f"
    and "mParentFrame f = Some q"
    and "getSpatialAcceleration (s(p \<mapsto> FrameObj (bump f))) q = Some (Vp, s2)"
    and "getFrame s2 p = Some (bump f)"
  shows "getSpatialAcceleration s p =
         Some (add6 (add6 (AdInvT (relativeTransform f) Vp) (primaryRelativeAcceleration f)) (partialAcceleration f),
               s2(p \<mapsto> FrameObj (accUpdate f (add6 (add6 (AdInvT (relativeTransform f) Vp) (primaryRelativeAcceleration f)) (partialAcceleration f)))))"
  using assms
  by (subst getSpatialAcceleration.simps)
     (simp add: getRelativeTransform_def getPrimaryRelativeAcceleration_def getPartialAcceleration_def bump_def [symmetric]
        accUpdate_bump bump_fields)

lemma spatialAccelerationOf_det:
  "spatialAccelerationOf s p n V \<Longrightarrow> spatialAccelerationOf s p m V' \<Longrightarrow> n = m \<and> V = V'"
proof (induction arbitrary: m V' rule: spatialAccelerationOf.induct)
  case (cached s p f)
  from cached.prems show ?case
  proof (cases rule: spatialAccelerationOf.cases)
    case (cached f')
    from cached(3) \<open>getFrame s p = Some f\<close> have "f' = f" by (metis option.inject)
    with cached(1,2) show ?thesis by blast
  next
    case (recompute f' q n' Vp)
    from recompute(3) \<open>getFrame s p = Some f\<close> have "f' = f" by (metis option.inject)
    with recompute(4,5) cached.hyps(2) show ?thesis by blast
  qed
next
  case (recompute s p f q n Vp)
  from recompute.prems show ?case
  proof (cases rule: spatialAccelerationOf.cases)
    case (cached f')
    from cached(3) \<open>getFrame s p = Some f\<close> have "f' = f" by (metis option.inject)
    with cached(4) recompute.hyps(2,3) show ?thesis by blast
  next
    case (recompute f' q' n' Vp')
    from recompute(3) \<open>getFrame s p = Some f\<close> have ff: "f' = f" by (metis option.inject)
    with recompute(6) \<open>mParentFrame f = Some q\<close> have "q' = q" by (metis option.inject)
    with recompute(7) have "spatialAccelerationOf s q n' Vp'" by blast
    then have "n = n' \<and> Vp = Vp'" by (rule recompute.IH)
    with recompute(1,2) ff show ?thesis by blast
  qed
qed

lemma spatialAccelerationOf_cong:
  "spatialAccelerationOf s p n V \<Longrightarrow> (\<And>q. frameCell accView (s' q) = frameCell accView (s q)) \<Longrightarrow>
   spatialAccelerationOf s' p n V"
proof (induction rule: spatialAccelerationOf.induct)
  case (cached s p f)
  from cached.prems [of p] cached.hyps(1)
  obtain f' where f': "getFrame s' p = Some f'" "accView f' = accView f"
    by (rule frameCell_eq_frame)
  from f'(2) have v: "mAmWorld f' = mAmWorld f" "mNeedAccelerationUpdate f' = mNeedAccelerationUpdate f"
    "mAcceleration f' = mAcceleration f" by (simp_all add: accView_def)
  from cached.hyps(2) have "mAmWorld f' \<or> \<not> mNeedAccelerationUpdate f'" unfolding v .
  with f'(1) have "spatialAccelerationOf s' p 0 (mAcceleration f')"
    by (rule spatialAccelerationOf.cached)
  then show ?case unfolding v .
next
  case (recompute s p f q n Vp)
  from recompute.prems [of p] recompute.hyps(1)
  obtain f' where f': "getFrame s' p = Some f'" "accView f' = accView f"
    by (rule frameCell_eq_frame)
  from f'(2) have v: "mAmWorld f' = mAmWorld f" "mNeedAccelerationUpdate f' = mNeedAccelerationUpdate f"
    "mParentFrame f' = mParentFrame f" "relativeTransform f' = relativeTransform f"
    "primaryRelativeAcceleration f' = primaryRelativeAcceleration f"
    "partialAcceleration f' = partialAcceleration f"
    by (simp_all add: accView_def)
  have IH: "spatialAccelerationOf s' q n Vp"
    using recompute.prems by (rule recompute.IH)
  have "spatialAccelerationOf s' p (Suc n) (add6 (add6 (AdInvT (relativeTransform f') Vp) (primaryRelativeAcceleration f')) (partialAcceleration f'))"
    using f'(1) recompute.hyps(2,3,4) IH
    unfolding v [symmetric] by (rule spatialAccelerationOf.recompute)
  then show ?case unfolding v .
qed

lemma spatialAccelerationOf_dirty:
  assumes "spatialAccelerationOf s q m X" "0 < m" "getFrame s q = Some f"
  shows "\<not> mAmWorld f" "mNeedAccelerationUpdate f"
  using assms
  by (induction rule: spatialAccelerationOf.induct) simp_all

lemma accUpdate_fields [simp]:
  "mNeedAccelerationUpdate (accUpdate f X) = False"
  "mAcceleration (accUpdate f X) = X"
  "relativeTransformCalls (accUpdate f X) = Suc (relativeTransformCalls f)"
  "mAmWorld (accUpdate f X) = mAmWorld f"
  "mParentFrame (accUpdate f X) = mParentFrame f"
  "relativeTransform (accUpdate f X) = relativeTransform f"
  "tfView (accUpdate f X) = tfView f"
  "velView (accUpdate f X) = velView f"
  "linkView (accUpdate f X) = linkView f"
  by (simp_all add: accUpdate_def tfView_def velView_def linkView_def)

lemma bump_accView [simp]: "accView (bump f) = accView f"
  by (simp add: bump_def accView_def)

lemma bump_cell_accView:
  "getFrame s p = Some f \<Longrightarrow>
   frameCell accView ((s(p \<mapsto> FrameObj (bump f))) q) = frameCell accView (s q)"
  by (simp add: frameCell_def getFrame_Some)

lemma accTouched_refl: "accTouched s n s"
  by (simp add: accTouched_def)

lemma accTouched_cases:
  assumes "accTouched s n s'"
  obtains "s' q = s q"
  | f m X where "getFrame s q = Some f" "0 < m" "m \<le> n" "spatialAccelerationOf s q m X"
      "s' q = Some (FrameObj (accUpdate f X))"
  using assms unfolding accTouched_def by blast

lemma accTouched_same:
  assumes t: "accTouched s n s1" and c: "spatialAccelerationOf s p (Suc n) X"
  shows "s1 p = s p"
proof (rule ccontr)
  assume "s1 p \<noteq> s p"
  with t obtain m Y where m: "m \<le> n" "spatialAccelerationOf s p m Y"
    unfolding accTouched_def by blast
  from spatialAccelerationOf_det [OF c m(2)] m(1) show False by simp
qed

lemma accTouched_step:
  assumes t: "accTouched (s(p \<mapsto> FrameObj (bump f))) n s2" and f: "getFrame s p = Some f"
    and c: "spatialAccelerationOf s p (Suc n) X"
  shows "accTouched s (Suc n) (s2(p \<mapsto> FrameObj (accUpdate f X)))"
  unfolding accTouched_def
proof
  fix r
  let ?s1 = "s(p \<mapsto> FrameObj (bump f))"
  let ?s' = "s2(p \<mapsto> FrameObj (accUpdate f X))"
  show "?s' r = s r \<or>
        (\<exists>fa m Y. getFrame s r = Some fa \<and> 0 < m \<and> m \<le> Suc n \<and> spatialAccelerationOf s r m Y \<and>
           ?s' r = Some (FrameObj (accUpdate fa Y)))"
  proof (cases "r = p")
    case True
    have "getFrame s r = Some f \<and> 0 < Suc n \<and> Suc n \<le> Suc n \<and> spatialAccelerationOf s r (Suc n) X \<and>
           ?s' r = Some (FrameObj (accUpdate f X))"
      using True f c by simp
    then show ?thesis by blast
  next
    case False
    from t show ?thesis
    proof (cases rule: accTouched_cases [of _ _ _ r])
      case 1
      with False show ?thesis by simp
    next
      case (2 fa m Y)
      from 2(1) False have fa: "getFrame s r = Some fa" by (simp add: getFrame_def)
      have "spatialAccelerationOf s r m Y"
        using 2(4)
      proof (rule spatialAccelerationOf_cong)
        fix q
        show "frameCell accView (s q) = frameCell accView (?s1 q)"
          using bump_cell_accView [OF f, of q] by simp
      qed
      with fa 2(2,3,5) False
      have "getFrame s r = Some fa \<and> 0 < m \<and> m \<le> Suc n \<and> spatialAccelerationOf s r m Y \<and>
           ?s' r = Some (FrameObj (accUpdate fa Y))"
        by simp
      then show ?thesis by blast
    qed
  qed
qed

lemma getSpatialAcceleration_step:
  assumes f: "getFrame s p = Some f" and nw: "\<not> mAmWorld f" and d: "mNeedAccelerationUpdate f"
    and par: "mParentFrame f = Some q"
    and g: "getSpatialAcceleration (s(p \<mapsto> FrameObj (bump f))) q = Some (Vp, s2)"
    and t: "accTouched (s(p \<mapsto> FrameObj (bump f))) n s2"
    and c: "spatialAccelerationOf (s(p \<mapsto> FrameObj (bump f))) q n Vp"
  shows "getSpatialAcceleration s p =
           Some (add6 (add6 (AdInvT (relativeTransform f) Vp) (primaryRelativeAcceleration f)) (partialAcceleration f),
                 s2(p \<mapsto> FrameObj (accUpdate f (add6 (add6 (AdInvT (relativeTransform f) Vp) (primaryRelativeAcceleration f)) (partialAcceleration f)))))"
    and "spatialAccelerationOf s p (Suc n) (add6 (add6 (AdInvT (relativeTransform f) Vp) (primaryRelativeAcceleration f)) (partialAcceleration f))"
    and "accTouched s (Suc n)
           (s2(p \<mapsto> FrameObj (accUpdate f (add6 (add6 (AdInvT (relativeTransform f) Vp) (primaryRelativeAcceleration f)) (partialAcceleration f)))))"
proof -
  let ?s1 = "s(p \<mapsto> FrameObj (bump f))"
  have cq: "spatialAccelerationOf s q n Vp"
    using c
  proof (rule spatialAccelerationOf_cong)
    fix r
    show "frameCell accView (s r) = frameCell accView (?s1 r)"
      using bump_cell_accView [OF f, of r] by simp
  qed
  show chain: "spatialAccelerationOf s p (Suc n) (add6 (add6 (AdInvT (relativeTransform f) Vp) (primaryRelativeAcceleration f)) (partialAcceleration f))"
    using f nw d par cq by (rule spatialAccelerationOf.recompute)
  have "spatialAccelerationOf ?s1 p (Suc n) (add6 (add6 (AdInvT (relativeTransform f) Vp) (primaryRelativeAcceleration f)) (partialAcceleration f))"
    using chain
  proof (rule spatialAccelerationOf_cong)
    fix r
    show "frameCell accView (?s1 r) = frameCell accView (s r)"
      by (rule bump_cell_accView [OF f])
  qed
  with t have "s2 p = ?s1 p" by (rule accTouched_same)
  then have f2: "getFrame s2 p = Some (bump f)" by (simp add: getFrame_def)
  show "getSpatialAcceleration s p =
           Some (add6 (add6 (AdInvT (relativeTransform f) Vp) (primaryRelativeAcceleration f)) (partialAcceleration f),
                 s2(p \<mapsto> FrameObj (accUpdate f (add6 (add6 (AdInvT (relativeTransform f) Vp) (primaryRelativeAcceleration f)) (partialAcceleration f)))))"
    using f nw d par g f2 by (rule getSpatialAcceleration_dirty)
  show "accTouched s (Suc n)
           (s2(p \<mapsto> FrameObj (accUpdate f (add6 (add6 (AdInvT (relativeTransform f) Vp) (primaryRelativeAcceleration f)) (partialAcceleration f)))))"
    using t f chain by (rule accTouched_step)
qed

lemma getSpatialAcceleration_returns_aux:
  "\<forall>s p V. spatialAccelerationOf s p n V \<longrightarrow>
     (\<exists>s'. getSpatialAcceleration s p = Some (V, s') \<and> accTouched s n s')"
proof (induction n)
  case 0
  show ?case
  proof (intro allI impI)
    fix s p V assume "spatialAccelerationOf s p 0 V"
    then show "\<exists>s'. getSpatialAcceleration s p = Some (V, s') \<and> accTouched s 0 s'"
    proof (cases rule: spatialAccelerationOf.cases)
      case (cached f)
      from cached(3) show ?thesis
      proof
        assume "mAmWorld f"
        with cached(2) have "getSpatialAcceleration s p = Some (mAcceleration f, s)"
          by (rule getSpatialAcceleration_world)
        with cached(1) show ?thesis using accTouched_refl by blast
      next
        assume "\<not> mNeedAccelerationUpdate f"
        with cached(2) have "getSpatialAcceleration s p = Some (mAcceleration f, s)"
          by (rule getSpatialAcceleration_clean)
        with cached(1) show ?thesis using accTouched_refl by blast
      qed
    qed
  qed
next
  case (Suc n)
  show ?case
  proof (intro allI impI)
    fix s p V assume "spatialAccelerationOf s p (Suc n) V"
    then show "\<exists>s'. getSpatialAcceleration s p = Some (V, s') \<and> accTouched s (Suc n) s'"
    proof (cases rule: spatialAccelerationOf.cases)
      case (recompute f q Vp)
      let ?s1 = "s(p \<mapsto> FrameObj (bump f))"
      have c1: "spatialAccelerationOf ?s1 q n Vp"
        using recompute(6)
      proof (rule spatialAccelerationOf_cong)
        fix r
        show "frameCell accView (?s1 r) = frameCell accView (s r)"
          by (rule bump_cell_accView [OF recompute(2)])
      qed
      with Suc.IH obtain s2 where g: "getSpatialAcceleration ?s1 q = Some (Vp, s2)"
        and t: "accTouched ?s1 n s2" by blast
      note r = getSpatialAcceleration_step [OF recompute(2,3,4,5) g t c1]
      from r(1,3) show ?thesis unfolding recompute(1) by blast
    qed
  qed
qed

lemma getSpatialAcceleration_returns:
  "spatialAccelerationOf s p n V \<Longrightarrow> \<exists>s'. getSpatialAcceleration s p = Some (V, s') \<and> accTouched s n s'"
  using getSpatialAcceleration_returns_aux by blast

lemma getSpatialAcceleration_sound:
  assumes "getSpatialAcceleration s p = Some y"
  shows "\<exists>n. spatialAccelerationOf s p n (fst y) \<and> accTouched s n (snd y)"
proof (rule getSpatialAcceleration.raw_induct
    [where P = "\<lambda>s p y. \<exists>n. spatialAccelerationOf s p n (fst y) \<and> accTouched s n (snd y)",
     OF _ assms], goal_cases)
  case (1 gsv s this y)
  from 1(2) obtain f where f: "getFrame s this = Some f"
    by (cases "getFrame s this") simp_all
  show ?case
  proof (cases "mAmWorld f \<or> \<not> mNeedAccelerationUpdate f")
    case True
    with 1(2) f have "y = (mAcceleration f, s)"
      by (simp split: if_splits)
    moreover have "spatialAccelerationOf s this 0 (mAcceleration f)"
      using f True by (rule spatialAccelerationOf.cached)
    ultimately show ?thesis using accTouched_refl by fastforce
  next
    case False
    then have nw: "\<not> mAmWorld f" and d: "mNeedAccelerationUpdate f" by simp_all
    let ?s1 = "s(this \<mapsto> FrameObj (bump f))"
    have rt: "getRelativeTransform s this = Some (relativeTransform f, ?s1)"
      using f by (simp add: getRelativeTransform_def bump_def)
    from 1(2) f nw d rt obtain parent where par: "mParentFrame f = Some parent"
      by (cases "mParentFrame f") simp_all
    from 1(2) f nw d rt par obtain Vp s2 where g: "gsv ?s1 parent = Some (Vp, s2)"
      by (cases "gsv ?s1 parent") auto
    from 1(1) [OF g] obtain n where n: "spatialAccelerationOf ?s1 parent n Vp" "accTouched ?s1 n s2"
      by auto
    have cq: "spatialAccelerationOf s parent n Vp"
      using n(1)
    proof (rule spatialAccelerationOf_cong)
      fix r
      show "frameCell accView (s r) = frameCell accView (?s1 r)"
        using bump_cell_accView [OF f, of r] by simp
    qed
    have chain: "spatialAccelerationOf s this (Suc n) (add6 (add6 (AdInvT (relativeTransform f) Vp) (primaryRelativeAcceleration f)) (partialAcceleration f))"
      using f nw d par cq by (rule spatialAccelerationOf.recompute)
    have "spatialAccelerationOf ?s1 this (Suc n) (add6 (add6 (AdInvT (relativeTransform f) Vp) (primaryRelativeAcceleration f)) (partialAcceleration f))"
      using chain
    proof (rule spatialAccelerationOf_cong)
      fix r
      show "frameCell accView (?s1 r) = frameCell accView (s r)"
        by (rule bump_cell_accView [OF f])
    qed
    with n(2) have "s2 this = ?s1 this" by (rule accTouched_same)
    then have f2: "getFrame s2 this = Some (bump f)" by (simp add: getFrame_def)
    from 1(2) f nw d rt par g f2
    have y: "y = (add6 (add6 (AdInvT (relativeTransform f) Vp) (primaryRelativeAcceleration f)) (partialAcceleration f),
                s2(this \<mapsto> FrameObj (accUpdate f (add6 (add6 (AdInvT (relativeTransform f) Vp) (primaryRelativeAcceleration f)) (partialAcceleration f)))))"
      by (simp add: getPrimaryRelativeAcceleration_def getPartialAcceleration_def accUpdate_bump bump_fields)
    have "accTouched s (Suc n)
            (s2(this \<mapsto> FrameObj (accUpdate f (add6 (add6 (AdInvT (relativeTransform f) Vp) (primaryRelativeAcceleration f)) (partialAcceleration f)))))"
      using n(2) f chain by (rule accTouched_step)
    with y chain show ?thesis by fastforce
  qed
qed

lemma accTouched_other_views:
  assumes "accTouched s n s'"
  shows "frameCell tfView (s' q) = frameCell tfView (s q)"
    and "frameCell velView (s' q) = frameCell velView (s q)"
    and "frameCell linkView (s' q) = frameCell linkView (s q)"
proof -
  have "frameCell tfView (s' q) = frameCell tfView (s q) \<and>
        frameCell velView (s' q) = frameCell velView (s q) \<and>
        frameCell linkView (s' q) = frameCell linkView (s q)"
    using assms
  proof (cases rule: accTouched_cases [of _ _ _ q])
    case 1
    then show ?thesis by simp
  next
    case (2 f m X)
    from 2(1) have "s q = Some (FrameObj f)" by (simp only: getFrame_Some)
    with 2(5) show ?thesis by (simp add: frameCell_def)
  qed
  then show "frameCell tfView (s' q) = frameCell tfView (s q)"
    and "frameCell velView (s' q) = frameCell velView (s q)"
    and "frameCell linkView (s' q) = frameCell linkView (s q)" by blast+
qed

lemma accTouched_forward:
  "spatialAccelerationOf s p m V \<Longrightarrow> accTouched s n s' \<Longrightarrow> \<exists>m'. spatialAccelerationOf s' p m' V"
proof (induction rule: spatialAccelerationOf.induct)
  case (cached s p f)
  from cached.prems show ?case
  proof (cases rule: accTouched_cases [of _ _ _ p])
    case 1
    with cached.hyps(1) have "getFrame s' p = Some f" by (simp add: getFrame_def)
    then have "spatialAccelerationOf s' p 0 (mAcceleration f)"
      using cached.hyps(2) by (rule spatialAccelerationOf.cached)
    then show ?thesis ..
  next
    case (2 g k X)
    from 2(1) cached.hyps(1) have "g = f" by simp
    with spatialAccelerationOf_dirty [OF 2(4,2,1)] cached.hyps(2) show ?thesis by simp
  qed
next
  case (recompute s p f q k Vp)
  from recompute.prems have "\<exists>m'. spatialAccelerationOf s' q m' Vp" by (rule recompute.IH)
  then obtain m' where IH: "spatialAccelerationOf s' q m' Vp" ..
  from recompute.prems show ?case
  proof (cases rule: accTouched_cases [of _ _ _ p])
    case 1
    with recompute.hyps(1) have "getFrame s' p = Some f" by (simp add: getFrame_def)
    then have "spatialAccelerationOf s' p (Suc m') (add6 (add6 (AdInvT (relativeTransform f) Vp) (primaryRelativeAcceleration f)) (partialAcceleration f))"
      using recompute.hyps(2,3,4) IH by (rule spatialAccelerationOf.recompute)
    then show ?thesis ..
  next
    case (2 g j X)
    have "spatialAccelerationOf s p (Suc k) (add6 (add6 (AdInvT (relativeTransform f) Vp) (primaryRelativeAcceleration f)) (partialAcceleration f))"
      using recompute.hyps by (rule spatialAccelerationOf.recompute)
    from spatialAccelerationOf_det [OF 2(4) this]
    have X: "X = add6 (add6 (AdInvT (relativeTransform f) Vp) (primaryRelativeAcceleration f)) (partialAcceleration f)" by simp
    from 2(5) have g: "getFrame s' p = Some (accUpdate g X)" by (simp only: getFrame_Some)
    have "spatialAccelerationOf s' p 0 (mAcceleration (accUpdate g X))"
      using g by (rule spatialAccelerationOf.cached) simp
    then have "spatialAccelerationOf s' p 0 (add6 (add6 (AdInvT (relativeTransform f) Vp) (primaryRelativeAcceleration f)) (partialAcceleration f))"
      unfolding X by simp
    then show ?thesis ..
  qed
qed

lemma accTouched_backward:
  "spatialAccelerationOf s' p m V \<Longrightarrow> accTouched s n s' \<Longrightarrow> \<exists>m'. spatialAccelerationOf s p m' V"
proof (induction rule: spatialAccelerationOf.induct)
  case (cached s' p f)
  from cached.prems show ?case
  proof (cases rule: accTouched_cases [of _ _ _ p])
    case 1
    with cached.hyps(1) have "getFrame s p = Some f" by (simp add: getFrame_def)
    then have "spatialAccelerationOf s p 0 (mAcceleration f)"
      using cached.hyps(2) by (rule spatialAccelerationOf.cached)
    then show ?thesis ..
  next
    case (2 g k X)
    from 2(5) have "getFrame s' p = Some (accUpdate g X)" by (simp only: getFrame_Some)
    with cached.hyps(1) have "f = accUpdate g X" by simp
    then have "mAcceleration f = X" by simp
    with 2(4) show ?thesis by blast
  qed
next
  case (recompute s' p f q k Vp)
  from recompute.prems have "\<exists>m'. spatialAccelerationOf s q m' Vp" by (rule recompute.IH)
  then obtain m' where IH: "spatialAccelerationOf s q m' Vp" ..
  from recompute.prems show ?case
  proof (cases rule: accTouched_cases [of _ _ _ p])
    case 1
    with recompute.hyps(1) have "getFrame s p = Some f" by (simp add: getFrame_def)
    then have "spatialAccelerationOf s p (Suc m') (add6 (add6 (AdInvT (relativeTransform f) Vp) (primaryRelativeAcceleration f)) (partialAcceleration f))"
      using recompute.hyps(2,3,4) IH by (rule spatialAccelerationOf.recompute)
    then show ?thesis ..
  next
    case (2 g j X)
    from 2(5) have "getFrame s' p = Some (accUpdate g X)" by (simp only: getFrame_Some)
    with recompute.hyps(1) have "f = accUpdate g X" by simp
    with recompute.hyps(3) show ?thesis by simp
  qed
qed

lemma accTouched_world:
  assumes "accTouched s n s'"
  shows "frameCell worldView (s' q) = frameCell worldView (s q)"
    and "getFrame s q = None \<Longrightarrow> s' q = s q"
proof -
  have "frameCell worldView (s' q) = frameCell worldView (s q) \<and>
        (getFrame s q = None \<longrightarrow> s' q = s q)"
    using assms
  proof (cases rule: accTouched_cases [of _ _ _ q])
    case 1
    then show ?thesis by simp
  next
    case (2 f m X)
    from 2(1) have c: "s q = Some (FrameObj f)" by (simp only: getFrame_Some)
    from spatialAccelerationOf_dirty [OF 2(4,2,1)] have "\<not> mAmWorld f" by simp
    then have "worldView (accUpdate f X) = worldView f" by (simp add: worldView_def)
    with c 2(1,5) show ?thesis by (simp add: frameCell_def)
  qed
  then show "frameCell worldView (s' q) = frameCell worldView (s q)"
    and "getFrame s q = None \<Longrightarrow> s' q = s q" by blast+
qed

section \<open>The queries are transparent\<close>

lemma queryEq_refl: "queryEq s s"
  by (simp add: queryEq_def)

lemma queryEq_link: "queryEq s s' \<Longrightarrow> frameCell linkView (s' p) = frameCell linkView (s p)"
  by (simp add: queryEq_def)

lemma queryEq_other: "queryEq s s' \<Longrightarrow> getFrame s p = None \<Longrightarrow> s' p = s p"
  by (simp add: queryEq_def)

lemma queryEq_getFrame_None:
  assumes "queryEq s s'"
  shows "getFrame s' p = None \<longleftrightarrow> getFrame s p = None"
proof -
  have "map_option linkView (getFrame s' p) = map_option linkView (getFrame s p)"
    using queryEq_link [OF assms, of p] by (simp add: frameCell_getFrame)
  then show ?thesis by (cases "getFrame s' p"; cases "getFrame s p") simp_all
qed

lemma queryEq_sym:
  assumes "queryEq s s'"
  shows "queryEq s' s"
proof -
  have "s p = s' p" if "getFrame s' p = None" for p
  proof -
    from that have "getFrame s p = None" by (simp add: queryEq_getFrame_None [OF assms])
    with assms show ?thesis by (simp add: queryEq_other)
  qed
  with assms show ?thesis by (simp add: queryEq_def)
qed

lemma queryEq_trans:
  assumes "queryEq s s1" "queryEq s1 s2"
  shows "queryEq s s2"
proof -
  have "s2 p = s p" if n: "getFrame s p = None" for p
  proof -
    from n have "getFrame s1 p = None" by (simp add: queryEq_getFrame_None [OF assms(1)])
    with assms(2) have "s2 p = s1 p" by (rule queryEq_other)
    with assms(1) n show ?thesis by (simp add: queryEq_other)
  qed
  with assms show ?thesis by (simp add: queryEq_def)
qed

lemma queryEq_pose: "queryEq s s' \<Longrightarrow> worldTransformVal s p T \<Longrightarrow> worldTransformVal s' p T"
  by (simp add: queryEq_def)

lemma queryEq_vel: "queryEq s s' \<Longrightarrow> spatialVelocityVal s p V \<Longrightarrow> spatialVelocityVal s' p V"
  by (simp add: queryEq_def)

lemma queryEq_acc:
  "queryEq s s' \<Longrightarrow> spatialAccelerationVal s p A \<Longrightarrow> spatialAccelerationVal s' p A"
  by (simp add: queryEq_def)

lemma queryEq_isWorld:
  assumes "queryEq s s'"
  shows "isWorld s' p = isWorld s p"
proof -
  have "map_option fst (frameCell linkView (s' p)) = map_option fst (frameCell linkView (s p))"
    using queryEq_link [OF assms, of p] by simp
  then show ?thesis
    by (simp add: frameCell_getFrame isWorld_def linkView_def option.map_comp comp_def)
qed

lemma queryEq_frame:
  assumes "queryEq s s'" "getFrame s p = Some f"
  obtains f' where "getFrame s' p = Some f'" "mParentFrame f' = mParentFrame f"
    "relativeTransform f' = relativeTransform f" "mAmWorld f' = mAmWorld f"
proof -
  from queryEq_link [OF assms(1), of p] assms(2)
  obtain f' where f': "getFrame s' p = Some f'" "linkView f' = linkView f"
    by (rule frameCell_eq_frame)
  from f'(2) have "mParentFrame f' = mParentFrame f"
    "relativeTransform f' = relativeTransform f" "mAmWorld f' = mAmWorld f"
    by (simp_all add: linkView_def)
  with f'(1) show ?thesis by (rule that)
qed

text \<open>Heaps that agree on what a quantity reads give it the same values.\<close>

lemma worldTransformVal_cong:
  assumes "\<And>q. frameCell tfView (s' q) = frameCell tfView (s q)"
  shows "worldTransformVal s' p = worldTransformVal s p"
proof (rule ext, rule iffI)
  fix T assume "worldTransformVal s' p T"
  then obtain n where "worldTransformOf s' p n T" unfolding worldTransformVal_def ..
  then have "worldTransformOf s p n T"
    by (rule worldTransformOf_cong) (simp add: assms)
  then show "worldTransformVal s p T" unfolding worldTransformVal_def ..
next
  fix T assume "worldTransformVal s p T"
  then obtain n where "worldTransformOf s p n T" unfolding worldTransformVal_def ..
  then have "worldTransformOf s' p n T"
    by (rule worldTransformOf_cong) (simp add: assms)
  then show "worldTransformVal s' p T" unfolding worldTransformVal_def ..
qed

lemma spatialVelocityVal_cong:
  assumes "\<And>q. frameCell velView (s' q) = frameCell velView (s q)"
  shows "spatialVelocityVal s' p = spatialVelocityVal s p"
proof (rule ext, rule iffI)
  fix T assume "spatialVelocityVal s' p T"
  then obtain n where "spatialVelocityOf s' p n T" unfolding spatialVelocityVal_def ..
  then have "spatialVelocityOf s p n T"
    by (rule spatialVelocityOf_cong) (simp add: assms)
  then show "spatialVelocityVal s p T" unfolding spatialVelocityVal_def ..
next
  fix T assume "spatialVelocityVal s p T"
  then obtain n where "spatialVelocityOf s p n T" unfolding spatialVelocityVal_def ..
  then have "spatialVelocityOf s' p n T"
    by (rule spatialVelocityOf_cong) (simp add: assms)
  then show "spatialVelocityVal s' p T" unfolding spatialVelocityVal_def ..
qed

lemma spatialAccelerationVal_cong:
  assumes "\<And>q. frameCell accView (s' q) = frameCell accView (s q)"
  shows "spatialAccelerationVal s' p = spatialAccelerationVal s p"
proof (rule ext, rule iffI)
  fix T assume "spatialAccelerationVal s' p T"
  then obtain n where "spatialAccelerationOf s' p n T" unfolding spatialAccelerationVal_def ..
  then have "spatialAccelerationOf s p n T"
    by (rule spatialAccelerationOf_cong) (simp add: assms)
  then show "spatialAccelerationVal s p T" unfolding spatialAccelerationVal_def ..
next
  fix T assume "spatialAccelerationVal s p T"
  then obtain n where "spatialAccelerationOf s p n T" unfolding spatialAccelerationVal_def ..
  then have "spatialAccelerationOf s' p n T"
    by (rule spatialAccelerationOf_cong) (simp add: assms)
  then show "spatialAccelerationVal s' p T" unfolding spatialAccelerationVal_def ..
qed

lemma poseTouched_queryEq:
  assumes t: "poseTouched s n s'"
  shows "queryEq s s'"
  unfolding queryEq_def
proof (intro allI conjI)
  fix p
  show "worldTransformVal s' p = worldTransformVal s p"
  proof (rule ext, rule iffI)
    fix T assume "worldTransformVal s' p T"
    then obtain m where "worldTransformOf s' p m T" unfolding worldTransformVal_def ..
    from poseTouched_backward [OF this t]
    show "worldTransformVal s p T" unfolding worldTransformVal_def .
  next
    fix T assume "worldTransformVal s p T"
    then obtain m where "worldTransformOf s p m T" unfolding worldTransformVal_def ..
    from poseTouched_forward [OF this t]
    show "worldTransformVal s' p T" unfolding worldTransformVal_def .
  qed
  show "spatialVelocityVal s' p = spatialVelocityVal s p"
    by (rule spatialVelocityVal_cong) (rule poseTouched_other_views [OF t])
  show "spatialAccelerationVal s' p = spatialAccelerationVal s p"
    by (rule spatialAccelerationVal_cong) (rule poseTouched_other_views [OF t])
  show "frameCell linkView (s' p) = frameCell linkView (s p)"
    by (rule poseTouched_other_views [OF t])
  show "frameCell worldView (s' p) = frameCell worldView (s p)"
    by (rule poseTouched_world [OF t])
  show "getFrame s p = None \<longrightarrow> s' p = s p"
    using poseTouched_world(2) [OF t] by blast
qed

lemma velTouched_queryEq:
  assumes t: "velTouched s n s'"
  shows "queryEq s s'"
  unfolding queryEq_def
proof (intro allI conjI)
  fix p
  show "spatialVelocityVal s' p = spatialVelocityVal s p"
  proof (rule ext, rule iffI)
    fix T assume "spatialVelocityVal s' p T"
    then obtain m where "spatialVelocityOf s' p m T" unfolding spatialVelocityVal_def ..
    from velTouched_backward [OF this t]
    show "spatialVelocityVal s p T" unfolding spatialVelocityVal_def .
  next
    fix T assume "spatialVelocityVal s p T"
    then obtain m where "spatialVelocityOf s p m T" unfolding spatialVelocityVal_def ..
    from velTouched_forward [OF this t]
    show "spatialVelocityVal s' p T" unfolding spatialVelocityVal_def .
  qed
  show "worldTransformVal s' p = worldTransformVal s p"
    by (rule worldTransformVal_cong) (rule velTouched_other_views [OF t])
  show "spatialAccelerationVal s' p = spatialAccelerationVal s p"
    by (rule spatialAccelerationVal_cong) (rule velTouched_other_views [OF t])
  show "frameCell linkView (s' p) = frameCell linkView (s p)"
    by (rule velTouched_other_views [OF t])
  show "frameCell worldView (s' p) = frameCell worldView (s p)"
    by (rule velTouched_world [OF t])
  show "getFrame s p = None \<longrightarrow> s' p = s p"
    using velTouched_world(2) [OF t] by blast
qed

lemma accTouched_queryEq:
  assumes t: "accTouched s n s'"
  shows "queryEq s s'"
  unfolding queryEq_def
proof (intro allI conjI)
  fix p
  show "spatialAccelerationVal s' p = spatialAccelerationVal s p"
  proof (rule ext, rule iffI)
    fix T assume "spatialAccelerationVal s' p T"
    then obtain m where "spatialAccelerationOf s' p m T" unfolding spatialAccelerationVal_def ..
    from accTouched_backward [OF this t]
    show "spatialAccelerationVal s p T" unfolding spatialAccelerationVal_def .
  next
    fix T assume "spatialAccelerationVal s p T"
    then obtain m where "spatialAccelerationOf s p m T" unfolding spatialAccelerationVal_def ..
    from accTouched_forward [OF this t]
    show "spatialAccelerationVal s' p T" unfolding spatialAccelerationVal_def .
  qed
  show "worldTransformVal s' p = worldTransformVal s p"
    by (rule worldTransformVal_cong) (rule accTouched_other_views [OF t])
  show "spatialVelocityVal s' p = spatialVelocityVal s p"
    by (rule spatialVelocityVal_cong) (rule accTouched_other_views [OF t])
  show "frameCell linkView (s' p) = frameCell linkView (s p)"
    by (rule accTouched_other_views [OF t])
  show "frameCell worldView (s' p) = frameCell worldView (s p)"
    by (rule accTouched_world [OF t])
  show "getFrame s p = None \<longrightarrow> s' p = s p"
    using accTouched_world(2) [OF t] by blast
qed

lemma bump_cells:
  assumes "getFrame s p = Some f"
  shows "frameCell tfView ((s(p \<mapsto> FrameObj (bump f))) q) = frameCell tfView (s q)"
    and "frameCell velView ((s(p \<mapsto> FrameObj (bump f))) q) = frameCell velView (s q)"
    and "frameCell accView ((s(p \<mapsto> FrameObj (bump f))) q) = frameCell accView (s q)"
    and "frameCell linkView ((s(p \<mapsto> FrameObj (bump f))) q) = frameCell linkView (s q)"
    and "frameCell worldView ((s(p \<mapsto> FrameObj (bump f))) q) = frameCell worldView (s q)"
  using assms
  by (simp_all add: frameCell_def getFrame_Some bump_def tfView_def velView_def accView_def
      linkView_def worldView_def)

lemma bump_other:
  "getFrame s p = Some f \<Longrightarrow> getFrame s q = None \<longrightarrow> (s(p \<mapsto> FrameObj (bump f))) q = s q"
  by (cases "q = p") simp_all

lemma bump_queryEq:
  assumes f: "getFrame s p = Some f"
  shows "queryEq s (s(p \<mapsto> FrameObj (bump f)))"
  unfolding queryEq_def
proof (intro allI conjI)
  fix q
  let ?s' = "s(p \<mapsto> FrameObj (bump f))"
  show "worldTransformVal ?s' q = worldTransformVal s q"
    by (rule worldTransformVal_cong) (rule bump_cells [OF f])
  show "spatialVelocityVal ?s' q = spatialVelocityVal s q"
    by (rule spatialVelocityVal_cong) (rule bump_cells [OF f])
  show "spatialAccelerationVal ?s' q = spatialAccelerationVal s q"
    by (rule spatialAccelerationVal_cong) (rule bump_cells [OF f])
  show "frameCell linkView (?s' q) = frameCell linkView (s q)"
    by (rule bump_cells [OF f])
  show "frameCell worldView (?s' q) = frameCell worldView (s q)"
    by (rule bump_cells [OF f])
  show "getFrame s q = None \<longrightarrow> ?s' q = s q"
    by (rule bump_other [OF f])
qed

lemma transparentI:
  assumes "\<And>s v s'. q s = Some (v, s') \<Longrightarrow> val s v \<and> queryEq s s'"
    and "\<And>s v. val s v \<Longrightarrow> \<exists>s'. q s = Some (v, s') \<and> queryEq s s'"
    and "\<And>s s' v. queryEq s s' \<Longrightarrow> val s v \<Longrightarrow> val s' v"
  shows "transparent q val"
  unfolding transparent_def using assms by blast

lemma transparent_value:
  "transparent q val \<Longrightarrow> q s = Some (v, s') \<Longrightarrow> val s v"
  unfolding transparent_def by blast

lemma transparent_heap:
  "transparent q val \<Longrightarrow> q s = Some (v, s') \<Longrightarrow> queryEq s s'"
  unfolding transparent_def by blast

lemma transparent_returns:
  "transparent q val \<Longrightarrow> val s v \<Longrightarrow> \<exists>s'. q s = Some (v, s') \<and> queryEq s s'"
  unfolding transparent_def by blast

lemma transparent_transfer:
  "transparent q val \<Longrightarrow> queryEq s s' \<Longrightarrow> val s v \<Longrightarrow> val s' v"
  unfolding transparent_def by blast

lemma transparent_getWorldTransform:
  "transparent (\<lambda>s. getWorldTransform s p) (\<lambda>s. worldTransformVal s p)"
proof (rule transparentI)
  fix s v s' assume "getWorldTransform s p = Some (v, s')"
  from getWorldTransform_sound [OF this]
  obtain n where "worldTransformOf s p n v" "poseTouched s n s'" by auto
  then show "worldTransformVal s p v \<and> queryEq s s'"
    unfolding worldTransformVal_def using poseTouched_queryEq by blast
next
  fix s v assume "worldTransformVal s p v"
  then obtain n where "worldTransformOf s p n v" unfolding worldTransformVal_def ..
  from getWorldTransform_returns [OF this]
  show "\<exists>s'. getWorldTransform s p = Some (v, s') \<and> queryEq s s'"
    using poseTouched_queryEq by blast
next
  fix s s' v assume "queryEq s s'" "worldTransformVal s p v"
  then show "worldTransformVal s' p v" by (rule queryEq_pose)
qed

lemma transparent_getSpatialVelocity:
  "transparent (\<lambda>s. getSpatialVelocity s p) (\<lambda>s. spatialVelocityVal s p)"
proof (rule transparentI)
  fix s v s' assume "getSpatialVelocity s p = Some (v, s')"
  from getSpatialVelocity_sound [OF this]
  obtain n where "spatialVelocityOf s p n v" "velTouched s n s'" by auto
  then show "spatialVelocityVal s p v \<and> queryEq s s'"
    unfolding spatialVelocityVal_def using velTouched_queryEq by blast
next
  fix s v assume "spatialVelocityVal s p v"
  then obtain n where "spatialVelocityOf s p n v" unfolding spatialVelocityVal_def ..
  from getSpatialVelocity_returns [OF this]
  show "\<exists>s'. getSpatialVelocity s p = Some (v, s') \<and> queryEq s s'"
    using velTouched_queryEq by blast
next
  fix s s' v assume "queryEq s s'" "spatialVelocityVal s p v"
  then show "spatialVelocityVal s' p v" by (rule queryEq_vel)
qed

lemma transparent_getSpatialAcceleration:
  "transparent (\<lambda>s. getSpatialAcceleration s p) (\<lambda>s. spatialAccelerationVal s p)"
proof (rule transparentI)
  fix s v s' assume "getSpatialAcceleration s p = Some (v, s')"
  from getSpatialAcceleration_sound [OF this]
  obtain n where "spatialAccelerationOf s p n v" "accTouched s n s'" by auto
  then show "spatialAccelerationVal s p v \<and> queryEq s s'"
    unfolding spatialAccelerationVal_def using accTouched_queryEq by blast
next
  fix s v assume "spatialAccelerationVal s p v"
  then obtain n where "spatialAccelerationOf s p n v" unfolding spatialAccelerationVal_def ..
  from getSpatialAcceleration_returns [OF this]
  show "\<exists>s'. getSpatialAcceleration s p = Some (v, s') \<and> queryEq s s'"
    using accTouched_queryEq by blast
next
  fix s s' v assume "queryEq s s'" "spatialAccelerationVal s p v"
  then show "spatialAccelerationVal s' p v" by (rule queryEq_acc)
qed

lemma transformVal_queryEq:
  assumes q: "queryEq s s'" and v: "transformVal s this wrt T"
  shows "transformVal s' this wrt T"
  using v
proof (cases rule: transformVal.cases)
  case world
  from world(1) have "isWorld s' wrt = Some True" by (simp add: queryEq_isWorld [OF q])
  moreover from q world(2) have "worldTransformVal s' this T" by (rule queryEq_pose)
  ultimately show ?thesis by (rule transformVal.world)
next
  case (parent f)
  from parent(2) have w: "isWorld s' wrt = Some False" by (simp add: queryEq_isWorld [OF q])
  from q parent(3) obtain f' where f': "getFrame s' this = Some f'"
    "mParentFrame f' = mParentFrame f" "relativeTransform f' = relativeTransform f"
    by (rule queryEq_frame)
  from parent(4) have "Some wrt = mParentFrame f'" by (simp add: f'(2))
  with w f'(1) have "transformVal s' this wrt (relativeTransform f')"
    by (rule transformVal.parent)
  then show ?thesis by (simp add: parent(1) f'(3))
next
  case (general f Tw Tt)
  from general(2) have w: "isWorld s' wrt = Some False" by (simp add: queryEq_isWorld [OF q])
  from q general(3) obtain f' where f': "getFrame s' this = Some f'"
    "mParentFrame f' = mParentFrame f" "relativeTransform f' = relativeTransform f"
    by (rule queryEq_frame)
  from general(4) have np: "Some wrt \<noteq> mParentFrame f'" by (simp add: f'(2))
  from q general(5) have a: "worldTransformVal s' wrt Tw" by (rule queryEq_pose)
  from q general(6) have b: "worldTransformVal s' this Tt" by (rule queryEq_pose)
  from w f'(1) np a b show ?thesis unfolding general(1) by (rule transformVal.general)
qed

lemma getRelativeTransform_bump:
  "getFrame s p = Some f \<Longrightarrow>
   getRelativeTransform s p = Some (relativeTransform f, s(p \<mapsto> FrameObj (bump f)))"
  by (simp add: getRelativeTransform_def bump_def)

lemma getTransform_world:
  "isWorld s wrt = Some True \<Longrightarrow> getTransform s this wrt = getWorldTransform s this"
  by (simp add: getTransform_def)

lemma getTransform_parent:
  "isWorld s wrt = Some False \<Longrightarrow> getFrame s this = Some f \<Longrightarrow> Some wrt = mParentFrame f \<Longrightarrow>
   getTransform s this wrt = Some (relativeTransform f, s(this \<mapsto> FrameObj (bump f)))"
  by (simp add: getTransform_def getRelativeTransform_bump)

lemma getTransform_general:
  "isWorld s wrt = Some False \<Longrightarrow> getFrame s this = Some f \<Longrightarrow> Some wrt \<noteq> mParentFrame f \<Longrightarrow>
   getTransform s this wrt =
     Option.bind (getWorldTransform s wrt) (\<lambda>(Tw, s1).
     Option.bind (getWorldTransform s1 this) (\<lambda>(Tt, s2).
       Some (tmul (inverse_tf Tw) Tt, s2)))"
  by (simp add: getTransform_def)

lemma transparent_getTransform:
  "transparent (\<lambda>s. getTransform s this wrt) (\<lambda>s. transformVal s this wrt)"
proof (rule transparentI)
  fix s v s' assume g: "getTransform s this wrt = Some (v, s')"
  then obtain w where w: "isWorld s wrt = Some w"
    by (cases "isWorld s wrt") (simp_all add: getTransform_def)
  show "transformVal s this wrt v \<and> queryEq s s'"
  proof (cases w)
    case True
    with w have w': "isWorld s wrt = Some True" by simp
    with g have gw: "getWorldTransform s this = Some (v, s')" by (simp add: getTransform_world)
    have "worldTransformVal s this v"
      using transparent_getWorldTransform gw by (rule transparent_value)
    with w' have "transformVal s this wrt v" by (rule transformVal.world)
    moreover have "queryEq s s'"
      using transparent_getWorldTransform gw by (rule transparent_heap)
    ultimately show ?thesis ..
  next
    case False
    with w have w': "isWorld s wrt = Some False" by simp
    from g w' obtain f where f: "getFrame s this = Some f"
      by (cases "getFrame s this") (simp_all add: getTransform_def)
    show ?thesis
    proof (cases "Some wrt = mParentFrame f")
      case True
      from g have "v = relativeTransform f" "s' = s(this \<mapsto> FrameObj (bump f))"
        unfolding getTransform_parent [OF w' f True] by simp_all
      moreover have "transformVal s this wrt (relativeTransform f)"
        using w' f True by (rule transformVal.parent)
      moreover have "queryEq s (s(this \<mapsto> FrameObj (bump f)))"
        using f by (rule bump_queryEq)
      ultimately show ?thesis by simp
    next
      case False
      note ge = getTransform_general [OF w' f False]
      from g obtain Tw s1 where a: "getWorldTransform s wrt = Some (Tw, s1)"
        unfolding ge by (cases "getWorldTransform s wrt") auto
      from g a obtain Tt s2 where b: "getWorldTransform s1 this = Some (Tt, s2)"
        unfolding ge by (cases "getWorldTransform s1 this") auto
      from g a b have r: "v = tmul (inverse_tf Tw) Tt" "s' = s2"
        unfolding ge by simp_all
      have va: "worldTransformVal s wrt Tw"
        using transparent_getWorldTransform a by (rule transparent_value)
      have qa: "queryEq s s1"
        using transparent_getWorldTransform a by (rule transparent_heap)
      have vb: "worldTransformVal s1 this Tt"
        using transparent_getWorldTransform b by (rule transparent_value)
      have qb: "queryEq s1 s2"
        using transparent_getWorldTransform b by (rule transparent_heap)
      from queryEq_sym [OF qa] vb have vb': "worldTransformVal s this Tt"
        by (rule queryEq_pose)
      have "transformVal s this wrt (tmul (inverse_tf Tw) Tt)"
        using w' f False va vb' by (rule transformVal.general)
      moreover from qa qb have "queryEq s s2" by (rule queryEq_trans)
      ultimately show ?thesis unfolding r ..
    qed
  qed
next
  fix s v assume "transformVal s this wrt v"
  then show "\<exists>s'. getTransform s this wrt = Some (v, s') \<and> queryEq s s'"
  proof (cases rule: transformVal.cases)
    case world
    from transparent_returns [OF transparent_getWorldTransform world(2)]
    show ?thesis unfolding getTransform_world [OF world(1)] .
  next
    case (parent f)
    have "queryEq s (s(this \<mapsto> FrameObj (bump f)))"
      using parent(3) by (rule bump_queryEq)
    then show ?thesis
      unfolding getTransform_parent [OF parent(2,3,4)] parent(1) by simp
  next
    case (general f Tw Tt)
    from transparent_returns [OF transparent_getWorldTransform general(5)]
    obtain s1 where a: "getWorldTransform s wrt = Some (Tw, s1)" and qa: "queryEq s s1"
      by blast
    from qa general(6) have "worldTransformVal s1 this Tt" by (rule queryEq_pose)
    from transparent_returns [OF transparent_getWorldTransform this]
    obtain s2 where b: "getWorldTransform s1 this = Some (Tt, s2)" and qb: "queryEq s1 s2"
      by blast
    from qa qb have "queryEq s s2" by (rule queryEq_trans)
    then show ?thesis
      unfolding getTransform_general [OF general(2,3,4)] general(1) by (simp add: a b)
  qed
next
  fix s s' v assume "queryEq s s'" "transformVal s this wrt v"
  then show "transformVal s' this wrt v" by (rule transformVal_queryEq)
qed

text \<open>Queries in sequence.\<close>

lemma transparent_return:
  "transparent (\<lambda>s. Some (c, s)) (\<lambda>s v. v = c)"
  by (rule transparentI) (simp_all add: queryEq_refl)

lemma transparent_bind:
  assumes q: "transparent q val" and k: "\<And>a. transparent (k a) (w a)"
  shows "transparent (\<lambda>s. Option.bind (q s) (\<lambda>(a, s1). k a s1))
           (\<lambda>s b. \<exists>a. val s a \<and> w a s b)"
proof (rule transparentI)
  fix s v s' assume g: "Option.bind (q s) (\<lambda>(a, s1). k a s1) = Some (v, s')"
  then obtain a s1 where a: "q s = Some (a, s1)"
    by (cases "q s") auto
  with g have b: "k a s1 = Some (v, s')" by simp
  have va: "val s a" using q a by (rule transparent_value)
  have qa: "queryEq s s1" using q a by (rule transparent_heap)
  have vb: "w a s1 v" using k b by (rule transparent_value)
  have qb: "queryEq s1 s'" using k b by (rule transparent_heap)
  have "w a s v" using k queryEq_sym [OF qa] vb by (rule transparent_transfer)
  with va have "\<exists>a. val s a \<and> w a s v" by blast
  moreover from qa qb have "queryEq s s'" by (rule queryEq_trans)
  ultimately show "(\<exists>a. val s a \<and> w a s v) \<and> queryEq s s'" ..
next
  fix s v assume "\<exists>a. val s a \<and> w a s v"
  then obtain a where va: "val s a" and vb: "w a s v" by blast
  from transparent_returns [OF q va]
  obtain s1 where a: "q s = Some (a, s1)" and qa: "queryEq s s1" by blast
  have "w a s1 v" using k qa vb by (rule transparent_transfer)
  from transparent_returns [OF k this]
  obtain s2 where b: "k a s1 = Some (v, s2)" and qb: "queryEq s1 s2" by blast
  from qa qb have "queryEq s s2" by (rule queryEq_trans)
  with a b show "\<exists>s'. Option.bind (q s) (\<lambda>(a, s1). k a s1) = Some (v, s') \<and> queryEq s s'"
    by simp
next
  fix s s' v assume e: "queryEq s s'" and "\<exists>a. val s a \<and> w a s v"
  then obtain a where va: "val s a" and vb: "w a s v" by blast
  have "val s' a" using q e va by (rule transparent_transfer)
  moreover have "w a s' v" using k e vb by (rule transparent_transfer)
  ultimately show "\<exists>a. val s' a \<and> w a s' v" by blast
qed

lemma transparent_getSpatialVelocity2:
  "transparent (\<lambda>s. getSpatialVelocity2 s this relativeTo inCoordinatesOf)
     (relativeVelocityVal this relativeTo inCoordinatesOf)"
  unfolding getSpatialVelocity2_def relativeVelocityVal_def
  by (intro transparent_bind transparent_getTransform transparent_getSpatialVelocity
      transparent_return)

lemma transparent_getSpatialAcceleration2:
  "transparent (\<lambda>s. getSpatialAcceleration2 s this relativeTo inCoordinatesOf)
     (relativeAccelerationVal this relativeTo inCoordinatesOf)"
  unfolding getSpatialAcceleration2_def relativeAccelerationVal_def
  by (intro transparent_bind transparent_getTransform transparent_getSpatialVelocity
      transparent_getSpatialAcceleration transparent_getSpatialVelocity2 transparent_return)

lemma transparent_getLinearAcceleration:
  "transparent (\<lambda>s. getLinearAcceleration s this relativeTo inCoordinatesOf)
     (linearAccelerationVal this relativeTo inCoordinatesOf)"
  unfolding getLinearAcceleration_def linearAccelerationVal_def
  by (intro transparent_bind transparent_getSpatialVelocity2
      transparent_getSpatialAcceleration2 transparent_return)

section \<open>Rigid transforms and well-formed chains\<close>





















lemma transparent_fst_value:
  assumes "transparent q val" "map_option fst (q s) = Some v"
  shows "val s v"
proof -
  from assms(2) obtain s' where "q s = Some (v, s')" by (cases "q s") auto
  with assms(1) show ?thesis by (rule transparent_value)
qed

lemma transparent_fst_returns:
  assumes "transparent q val" "val s v"
  shows "map_option fst (q s) = Some v"
  using transparent_returns [OF assms] by auto

section \<open>The World frame through the operations\<close>

lemma flagsKept_refl: "flagsKept b f f"
  by (simp add: flagsKept_def)

lemma flagsKept_trans: "flagsKept b f g \<Longrightarrow> flagsKept b g h \<Longrightarrow> flagsKept b f h"
  by (simp add: flagsKept_def)

lemma worldCellStep_refl: "worldCellStep b x x"
  by (simp add: worldCellStep_def flagsKept_refl split: option.splits obj.splits)

lemma worldCellStep_eq: "y = x \<Longrightarrow> worldCellStep b x y"
  by (simp add: worldCellStep_refl)

lemma worldCellStep_absent:
  assumes "worldCellStep b None y"
  obtains "y = None"
  | f' where "y = Some (FrameObj f')" "mAmWorld f'" "worldCache f' = (Identity, Zero6, Zero6)"
  using assms unfolding worldCellStep_def by auto

lemma worldCellStep_world:
  assumes "worldCellStep b (Some (FrameObj f)) y" "mAmWorld f"
  obtains f' where "y = Some (FrameObj f')" "mAmWorld f'" "worldCache f' = worldCache f"
    "flagsKept b f f'"
  using assms unfolding worldCellStep_def by auto

lemma worldCellStep_worldI:
  assumes "mAmWorld f \<Longrightarrow> mAmWorld f' \<and> worldCache f' = worldCache f \<and> flagsKept b f f'"
  shows "worldCellStep b (Some (FrameObj f)) (Some (FrameObj f'))"
  using assms unfolding worldCellStep_def by simp

lemma worldCellStep_trans:
  assumes xy: "worldCellStep b x y" and yz: "worldCellStep b y z"
  shows "worldCellStep b x z"
proof (cases x)
  case None
  from xy [unfolded None] show ?thesis
  proof (cases rule: worldCellStep_absent)
    case 1
    with yz None show ?thesis by simp
  next
    case (2 f')
    from yz [unfolded 2(1)] 2(2) obtain g where g: "z = Some (FrameObj g)" "mAmWorld g"
      "worldCache g = worldCache f'"
      by (rule worldCellStep_world)
    with 2(3) None show ?thesis by (simp add: worldCellStep_def)
  qed
next
  case (Some a)
  show ?thesis
  proof (cases a)
    case (FrameObj f)
    show ?thesis
    proof (cases "mAmWorld f")
      case True
      from xy [unfolded Some FrameObj] True
      obtain f' where f': "y = Some (FrameObj f')" "mAmWorld f'" "worldCache f' = worldCache f"
        "flagsKept b f f'"
        by (rule worldCellStep_world)
      from yz [unfolded f'(1)] f'(2)
      obtain g where g: "z = Some (FrameObj g)" "mAmWorld g" "worldCache g = worldCache f'"
        "flagsKept b f' g"
        by (rule worldCellStep_world)
      from f'(4) g(4) have "flagsKept b f g" by (rule flagsKept_trans)
      with g(1,2,3) f'(3) show ?thesis
        unfolding Some FrameObj by (simp add: worldCellStep_def)
    next
      case False
      then show ?thesis unfolding Some FrameObj by (simp add: worldCellStep_def)
    qed
  qed (simp_all add: Some worldCellStep_def)
qed

lemma worldCellStep_notifies: "worldCellStep False x y \<Longrightarrow> worldCellStep b x y"
  unfolding worldCellStep_def flagsKept_def
  by (cases x) (auto split: obj.splits)

lemma worldCellStep_worldCell:
  assumes "worldCellStep b x y" "worldCell x"
  shows "worldCell y"
proof (cases x)
  case None
  from assms(1) [unfolded None] show ?thesis
    by (cases rule: worldCellStep_absent) (simp_all add: worldCell_def)
next
  case (Some a)
  with assms(2) obtain f where f: "a = FrameObj f" "mAmWorld f"
    "worldCache f = (Identity, Zero6, Zero6)"
    by (cases a) (simp_all add: worldCell_def)
  from assms(1) [unfolded Some f(1)] f(2)
  obtain f' where "y = Some (FrameObj f')" "mAmWorld f'" "worldCache f' = worldCache f"
    by (rule worldCellStep_world)
  with f(3) show ?thesis by (simp add: worldCell_def)
qed

text \<open>The notify methods.\<close>

lemma raisedObj_worldCellStep:
  assumes "raisedObj T V A x y"
  shows "worldCellStep True x y"
  using assms
proof (cases rule: raisedObj_cases)
  case 1
  then show ?thesis by (rule worldCellStep_eq)
next
  case (2 f tT tV tA)
  show ?thesis unfolding 2(4,5)
    by (rule worldCellStep_worldI) (simp add: worldCache_def flagsKept_def)
qed

lemma raisedBy_worldCellStep: "raisedBy T V A s s' \<Longrightarrow> worldCellStep True (s q) (s' q)"
  unfolding raisedBy_def by (blast intro: raisedObj_worldCellStep)

text \<open>Reparenting.\<close>

lemma restObj_worldCellStep:
  assumes "map_option restObj y = map_option restObj x"
  shows "worldCellStep b x y"
proof (cases x)
  case None
  with assms have "y = None" by simp
  with None show ?thesis by (simp add: worldCellStep_def)
next
  case (Some a)
  with assms obtain c where c: "y = Some c" "restObj c = restObj a"
    by (cases y) simp_all
  show ?thesis
  proof (cases a)
    case (FrameObj f)
    from c(2) FrameObj obtain f' where f': "c = FrameObj f'"
      by (cases c) (simp_all add: restObj_def)
    from c(2) have r: "restObj (FrameObj f') = restObj (FrameObj f)"
      unfolding f' FrameObj .
    note e = restObj_frame_fields [OF r]
    show ?thesis unfolding Some FrameObj c(1) f'
      by (rule worldCellStep_worldI) (simp add: worldCache_def flagsKept_def worldFlags_def e)
  qed (simp_all add: Some worldCellStep_def)
qed

lemma relinked_worldCellStep: "relinked P CE CF s s' \<Longrightarrow> worldCellStep b (s q) (s' q)"
  unfolding relinked_def relinkedObj_def by (blast intro: restObj_worldCellStep)

lemma virtual_changeParentFrame_relinked:
  assumes "virtual_changeParentFrame s e np = Some (out, s')"
  shows "relinked {e} {e} {e} s s'"
proof (cases "s e")
  case None
  with assms show ?thesis by (simp add: virtual_changeParentFrame_def)
next
  case (Some a)
  show ?thesis
  proof (cases a)
    case (FrameObj f)
    with Some assms have "changeParentFrame s e np = Some (out, s')"
      by (simp add: virtual_changeParentFrame_def)
    then show ?thesis by (rule changeParentFrame_relinked)
  next
    case (EntityObj x)
    with Some assms have "Entity_changeParentFrame s e np = Some s'"
      by (cases "Entity_changeParentFrame s e np")
         (simp_all add: virtual_changeParentFrame_def)
    then have "relinked {e} {e} {} s s'" by (rule Entity_changeParentFrame_relinked)
    then show ?thesis by (rule relinked_mono) simp_all
  next
    case ShapeObj
    with Some assms show ?thesis by (simp add: virtual_changeParentFrame_def)
  qed
qed

text \<open>The accessor of the World frame, and its constructor.\<close>

lemma World_address: "World s = Some (w, out, s') \<Longrightarrow> w = worldAddr"
  by (cases "s worldAddr"; cases "WorldFrame_ctor s worldAddr") (auto simp add: World_def)

lemma World_worldCellStep:
  assumes "World s = Some (w, out, s')"
  shows "worldCellStep b (s worldAddr) (s' worldAddr)"
proof (cases "s worldAddr")
  case None
  let ?s0 = "s(worldAddr \<mapsto> FrameObj newWorldFrame)"
  from assms None have "changeParentFrame ?s0 worldAddr (Some worldAddr) = Some (out, s')"
    by (cases "changeParentFrame ?s0 worldAddr (Some worldAddr)")
       (auto simp add: World_def WorldFrame_ctor_def)
  then have "relinked {worldAddr} {worldAddr} {worldAddr} ?s0 s'"
    by (rule changeParentFrame_relinked)
  then have "worldCellStep b (?s0 worldAddr) (s' worldAddr)"
    by (rule relinked_worldCellStep)
  then have "worldCellStep b (Some (FrameObj newWorldFrame)) (s' worldAddr)" by simp
  moreover have "mAmWorld newWorldFrame" by (simp add: newWorldFrame_def)
  ultimately obtain f' where "s' worldAddr = Some (FrameObj f')" "mAmWorld f'"
    "worldCache f' = worldCache newWorldFrame"
    by (rule worldCellStep_world)
  then show ?thesis
    unfolding None by (simp add: worldCellStep_def worldCache_def newWorldFrame_def)
next
  case (Some x)
  with assms have "s' = s" by (simp add: World_def)
  then show ?thesis by (simp add: worldCellStep_refl)
qed

lemma World_constructed:
  assumes "World s = Some (w, out, s')" "worldCell (s worldAddr)"
  obtains f where "s' worldAddr = Some (FrameObj f)" "mAmWorld f"
    "worldCache f = (Identity, Zero6, Zero6)"
proof -
  from World_worldCellStep [OF assms(1)] assms(2) have c: "worldCell (s' worldAddr)"
    by (rule worldCellStep_worldCell)
  have "s' worldAddr \<noteq> None"
  proof (cases "s worldAddr")
    case None
    let ?s0 = "s(worldAddr \<mapsto> FrameObj newWorldFrame)"
    from assms(1) None have "changeParentFrame ?s0 worldAddr (Some worldAddr) = Some (out, s')"
      by (cases "changeParentFrame ?s0 worldAddr (Some worldAddr)")
         (auto simp add: World_def WorldFrame_ctor_def)
    then have "relinked {worldAddr} {worldAddr} {worldAddr} ?s0 s'"
      by (rule changeParentFrame_relinked)
    moreover have "getFrame ?s0 worldAddr = Some newWorldFrame" by (rule getFrame_upd_same)
    ultimately obtain g where "getFrame s' worldAddr = Some g" by (rule relinked_frame)
    then show ?thesis by (simp add: getFrame_Some)
  next
    case (Some x)
    with assms(1) have "s' = s" by (simp add: World_def)
    with Some show ?thesis by simp
  qed
  with c show ?thesis
    by (cases "s' worldAddr") (auto simp add: worldCell_def split: obj.splits intro: that)
qed

lemma World_returns:
  "\<exists>out s'. World s = Some (worldAddr, out, s')"
proof (cases "s worldAddr")
  case None
  let ?s0 = "s(worldAddr \<mapsto> FrameObj newWorldFrame)"
  have "getFrame ?s0 worldAddr = Some newWorldFrame" by (rule getFrame_upd_same)
  moreover have "mAmWorld newWorldFrame" "mAmQuiet newWorldFrame"
    "mParentFrame newWorldFrame = None \<or> mParentFrame newWorldFrame = Some worldAddr"
    by (simp_all add: newWorldFrame_def)
  ultimately have "\<exists>s' f'. changeParentFrame ?s0 worldAddr (Some worldAddr) = Some ([], s') \<and>
           getFrame s' worldAddr = Some f' \<and> mParentFrame f' = Some worldAddr"
    by (rule changeParentFrame_world_bootstrap)
  then obtain s' where "changeParentFrame ?s0 worldAddr (Some worldAddr) = Some ([], s')"
    by blast
  with None show ?thesis by (simp add: World_def WorldFrame_ctor_def)
next
  case (Some x)
  then show ?thesis by (simp add: World_def)
qed

text \<open>The destructor.\<close>

lemma reparentToWorld_worldCellStep:
  "reparentToWorld cs s = Some (out, s') \<Longrightarrow> worldCellStep b (s worldAddr) (s' worldAddr)"
proof (induction cs arbitrary: s out s')
  case Nil
  then show ?case by (simp add: worldCellStep_refl)
next
  case (Cons c cs)
  from Cons.prems obtain w out0 s0 where a: "World s = Some (w, out0, s0)"
    by (cases "World s") auto
  from Cons.prems a obtain out1 s1 where
    b: "virtual_changeParentFrame s0 c (Some w) = Some (out1, s1)"
    by (cases "virtual_changeParentFrame s0 c (Some w)") auto
  from Cons.prems a b obtain out2 where c: "reparentToWorld cs s1 = Some (out2, s')"
    by (cases "reparentToWorld cs s1") auto
  have "worldCellStep b (s worldAddr) (s0 worldAddr)"
    using a by (rule World_worldCellStep)
  moreover have "worldCellStep b (s0 worldAddr) (s1 worldAddr)"
    using virtual_changeParentFrame_relinked [OF b] by (rule relinked_worldCellStep)
  ultimately have "worldCellStep b (s worldAddr) (s1 worldAddr)"
    by (rule worldCellStep_trans)
  moreover have "worldCellStep b (s1 worldAddr) (s' worldAddr)"
    using c by (rule Cons.IH)
  ultimately show ?case by (rule worldCellStep_trans)
qed

lemma deleteShapes_worldCellStep:
  assumes "deleteShapes ps s = Some s'"
  shows "worldCellStep b (s q) (s' q)"
proof (cases "q \<in> set ps")
  case True
  with deleteShapes_effect [OF assms] have "s q = Some ShapeObj" by blast
  then show ?thesis by (simp add: worldCellStep_def)
next
  case False
  with deleteShapes_effect [OF assms] have "s' q = s q" by blast
  then show ?thesis by (rule worldCellStep_eq)
qed

lemma clearShapes_worldCellStep:
  assumes "getFrame s p = Some f"
  shows "worldCellStep b (s q) ((s(p \<mapsto> FrameObj (f\<lparr>mVizShapes := []\<rparr>))) q)"
proof (cases "q = p")
  case True
  from assms have "s p = Some (FrameObj f)" by (simp only: getFrame_Some)
  then have "worldCellStep b (s p) (Some (FrameObj (f\<lparr>mVizShapes := []\<rparr>)))"
    by (simp add: worldCellStep_def worldCache_def flagsKept_def worldFlags_def)
  with True show ?thesis by simp
next
  case False
  then show ?thesis by (simp add: worldCellStep_refl)
qed

lemma Frame_dtor_worldCellStep:
  assumes "Frame_dtor s p = Some (out, s')"
  shows "worldCellStep b (s worldAddr) (s' worldAddr)"
proof -
  from assms obtain f where f: "getFrame s p = Some f"
    by (cases "getFrame s p") (simp_all add: Frame_dtor_def)
  show ?thesis
  proof (cases "mAmWorld f")
    case True
    with assms f have "s' = s" by (simp add: Frame_dtor_def)
    then show ?thesis by (simp add: worldCellStep_refl)
  next
    case False
    from assms f False obtain out1 s1 and f1 :: Frame and out2 s2 and f2 :: Frame
      and s3 and f3 :: Frame where
      a: "changeParentFrame s p None = Some (out1, s1)" and
      a': "getFrame s1 p = Some f1" and
      b: "reparentToWorld (mChildEntities f1) s1 = Some (out2, s2)" and
      b': "getFrame s2 p = Some f2" and
      c: "deleteShapes (mVizShapes f2) s2 = Some s3" and
      d: "getFrame s3 p = Some f3" and
      r: "(out, s') = (out1 @ out2, s3(p \<mapsto> FrameObj (f3\<lparr>mVizShapes := []\<rparr>)))"
      by (rule Frame_dtor_steps) (rule that)
    have "worldCellStep b (s worldAddr) (s1 worldAddr)"
      using changeParentFrame_relinked(1) [OF a] by (rule relinked_worldCellStep)
    moreover have "worldCellStep b (s1 worldAddr) (s2 worldAddr)"
      using b by (rule reparentToWorld_worldCellStep)
    ultimately have "worldCellStep b (s worldAddr) (s2 worldAddr)"
      by (rule worldCellStep_trans)
    moreover have "worldCellStep b (s2 worldAddr) (s3 worldAddr)"
      using c by (rule deleteShapes_worldCellStep)
    ultimately have "worldCellStep b (s worldAddr) (s3 worldAddr)"
      by (rule worldCellStep_trans)
    moreover have "worldCellStep b (s3 worldAddr)
        ((s3(p \<mapsto> FrameObj (f3\<lparr>mVizShapes := []\<rparr>))) worldAddr)"
      using d by (rule clearShapes_worldCellStep)
    ultimately have "worldCellStep b (s worldAddr)
        ((s3(p \<mapsto> FrameObj (f3\<lparr>mVizShapes := []\<rparr>))) worldAddr)"
      by (rule worldCellStep_trans)
    with r show ?thesis by simp
  qed
qed

text \<open>The queries.\<close>

lemma queryEq_worldCellStep:
  assumes "queryEq s s'"
  shows "worldCellStep b (s q) (s' q)"
proof (cases "getFrame s q")
  case None
  with assms have "s' q = s q" by (rule queryEq_other)
  then show ?thesis by (rule worldCellStep_eq)
next
  case (Some f)
  then have c: "s q = Some (FrameObj f)" by (simp only: getFrame_Some)
  from assms have "frameCell worldView (s' q) = frameCell worldView (s q)"
    by (simp add: queryEq_def)
  from this Some obtain f' where f': "getFrame s' q = Some f'" "worldView f' = worldView f"
    by (rule frameCell_eq_frame)
  from f'(1) have c': "s' q = Some (FrameObj f')" by (simp only: getFrame_Some)
  show ?thesis unfolding c c'
  proof (rule worldCellStep_worldI)
    assume "mAmWorld f"
    with f'(2) show "mAmWorld f' \<and> worldCache f' = worldCache f \<and> flagsKept b f f'"
      by (simp add: worldView_def worldCache_def flagsKept_def worldFlags_def
          split: if_splits)
  qed
qed

lemma transparent_AdR:
  assumes "transparent q val" "transparent r w"
  shows "transparent
           (\<lambda>s. Option.bind (q s) (\<lambda>(T, s1). Option.bind (r s1) (\<lambda>(V, s2). Some (AdR T V, s2))))
           (\<lambda>s v. \<exists>T. val s T \<and> (\<exists>V. w s V \<and> v = AdR T V))"
  by (intro transparent_bind assms transparent_return)

lemma getSpatialVelocity1_queryEq:
  assumes g: "getSpatialVelocity1 s this c = Some (v, s')"
  shows "queryEq s s'"
proof (cases "this = c")
  case True
  with g have "getSpatialVelocity s this = Some (v, s')" by (simp add: getSpatialVelocity1_def)
  with transparent_getSpatialVelocity show ?thesis by (rule transparent_heap)
next
  case False
  with g obtain w where w: "isWorld s c = Some w"
    by (cases "isWorld s c") (simp_all add: getSpatialVelocity1_def)
  show ?thesis
  proof (cases w)
    case True
    with g False w have
      "Option.bind (getWorldTransform s this) (\<lambda>(T, s1).
         Option.bind (getSpatialVelocity s1 this) (\<lambda>(V, s2). Some (AdR T V, s2))) = Some (v, s')"
      by (simp add: getSpatialVelocity1_def)
    with transparent_AdR [OF transparent_getWorldTransform transparent_getSpatialVelocity]
    show ?thesis by (rule transparent_heap)
  next
    case f: False
    with g False w have
      "Option.bind (getTransform s this c) (\<lambda>(T, s1).
         Option.bind (getSpatialVelocity s1 this) (\<lambda>(V, s2). Some (AdR T V, s2))) = Some (v, s')"
      by (simp add: getSpatialVelocity1_def)
    with transparent_AdR [OF transparent_getTransform transparent_getSpatialVelocity]
    show ?thesis by (rule transparent_heap)
  qed
qed

lemma getSpatialAcceleration1_queryEq:
  assumes g: "getSpatialAcceleration1 s this c = Some (v, s')"
  shows "queryEq s s'"
proof (cases "this = c")
  case True
  with g have "getSpatialAcceleration s this = Some (v, s')"
    by (simp add: getSpatialAcceleration1_def)
  with transparent_getSpatialAcceleration show ?thesis by (rule transparent_heap)
next
  case False
  with g obtain w where w: "isWorld s c = Some w"
    by (cases "isWorld s c") (simp_all add: getSpatialAcceleration1_def)
  show ?thesis
  proof (cases w)
    case True
    with g False w have
      "Option.bind (getWorldTransform s this) (\<lambda>(T, s1).
         Option.bind (getSpatialAcceleration s1 this) (\<lambda>(V, s2). Some (AdR T V, s2))) =
       Some (v, s')"
      by (simp add: getSpatialAcceleration1_def)
    with transparent_AdR [OF transparent_getWorldTransform transparent_getSpatialAcceleration]
    show ?thesis by (rule transparent_heap)
  next
    case f: False
    with g False w have
      "Option.bind (getTransform s this c) (\<lambda>(T, s1).
         Option.bind (getSpatialAcceleration s1 this) (\<lambda>(V, s2). Some (AdR T V, s2))) =
       Some (v, s')"
      by (simp add: getSpatialAcceleration1_def)
    with transparent_AdR [OF transparent_getTransform transparent_getSpatialAcceleration]
    show ?thesis by (rule transparent_heap)
  qed
qed

lemma getLinearVelocity_queryEq:
  assumes "getLinearVelocity s p q c = Some (v, s')"
  shows "queryEq s s'"
proof -
  from assms obtain V where "getSpatialVelocity2 s p q c = Some (V, s')"
    by (cases "getSpatialVelocity2 s p q c") (auto simp add: getLinearVelocity_def)
  with transparent_getSpatialVelocity2 show ?thesis by (rule transparent_heap)
qed

lemma getAngularVelocity_queryEq:
  assumes "getAngularVelocity s p q c = Some (v, s')"
  shows "queryEq s s'"
proof -
  from assms obtain V where "getSpatialVelocity2 s p q c = Some (V, s')"
    by (cases "getSpatialVelocity2 s p q c") (auto simp add: getAngularVelocity_def)
  with transparent_getSpatialVelocity2 show ?thesis by (rule transparent_heap)
qed

lemma getAngularAcceleration_queryEq:
  assumes "getAngularAcceleration s p q c = Some (v, s')"
  shows "queryEq s s'"
proof -
  from assms obtain V where "getSpatialAcceleration2 s p q c = Some (V, s')"
    by (cases "getSpatialAcceleration2 s p q c") (auto simp add: getAngularAcceleration_def)
  with transparent_getSpatialAcceleration2 show ?thesis by (rule transparent_heap)
qed

lemma getRelativeTransform_queryEq:
  assumes "getRelativeTransform s p = Some (T, s')"
  shows "queryEq s s'"
proof -
  from assms obtain f where f: "getFrame s p = Some f"
    by (cases "getFrame s p") (simp_all add: getRelativeTransform_def)
  with assms have "s' = s(p \<mapsto> FrameObj (bump f))" by (simp add: getRelativeTransform_bump)
  with bump_queryEq [OF f] show ?thesis by simp
qed

text \<open>Every operation.\<close>

lemma frameStep_worldCellStep:
  assumes "frameStep b s s'"
  shows "worldCellStep b (s worldAddr) (s' worldAddr)"
  using assms
proof (cases rule: frameStep.cases)
  case (World w out)
  then show ?thesis by (rule World_worldCellStep)
next
  case (getRelativeTransform p T)
  then have "queryEq s s'" by (rule getRelativeTransform_queryEq)
  then show ?thesis by (rule queryEq_worldCellStep)
next
  case (getWorldTransform p T)
  with transparent_getWorldTransform have "queryEq s s'" by (rule transparent_heap)
  then show ?thesis by (rule queryEq_worldCellStep)
next
  case (getTransform p q T)
  with transparent_getTransform have "queryEq s s'" by (rule transparent_heap)
  then show ?thesis by (rule queryEq_worldCellStep)
next
  case (getSpatialVelocity p V)
  with transparent_getSpatialVelocity have "queryEq s s'" by (rule transparent_heap)
  then show ?thesis by (rule queryEq_worldCellStep)
next
  case (getSpatialVelocity1 p c V)
  then have "queryEq s s'" by (rule getSpatialVelocity1_queryEq)
  then show ?thesis by (rule queryEq_worldCellStep)
next
  case (getSpatialVelocity2 p q c V)
  with transparent_getSpatialVelocity2 have "queryEq s s'" by (rule transparent_heap)
  then show ?thesis by (rule queryEq_worldCellStep)
next
  case (getLinearVelocity p q c v)
  then have "queryEq s s'" by (rule getLinearVelocity_queryEq)
  then show ?thesis by (rule queryEq_worldCellStep)
next
  case (getAngularVelocity p q c v)
  then have "queryEq s s'" by (rule getAngularVelocity_queryEq)
  then show ?thesis by (rule queryEq_worldCellStep)
next
  case (getSpatialAcceleration p V)
  with transparent_getSpatialAcceleration have "queryEq s s'" by (rule transparent_heap)
  then show ?thesis by (rule queryEq_worldCellStep)
next
  case (getSpatialAcceleration1 p c V)
  then have "queryEq s s'" by (rule getSpatialAcceleration1_queryEq)
  then show ?thesis by (rule queryEq_worldCellStep)
next
  case (getSpatialAcceleration2 p q c V)
  with transparent_getSpatialAcceleration2 have "queryEq s s'" by (rule transparent_heap)
  then show ?thesis by (rule queryEq_worldCellStep)
next
  case (getLinearAcceleration p q c v)
  with transparent_getLinearAcceleration have "queryEq s s'" by (rule transparent_heap)
  then show ?thesis by (rule queryEq_worldCellStep)
next
  case (getAngularAcceleration p q c v)
  then have "queryEq s s'" by (rule getAngularAcceleration_queryEq)
  then show ?thesis by (rule queryEq_worldCellStep)
next
  case (changeParentFrame e np out)
  then have "relinked {e} {e} {e} s s'" by (rule virtual_changeParentFrame_relinked)
  then show ?thesis by (rule relinked_worldCellStep)
next
  case (Entity_changeParentFrame e np)
  then have "relinked {e} {e} {} s s'" by (rule Entity_changeParentFrame_relinked)
  then show ?thesis by (rule relinked_worldCellStep)
next
  case (Frame_dtor p out)
  then show ?thesis by (rule Frame_dtor_worldCellStep)
next
  case elsewhere
  then show ?thesis by (rule worldCellStep_eq)
next
  case (notifyTransformUpdate n p)
  from notifyTransformUpdate(2) have "raisedBy True True True s s'"
    by (rule notifyTransformUpdate_raisedBy)
  then show ?thesis unfolding notifyTransformUpdate(1) by (rule raisedBy_worldCellStep)
next
  case (notifyVelocityUpdate n p)
  from notifyVelocityUpdate(2) have "raisedBy False True True s s'"
    by (rule notifyVelocityUpdate_raisedBy)
  then show ?thesis unfolding notifyVelocityUpdate(1) by (rule raisedBy_worldCellStep)
next
  case (notifyAccelerationUpdate n p)
  from notifyAccelerationUpdate(2) have "raisedBy False False True s s'"
    by (rule notifyAccelerationUpdate_raisedBy)
  then show ?thesis unfolding notifyAccelerationUpdate(1) by (rule raisedBy_worldCellStep)
qed

lemma reachable_worldCell: "reachable s \<Longrightarrow> worldCell (s worldAddr)"
proof (induction rule: reachable.induct)
  case (start s)
  then show ?case by (simp add: worldCell_def)
next
  case (step s notifies s')
  from frameStep_worldCellStep [OF step.hyps(2)] step.IH show ?case
    by (rule worldCellStep_worldCell)
qed

section \<open>Claims on the pose query\<close>

lemmas example_defs =
  chainHeap_def exFrame_def exWorld_def newWorldFrame_def worldAddr_def
  relA_def relB_def relC_def rotZ_def

lemmas algebra_defs =
  tmul_def inverse_tf_def Identity_def Identity3_def Zero3_def Zero6_def
  add6_def sub6_def AdR_def AdT_def AdInvT_def ad_def

text \<open>
  C1 (as amended). For a chain of frames A parented to B, B parented to C, C
  parented to the World frame, each with a fixed relative transform and its cached
  pose dirty, \<^verbatim>\<open>A.getWorldTransform()\<close> returns \<open>relT(C) * relT(B) * relT(A)\<close>: the
  relative transform of the frame nearest to the World frame stands leftmost, the
  one of A rightmost.
\<close>

theorem chain_world_transform:
  assumes "getFrame s a = Some fa" "getFrame s b = Some fb" "getFrame s c = Some fc"
    and "getFrame s w = Some fw"
    and "mParentFrame fa = Some b" "mParentFrame fb = Some c" "mParentFrame fc = Some w"
    and "mAmWorld fw" "mWorldTransform fw = Identity"
    and "\<not> mAmWorld fa" "\<not> mAmWorld fb" "\<not> mAmWorld fc"
    and "mNeedTransformUpdate fa" "mNeedTransformUpdate fb" "mNeedTransformUpdate fc"
  shows "\<exists>s'. getWorldTransform s a =
           Some (tmul (tmul (relativeTransform fc) (relativeTransform fb)) (relativeTransform fa), s')"
proof -
  have "worldTransformOf s w 0 (mWorldTransform fw)"
    using assms(4,8) by (blast intro: worldTransformOf.cached)
  then have "worldTransformOf s w 0 Identity"
    using assms(9) by simp
  then have "worldTransformOf s c (Suc 0) (tmul Identity (relativeTransform fc))"
    using assms(3,12,15,7) by (blast intro: worldTransformOf.recompute)
  then have "worldTransformOf s c (Suc 0) (relativeTransform fc)"
    by (simp add: tmul_Identity_left)
  then have "worldTransformOf s b (Suc (Suc 0)) (tmul (relativeTransform fc) (relativeTransform fb))"
    using assms(2,11,14,6) by (blast intro: worldTransformOf.recompute)
  then have "worldTransformOf s a (Suc (Suc (Suc 0)))
      (tmul (tmul (relativeTransform fc) (relativeTransform fb)) (relativeTransform fa))"
    using assms(1,10,13,5) by (blast intro: worldTransformOf.recompute)
  from getWorldTransform_returns [OF this] show ?thesis by blast
qed

theorem chain_world_transform_witness:
  "\<exists>s'. getWorldTransform chainHeap 3 = Some (tmul (tmul relC relB) relA, s')"
  using chain_world_transform [of chainHeap 3 "exFrame ''A'' (Some 2) [] relA"
      2 "exFrame ''B'' (Some 1) [3] relB" 1 "exFrame ''C'' (Some 0) [2] relC" 0 "exWorld [1]"]
  by (simp add: getFrame_def chainHeap_def exFrame_def exWorld_def newWorldFrame_def worldAddr_def)

text \<open>The composition in the order of the claim, \<open>relT(A) * relT(B) * relT(C)\<close>, is
  another transform.\<close>

theorem chain_world_transform_counterexample:
  "map_option fst (getWorldTransform chainHeap 3) = Some (Isometry3d rotZ (Vector3d 0 1 2)) \<and>
   tmul (tmul relA relB) relC = Isometry3d rotZ (Vector3d 1 0 2) \<and>
   tmul relA (tmul relB relC) = Isometry3d rotZ (Vector3d 1 0 2) \<and>
   Isometry3d rotZ (Vector3d 1 0 2) \<noteq> Isometry3d rotZ (Vector3d 0 1 2)"
  by (simp add: getWorldTransform.simps getFrame_def getRelativeTransform_def
      example_defs algebra_defs)

text \<open>
  C2. For a frame other than the World frame whose transform-dirty flag is set and
  whose parent's pose query returns, \<^verbatim>\<open>getWorldTransform()\<close> returns the parent's
  world transform composed with the relative transform, stores it in the cache and
  clears the flag, invoking the \<^verbatim>\<open>getRelativeTransform()\<close> primitive of the frame
  once; a further call returns the same value and leaves the heap, and with it the
  invocation counter, as it is.
\<close>

theorem getWorldTransform_caching:
  assumes "getFrame s this = Some f" "\<not> mAmWorld f" "mNeedTransformUpdate f"
    and "mParentFrame f = Some parent"
    and "getWorldTransform s parent = Some (Tp, s1)"
  shows "\<exists>s' f'. getWorldTransform s this = Some (tmul Tp (relativeTransform f), s') \<and>
           getFrame s' this = Some f' \<and>
           \<not> mNeedTransformUpdate f' \<and>
           mWorldTransform f' = tmul Tp (relativeTransform f) \<and>
           relativeTransformCalls f' = Suc (relativeTransformCalls f) \<and>
           getWorldTransform s' this = Some (tmul Tp (relativeTransform f), s')"
proof -
  let ?T = "tmul Tp (relativeTransform f)"
  let ?s' = "s1(this \<mapsto> FrameObj (poseUpdate f ?T))"
  have r: "getWorldTransform s this = Some (?T, ?s')"
    using assms by (rule getWorldTransform_after(2))
  have f': "getFrame ?s' this = Some (poseUpdate f ?T)"
    by (rule getFrame_upd_same)
  have c: "\<not> mNeedTransformUpdate (poseUpdate f ?T)"
    by (simp add: poseUpdate_def)
  have "getWorldTransform ?s' this = Some (mWorldTransform (poseUpdate f ?T), ?s')"
    using f' c by (rule getWorldTransform_clean)
  moreover have "mWorldTransform (poseUpdate f ?T) = ?T"
    by (simp add: poseUpdate_def)
  moreover have "relativeTransformCalls (poseUpdate f ?T) = Suc (relativeTransformCalls f)"
    by (simp add: poseUpdate_def)
  ultimately show ?thesis using r f' c by metis
qed

theorem getWorldTransform_caching_witness:
  "\<exists>s' f'. getWorldTransform chainHeap 1 = Some (relC, s') \<and>
     getFrame s' 1 = Some f' \<and> \<not> mNeedTransformUpdate f' \<and> mWorldTransform f' = relC \<and>
     relativeTransformCalls f' = 1 \<and> getWorldTransform s' 1 = Some (relC, s')"
proof -
  have w: "getWorldTransform chainHeap 0 = Some (Identity, chainHeap)"
    by (simp add: getWorldTransform.simps getFrame_def example_defs)
  have "getFrame chainHeap 1 = Some (exFrame ''C'' (Some 0) [2] relC)"
    by (simp add: getFrame_def chainHeap_def)
  from getWorldTransform_caching [OF this _ _ _ w, of ] show ?thesis
    by (simp add: exFrame_def tmul_Identity_left)
qed

section \<open>Claims on the invalidation\<close>

text \<open>
  C3. On a finite heap whose registered child entities are alive,
  \<^verbatim>\<open>notifyTransformUpdate()\<close> on a frame returns. A call that returns has first run
  \<^verbatim>\<open>notifyVelocityUpdate()\<close> on the frame, and that call
  \<^verbatim>\<open>notifyAccelerationUpdate()\<close>, whatever the flags. The transform flag is the one
  the frame had before the call. Where it was set, the call ends there and no
  transform flag of any frame changes; where it was clear, the flag is set and
  \<^verbatim>\<open>notifyTransformUpdate()\<close> runs on every child entity in turn, each call in the heap
  the one before has left, so that every child that is a frame ends with its three flags
  set. Afterwards the three flags of
  the frame are set, and a further call leaves the heap as it is.
\<close>

theorem notifyTransformUpdate_cascade:
  assumes "getFrame s this = Some f"
  shows "(finite (dom s) \<and> liveChildren s \<longrightarrow>
            (\<forall>n. pending s + 2 < n \<longrightarrow> (\<exists>s'. notifyTransformUpdate n s this = Some s'))) \<and>
         (\<forall>n s'. notifyTransformUpdate (Suc n) s this = Some s' \<longrightarrow>
            (\<exists>s1 f1 f'.
            notifyVelocityUpdate n s this = Some s1 \<and>
            (\<exists>m s0. n = Suc m \<and> notifyAccelerationUpdate m s this = Some s0) \<and>
            getFrame s1 this = Some f1 \<and>
            mNeedTransformUpdate f1 = mNeedTransformUpdate f \<and>
            mChildEntities f1 = mChildEntities f \<and>
            (mNeedTransformUpdate f \<longrightarrow> s' = s1 \<and>
               (\<forall>q g g'. getFrame s q = Some g \<longrightarrow> getFrame s' q = Some g' \<longrightarrow>
                  mNeedTransformUpdate g' = mNeedTransformUpdate g)) \<and>
            (\<not> mNeedTransformUpdate f \<longrightarrow>
               (\<exists>hs. length hs = Suc (length (mChildEntities f)) \<and>
                  hs ! 0 = s1(this \<mapsto> FrameObj (f1\<lparr>mNeedTransformUpdate := True\<rparr>)) \<and>
                  hs ! length (mChildEntities f) = s' \<and>
                  (\<forall>i < length (mChildEntities f).
                     notifyTransformUpdate n (hs ! i) (mChildEntities f ! i) =
                       Some (hs ! Suc i))) \<and>
               (\<forall>c \<in> set (mChildEntities f). \<forall>g. getFrame s c = Some g \<longrightarrow>
                  (\<exists>g'. getFrame s' c = Some g' \<and> mNeedTransformUpdate g' \<and>
                     mNeedVelocityUpdate g' \<and> mNeedAccelerationUpdate g'))) \<and>
            getFrame s' this = Some f' \<and>
            mNeedTransformUpdate f' \<and> mNeedVelocityUpdate f' \<and> mNeedAccelerationUpdate f' \<and>
            (\<forall>k. notifyTransformUpdate (Suc (Suc (Suc k))) s' this = Some s')))"
proof (intro conjI allI impI)
  fix n assume a: "finite (dom s) \<and> liveChildren s" and n: "pending s + 2 < n"
  from a have "notifiable (pending s) s" by (simp add: notifiable_def)
  moreover from assms have "liveObj (s this)" by (simp add: getFrame_Some liveObj_def)
  moreover from n have "Suc (Suc (pending s)) < n" by simp
  ultimately have "\<exists>s'. notifyTransformUpdate n s this = Some s' \<and> raisedBy True True True s s'"
    by (rule notifyTransformUpdate_returns)
  then show "\<exists>s'. notifyTransformUpdate n s this = Some s'" by blast
next
  fix n s' assume r: "notifyTransformUpdate (Suc n) s this = Some s'"
  from notifyTransformUpdate_effect [OF assms r]
  obtain s1 f1 f' where e:
    "notifyVelocityUpdate n s this = Some s1"
    "\<exists>m s0. n = Suc m \<and> notifyAccelerationUpdate m s this = Some s0"
    "getFrame s1 this = Some f1"
    "mNeedTransformUpdate f1 = mNeedTransformUpdate f"
    "mChildEntities f1 = mChildEntities f"
    "mNeedTransformUpdate f \<longrightarrow> s' = s1 \<and>
       (\<forall>q g g'. getFrame s q = Some g \<longrightarrow> getFrame s' q = Some g' \<longrightarrow>
          mNeedTransformUpdate g' = mNeedTransformUpdate g)"
    "\<not> mNeedTransformUpdate f \<longrightarrow>
       forEach (mChildEntities f) (notifyTransformUpdate n)
         (s1(this \<mapsto> FrameObj (f1\<lparr>mNeedTransformUpdate := True\<rparr>))) = Some s'"
    "getFrame s' this = Some f'"
    "mNeedTransformUpdate f'" "mNeedVelocityUpdate f'" "mNeedAccelerationUpdate f'"
    "\<forall>k. notifyTransformUpdate (Suc (Suc (Suc k))) s' this = Some s'"
    by blast
  let ?s0 = "s1(this \<mapsto> FrameObj (f1\<lparr>mNeedTransformUpdate := True\<rparr>))"
  have clean: "(\<exists>hs. length hs = Suc (length (mChildEntities f)) \<and>
                  hs ! 0 = ?s0 \<and>
                  hs ! length (mChildEntities f) = s' \<and>
                  (\<forall>i < length (mChildEntities f).
                     notifyTransformUpdate n (hs ! i) (mChildEntities f ! i) =
                       Some (hs ! Suc i))) \<and>
               (\<forall>c \<in> set (mChildEntities f). \<forall>g. getFrame s c = Some g \<longrightarrow>
                  (\<exists>g'. getFrame s' c = Some g' \<and> mNeedTransformUpdate g' \<and>
                     mNeedVelocityUpdate g' \<and> mNeedAccelerationUpdate g'))"
    if nf: "\<not> mNeedTransformUpdate f"
  proof (rule conjI)
    from e(7) nf have fe: "forEach (mChildEntities f) (notifyTransformUpdate n) ?s0 = Some s'"
      by simp
    from forEach_chain [OF fe]
    show "\<exists>hs. length hs = Suc (length (mChildEntities f)) \<and>
                  hs ! 0 = ?s0 \<and>
                  hs ! length (mChildEntities f) = s' \<and>
                  (\<forall>i < length (mChildEntities f).
                     notifyTransformUpdate n (hs ! i) (mChildEntities f ! i) =
                       Some (hs ! Suc i))" .
    show "\<forall>c \<in> set (mChildEntities f). \<forall>g. getFrame s c = Some g \<longrightarrow>
                  (\<exists>g'. getFrame s' c = Some g' \<and> mNeedTransformUpdate g' \<and>
                     mNeedVelocityUpdate g' \<and> mNeedAccelerationUpdate g')"
    proof (intro ballI allI impI)
      fix c g assume c: "c \<in> set (mChildEntities f)" and g: "getFrame s c = Some g"
      have "raisedBy False True True s s1"
        using e(1) by (rule notifyVelocityUpdate_raisedBy)
      from this g obtain tT tV tA where g1: "getFrame s1 c = Some (raise tT tV tA g)"
        by (rule raisedBy_frame)
      have "\<exists>g0. getFrame ?s0 c = Some g0"
      proof (cases "c = this")
        case True
        then show ?thesis by (simp add: getFrame_upd_same)
      next
        case False
        with g1 show ?thesis by (simp add: getFrame_upd_other)
      qed
      then obtain g0 where "getFrame ?s0 c = Some g0" ..
      with fe c show "\<exists>g'. getFrame s' c = Some g' \<and> mNeedTransformUpdate g' \<and>
                     mNeedVelocityUpdate g' \<and> mNeedAccelerationUpdate g'"
        by (rule forEach_notified)
    qed
  qed
  show "\<exists>s1 f1 f'.
            notifyVelocityUpdate n s this = Some s1 \<and>
            (\<exists>m s0. n = Suc m \<and> notifyAccelerationUpdate m s this = Some s0) \<and>
            getFrame s1 this = Some f1 \<and>
            mNeedTransformUpdate f1 = mNeedTransformUpdate f \<and>
            mChildEntities f1 = mChildEntities f \<and>
            (mNeedTransformUpdate f \<longrightarrow> s' = s1 \<and>
               (\<forall>q g g'. getFrame s q = Some g \<longrightarrow> getFrame s' q = Some g' \<longrightarrow>
                  mNeedTransformUpdate g' = mNeedTransformUpdate g)) \<and>
            (\<not> mNeedTransformUpdate f \<longrightarrow>
               (\<exists>hs. length hs = Suc (length (mChildEntities f)) \<and>
                  hs ! 0 = s1(this \<mapsto> FrameObj (f1\<lparr>mNeedTransformUpdate := True\<rparr>)) \<and>
                  hs ! length (mChildEntities f) = s' \<and>
                  (\<forall>i < length (mChildEntities f).
                     notifyTransformUpdate n (hs ! i) (mChildEntities f ! i) =
                       Some (hs ! Suc i))) \<and>
               (\<forall>c \<in> set (mChildEntities f). \<forall>g. getFrame s c = Some g \<longrightarrow>
                  (\<exists>g'. getFrame s' c = Some g' \<and> mNeedTransformUpdate g' \<and>
                     mNeedVelocityUpdate g' \<and> mNeedAccelerationUpdate g'))) \<and>
            getFrame s' this = Some f' \<and>
            mNeedTransformUpdate f' \<and> mNeedVelocityUpdate f' \<and> mNeedAccelerationUpdate f' \<and>
            (\<forall>k. notifyTransformUpdate (Suc (Suc (Suc k))) s' this = Some s')"
    using e(1-6) clean e(8-12) by blast
qed

theorem notifyTransformUpdate_cascade_witness:
  "(\<exists>s'. notifyTransformUpdate (pending cleanHeap + 3) cleanHeap 2 = Some s') \<and>
   (\<exists>s' f' g'. notifyTransformUpdate (Suc 5) cleanHeap 2 = Some s' \<and>
     getFrame s' 2 = Some f' \<and>
     mNeedTransformUpdate f' \<and> mNeedVelocityUpdate f' \<and> mNeedAccelerationUpdate f' \<and>
     getFrame s' 3 = Some g' \<and>
     mNeedTransformUpdate g' \<and> mNeedVelocityUpdate g' \<and> mNeedAccelerationUpdate g' \<and>
     notifyTransformUpdate (Suc (Suc (Suc 0))) s' 2 = Some s')"
proof -
  have f: "getFrame cleanHeap 2 = Some (cleanFrame ''B'' (Some 1) [3] relB)"
    by (simp add: getFrame_def cleanHeap_def)
  have a: "getFrame cleanHeap 3 = Some (cleanFrame ''A'' (Some 2) [] relA)"
    by (simp add: getFrame_def cleanHeap_def)
  have nf: "\<not> mNeedTransformUpdate (cleanFrame ''B'' (Some 1) [3] relB)"
    and cs: "mChildEntities (cleanFrame ''B'' (Some 1) [3] relB) = [3]"
    by (simp_all add: cleanFrame_def exFrame_def)
  have d: "finite (dom cleanHeap)"
    by (simp add: cleanHeap_def)
  have l: "liveChildren cleanHeap"
    by (simp add: liveChildren_def liveObj_def cleanHeap_def cleanFrame_def exFrame_def
        exWorld_def newWorldFrame_def)
  have "\<exists>s'. notifyTransformUpdate (Suc 5) cleanHeap 2 = Some s'"
    by (simp add: eval_nat_numeral getFrame_def cleanHeap_def cleanFrame_def exFrame_def
        Entity_notifyUpdate_def)
  then obtain s' where r: "notifyTransformUpdate (Suc 5) cleanHeap 2 = Some s'" ..
  note c = notifyTransformUpdate_cascade [OF f]
  from c d l have "\<exists>s'. notifyTransformUpdate (pending cleanHeap + 3) cleanHeap 2 = Some s'"
    by simp
  moreover from c r nf obtain f' where f': "getFrame s' 2 = Some f'"
    "mNeedTransformUpdate f'" "mNeedVelocityUpdate f'" "mNeedAccelerationUpdate f'"
    "notifyTransformUpdate (Suc (Suc (Suc 0))) s' 2 = Some s'"
    and kids: "\<forall>c \<in> set (mChildEntities (cleanFrame ''B'' (Some 1) [3] relB)).
       \<forall>g. getFrame cleanHeap c = Some g \<longrightarrow>
         (\<exists>g'. getFrame s' c = Some g' \<and> mNeedTransformUpdate g' \<and>
            mNeedVelocityUpdate g' \<and> mNeedAccelerationUpdate g')"
    by blast
  from kids a have "\<exists>g'. getFrame s' 3 = Some g' \<and> mNeedTransformUpdate g' \<and>
            mNeedVelocityUpdate g' \<and> mNeedAccelerationUpdate g'"
    unfolding cs by simp
  with r f' have "\<exists>s' f' g'. notifyTransformUpdate (Suc 5) cleanHeap 2 = Some s' \<and>
     getFrame s' 2 = Some f' \<and>
     mNeedTransformUpdate f' \<and> mNeedVelocityUpdate f' \<and> mNeedAccelerationUpdate f' \<and>
     getFrame s' 3 = Some g' \<and>
     mNeedTransformUpdate g' \<and> mNeedVelocityUpdate g' \<and> mNeedAccelerationUpdate g' \<and>
     notifyTransformUpdate (Suc (Suc (Suc 0))) s' 2 = Some s'"
    by blast
  ultimately show ?thesis ..
qed

section \<open>Claims on the reparenting\<close>

text \<open>
  C4. For a frame F and a frame P that is F itself or a descendant of F, not both
  of them the World frame, \<^verbatim>\<open>F.changeParentFrame(P)\<close> writes the diagnostic and
  returns the heap as it was: no parent pointer and no child set has changed. For
  the World frame, quiet and with no parent or itself as parent, the call
  \<^verbatim>\<open>changeParentFrame(this)\<close> is carried out with no diagnostic and leaves the
  World frame its own parent.
\<close>

theorem changeParentFrame_cycle_rejected:
  assumes "getFrame s F = Some f" and "getFrame s P = Some g"
  shows "(descendsFrom s P F \<and> \<not> (mAmWorld f \<and> mAmWorld g) \<longrightarrow>
            changeParentFrame s F (Some P) = Some ([circularWarning (mName f) (mName g)], s)) \<and>
         (mAmWorld f \<and> mAmQuiet f \<and> (mParentFrame f = None \<or> mParentFrame f = Some F) \<longrightarrow>
            (\<exists>s' f'. changeParentFrame s F (Some F) = Some ([], s') \<and>
               getFrame s' F = Some f' \<and> mParentFrame f' = Some F))"
proof (intro conjI impI)
  assume a: "descendsFrom s P F \<and> \<not> (mAmWorld f \<and> mAmWorld g)"
  then have d: "descendsFrom s P F" and w: "\<not> (mAmWorld f \<and> mAmWorld g)"
    by blast+
  from d assms(1) have "dependsOn s P F = Some True"
    by (rule dependsOn_descendsFrom)
  with assms show "changeParentFrame s F (Some P) =
      Some ([circularWarning (mName f) (mName g)], s)"
    using w by (rule changeParentFrame_rejected)
next
  assume "mAmWorld f \<and> mAmQuiet f \<and> (mParentFrame f = None \<or> mParentFrame f = Some F)"
  then have "mAmWorld f" "mAmQuiet f" "mParentFrame f = None \<or> mParentFrame f = Some F"
    by blast+
  with assms(1) show "\<exists>s' f'. changeParentFrame s F (Some F) = Some ([], s') \<and>
               getFrame s' F = Some f' \<and> mParentFrame f' = Some F"
    by (rule changeParentFrame_world_bootstrap)
qed

theorem changeParentFrame_cycle_rejected_witness:
  "changeParentFrame chainHeap 2 (Some 3) = Some ([circularWarning ''B'' ''A''], chainHeap) \<and>
   (\<exists>s' f'. changeParentFrame chainHeap 0 (Some 0) = Some ([], s') \<and>
      getFrame s' 0 = Some f' \<and> mParentFrame f' = Some 0)"
proof -
  have B: "getFrame chainHeap 2 = Some (exFrame ''B'' (Some 1) [3] relB)"
    by (simp add: getFrame_def chainHeap_def)
  have A: "getFrame chainHeap 3 = Some (exFrame ''A'' (Some 2) [] relA)"
    by (simp add: getFrame_def chainHeap_def)
  have W: "getFrame chainHeap 0 = Some (exWorld [1])"
    by (simp add: getFrame_def chainHeap_def)
  have d: "descendsFrom chainHeap 3 2"
    by (rule descendsFrom.up [OF A _ _ descendsFrom.self]) (simp_all add: exFrame_def)
  from changeParentFrame_cycle_rejected [OF B A] d
  have "changeParentFrame chainHeap 2 (Some 3) = Some ([circularWarning ''B'' ''A''], chainHeap)"
    by (simp add: exFrame_def)
  moreover from changeParentFrame_cycle_rejected [OF W W]
  have "\<exists>s' f'. changeParentFrame chainHeap 0 (Some 0) = Some ([], s') \<and>
      getFrame s' 0 = Some f' \<and> mParentFrame f' = Some 0"
    by (simp add: exWorld_def newWorldFrame_def worldAddr_def)
  ultimately show ?thesis by simp
qed

section \<open>Claims on the destruction\<close>

text \<open>
  C9 (as amended). The destructor of the World frame leaves the heap as it is. The
  destructor of another frame returns, in a heap whose parent pointers point to live
  frames, when its registered child entities are alive and its visualization shapes are
  live and distinct. It first calls \<^verbatim>\<open>changeParentFrame(NULL)\<close>; when it returns, the
  frame not being among its own child entities, the frame has no parent and is in
  neither child set of its former parent (in the child-entity set it never was if it is
  quiet), every entity registered in its child-entity set has the World frame as its
  parent, its visualization shapes have left the heap and its list of shapes is empty.
  The parent pointer of every other entity is as it was: an entity that has the frame as
  its parent without being registered there, as a quiet entity has, keeps the destroyed
  frame as its parent, and no entity refers to the frame when those that did were all
  among its child entities.
\<close>

theorem Frame_dtor_effect:
  assumes f: "getFrame s this = Some f"
    and w: "getFrame s worldAddr = Some fw" "mAmWorld fw"
  shows "(liveParents s \<and> (\<forall>c \<in> set (mChildEntities f). liveObj (s c)) \<and>
          distinct (mVizShapes f) \<and> (\<forall>p \<in> set (mVizShapes f). s p = Some ShapeObj) \<longrightarrow>
            (\<exists>out s'. Frame_dtor s this = Some (out, s'))) \<and>
         (\<forall>out s'. Frame_dtor s this = Some (out, s') \<longrightarrow>
         (mAmWorld f \<longrightarrow> out = [] \<and> s' = s) \<and>
         (\<not> mAmWorld f \<and> this \<notin> set (mChildEntities f) \<longrightarrow>
            (\<exists>out1 s1 f'. changeParentFrame s this None = Some (out1, s1) \<and>
               getFrame s' this = Some f' \<and> mParentFrame f' = None \<and> mVizShapes f' = [] \<and>
               (\<forall>op pf. mParentFrame f = Some op \<longrightarrow> getFrame s' op = Some pf \<longrightarrow>
                  this \<notin> set (mChildFrames pf) \<and>
                  (\<not> mAmQuiet f \<longrightarrow> this \<notin> set (mChildEntities pf))) \<and>
               (\<forall>c \<in> set (mChildEntities f). getParentFrame s' c = Some (Some worldAddr)) \<and>
               ((\<forall>q. getParentFrame s q = Some (Some this) \<longrightarrow> q \<in> set (mChildEntities f)) \<longrightarrow>
                  (\<forall>q. getParentFrame s' q \<noteq> Some (Some this))) \<and>
               (\<forall>p \<in> set (mVizShapes f). s' p = None))) \<and>
         (\<forall>q. q \<noteq> this \<longrightarrow> q \<notin> set (mChildEntities f) \<longrightarrow>
            getParentFrame s' q = getParentFrame s q))"
proof (rule conjI)
  show "liveParents s \<and> (\<forall>c \<in> set (mChildEntities f). liveObj (s c)) \<and>
          distinct (mVizShapes f) \<and> (\<forall>p \<in> set (mVizShapes f). s p = Some ShapeObj) \<longrightarrow>
            (\<exists>out s'. Frame_dtor s this = Some (out, s'))"
  proof (rule impI)
    assume a: "liveParents s \<and> (\<forall>c \<in> set (mChildEntities f). liveObj (s c)) \<and>
          distinct (mVizShapes f) \<and> (\<forall>p \<in> set (mVizShapes f). s p = Some ShapeObj)"
    then have "liveParents s" "\<forall>c \<in> set (mChildEntities f). liveObj (s c)"
      "distinct (mVizShapes f)" "\<forall>p \<in> set (mVizShapes f). s p = Some ShapeObj"
      by blast+
    with f w show "\<exists>out s'. Frame_dtor s this = Some (out, s')"
      by (rule Frame_dtor_returns)
  qed
next
  show "\<forall>out s'. Frame_dtor s this = Some (out, s') \<longrightarrow>
         (mAmWorld f \<longrightarrow> out = [] \<and> s' = s) \<and>
         (\<not> mAmWorld f \<and> this \<notin> set (mChildEntities f) \<longrightarrow>
            (\<exists>out1 s1 f'. changeParentFrame s this None = Some (out1, s1) \<and>
               getFrame s' this = Some f' \<and> mParentFrame f' = None \<and> mVizShapes f' = [] \<and>
               (\<forall>op pf. mParentFrame f = Some op \<longrightarrow> getFrame s' op = Some pf \<longrightarrow>
                  this \<notin> set (mChildFrames pf) \<and>
                  (\<not> mAmQuiet f \<longrightarrow> this \<notin> set (mChildEntities pf))) \<and>
               (\<forall>c \<in> set (mChildEntities f). getParentFrame s' c = Some (Some worldAddr)) \<and>
               ((\<forall>q. getParentFrame s q = Some (Some this) \<longrightarrow> q \<in> set (mChildEntities f)) \<longrightarrow>
                  (\<forall>q. getParentFrame s' q \<noteq> Some (Some this))) \<and>
               (\<forall>p \<in> set (mVizShapes f). s' p = None))) \<and>
         (\<forall>q. q \<noteq> this \<longrightarrow> q \<notin> set (mChildEntities f) \<longrightarrow>
            getParentFrame s' q = getParentFrame s q)"
  proof (intro allI, rule impI)
    fix out s' assume d: "Frame_dtor s this = Some (out, s')"
    note A = Frame_dtor_changes [OF f w d]
    have B: "(\<forall>q. q \<noteq> this \<longrightarrow> q \<notin> set (mChildEntities f) \<longrightarrow>
            getParentFrame s' q = getParentFrame s q)"
      using Frame_dtor_others [OF f w d] by blast
    from A have "(mAmWorld f \<longrightarrow> out = [] \<and> s' = s)" by (rule conjunct1)
    moreover from A have "(\<not> mAmWorld f \<and> this \<notin> set (mChildEntities f) \<longrightarrow>
            (\<exists>out1 s1 f'. changeParentFrame s this None = Some (out1, s1) \<and>
               getFrame s' this = Some f' \<and> mParentFrame f' = None \<and> mVizShapes f' = [] \<and>
               (\<forall>op pf. mParentFrame f = Some op \<longrightarrow> getFrame s' op = Some pf \<longrightarrow>
                  this \<notin> set (mChildFrames pf) \<and>
                  (\<not> mAmQuiet f \<longrightarrow> this \<notin> set (mChildEntities pf))) \<and>
               (\<forall>c \<in> set (mChildEntities f). getParentFrame s' c = Some (Some worldAddr)) \<and>
               ((\<forall>q. getParentFrame s q = Some (Some this) \<longrightarrow> q \<in> set (mChildEntities f)) \<longrightarrow>
                  (\<forall>q. getParentFrame s' q \<noteq> Some (Some this))) \<and>
               (\<forall>p \<in> set (mVizShapes f). s' p = None)))" by (rule conjunct2)
    ultimately show "(mAmWorld f \<longrightarrow> out = [] \<and> s' = s) \<and>
         (\<not> mAmWorld f \<and> this \<notin> set (mChildEntities f) \<longrightarrow>
            (\<exists>out1 s1 f'. changeParentFrame s this None = Some (out1, s1) \<and>
               getFrame s' this = Some f' \<and> mParentFrame f' = None \<and> mVizShapes f' = [] \<and>
               (\<forall>op pf. mParentFrame f = Some op \<longrightarrow> getFrame s' op = Some pf \<longrightarrow>
                  this \<notin> set (mChildFrames pf) \<and>
                  (\<not> mAmQuiet f \<longrightarrow> this \<notin> set (mChildEntities pf))) \<and>
               (\<forall>c \<in> set (mChildEntities f). getParentFrame s' c = Some (Some worldAddr)) \<and>
               ((\<forall>q. getParentFrame s q = Some (Some this) \<longrightarrow> q \<in> set (mChildEntities f)) \<longrightarrow>
                  (\<forall>q. getParentFrame s' q \<noteq> Some (Some this))) \<and>
               (\<forall>p \<in> set (mVizShapes f). s' p = None))) \<and>
         (\<forall>q. q \<noteq> this \<longrightarrow> q \<notin> set (mChildEntities f) \<longrightarrow>
            getParentFrame s' q = getParentFrame s q)"
      using B by (intro conjI)
  qed
qed

lemmas reparent_defs =
  Frame_dtor_def changeParentFrame_def Entity_changeParentFrame_def virtual_changeParentFrame_def
  World_def WorldFrame_ctor_def getAmQuiet_def getParentFrame_def getName_def setParentFrame_def
  set_insert_def set_erase_def isWorld_def getFrame_def

theorem Frame_dtor_effect_witness:
  "\<exists>out s' f'. Frame_dtor dtorHeap 1 = Some (out, s') \<and>
     getFrame s' 1 = Some f' \<and> mParentFrame f' = None \<and> mVizShapes f' = [] \<and>
     getParentFrame s' 2 = Some (Some 0) \<and> getParentFrame s' 3 = Some (Some 0) \<and>
     getParentFrame s' 0 = Some (Some 0) \<and>
     s' 4 = None \<and>
     (\<forall>q. getParentFrame s' q \<noteq> Some (Some 1)) \<and>
     Frame_dtor dtorHeap 0 = Some ([], dtorHeap)"
proof -
  have F: "getFrame dtorHeap 1 =
      Some ((exFrame ''F'' (Some 0) [2, 3] relC)\<lparr>mChildFrames := [2], mVizShapes := [4]\<rparr>)"
    by (simp add: getFrame_def dtorHeap_def)
  have W: "getFrame dtorHeap worldAddr = Some (exWorld [1])" "mAmWorld (exWorld [1])"
    by (simp_all add: getFrame_def dtorHeap_def worldAddr_def exWorld_def newWorldFrame_def)
  have lp: "liveParents dtorHeap"
    by (simp add: liveParents_def parentCell_def getFrame_def dtorHeap_def exFrame_def
        exWorld_def newWorldFrame_def worldAddr_def)
  have lc: "\<forall>c \<in> set [2, 3]. liveObj (dtorHeap c)"
    by (simp add: liveObj_def dtorHeap_def)
  have sh: "\<forall>p \<in> set [4]. dtorHeap p = Some ShapeObj"
    by (simp add: dtorHeap_def)
  note E = Frame_dtor_effect [OF F W]
  from E lp lc sh have "\<exists>out s'. Frame_dtor dtorHeap 1 = Some (out, s')"
    by (simp add: exFrame_def)
  then obtain out s' where d: "Frame_dtor dtorHeap 1 = Some (out, s')" by blast
  have reg: "\<forall>q. getParentFrame dtorHeap q = Some (Some 1) \<longrightarrow> q \<in> {2, 3}"
    by (simp add: getParentFrame_def dtorHeap_def exFrame_def exWorld_def newWorldFrame_def
        worldAddr_def)
  have p0: "getParentFrame dtorHeap 0 = Some (Some 0)"
    by (simp add: getParentFrame_def dtorHeap_def exWorld_def newWorldFrame_def worldAddr_def)
  have d0: "Frame_dtor dtorHeap 0 = Some ([], dtorHeap)"
    by (simp add: Frame_dtor_def getFrame_def dtorHeap_def exWorld_def newWorldFrame_def)
  from E d have
    "(\<not> mAmWorld ((exFrame ''F'' (Some 0) [2, 3] relC)\<lparr>mChildFrames := [2], mVizShapes := [4]\<rparr>) \<and>
      1 \<notin> set (mChildEntities
         ((exFrame ''F'' (Some 0) [2, 3] relC)\<lparr>mChildFrames := [2], mVizShapes := [4]\<rparr>)) \<longrightarrow>
       (\<exists>out1 s1 f'. changeParentFrame dtorHeap 1 None = Some (out1, s1) \<and>
          getFrame s' 1 = Some f' \<and> mParentFrame f' = None \<and> mVizShapes f' = [] \<and>
          (\<forall>op pf. mParentFrame
               ((exFrame ''F'' (Some 0) [2, 3] relC)\<lparr>mChildFrames := [2], mVizShapes := [4]\<rparr>) =
               Some op \<longrightarrow> getFrame s' op = Some pf \<longrightarrow>
             1 \<notin> set (mChildFrames pf) \<and>
             (\<not> mAmQuiet
               ((exFrame ''F'' (Some 0) [2, 3] relC)\<lparr>mChildFrames := [2], mVizShapes := [4]\<rparr>) \<longrightarrow>
              1 \<notin> set (mChildEntities pf))) \<and>
          (\<forall>c \<in> set (mChildEntities
               ((exFrame ''F'' (Some 0) [2, 3] relC)\<lparr>mChildFrames := [2], mVizShapes := [4]\<rparr>)).
             getParentFrame s' c = Some (Some worldAddr)) \<and>
          ((\<forall>q. getParentFrame dtorHeap q = Some (Some 1) \<longrightarrow>
               q \<in> set (mChildEntities
                 ((exFrame ''F'' (Some 0) [2, 3] relC)\<lparr>mChildFrames := [2], mVizShapes := [4]\<rparr>))) \<longrightarrow>
             (\<forall>q. getParentFrame s' q \<noteq> Some (Some 1))) \<and>
          (\<forall>p \<in> set (mVizShapes
               ((exFrame ''F'' (Some 0) [2, 3] relC)\<lparr>mChildFrames := [2], mVizShapes := [4]\<rparr>)).
             s' p = None)))"
    and "\<forall>q. q \<noteq> 1 \<longrightarrow>
       q \<notin> set (mChildEntities
         ((exFrame ''F'' (Some 0) [2, 3] relC)\<lparr>mChildFrames := [2], mVizShapes := [4]\<rparr>)) \<longrightarrow>
       getParentFrame s' q = getParentFrame dtorHeap q"
    by blast+
  with reg p0 d d0 show ?thesis
    by (simp add: exFrame_def worldAddr_def) blast
qed

text \<open>A quiet entity takes the frame F as its parent and is not registered among the
  child entities of F. The destructor of F hands the registered child entity over to the
  World frame and does not visit the quiet one, which still has F as its parent.\<close>

theorem Frame_dtor_effect_counterexample:
  "getAmQuiet quietHeap0 2 = Some True \<and>
   virtual_changeParentFrame quietHeap0 2 (Some 1) = Some ([], quietHeap) \<and>
   Frame_dtor quietHeap 1 = Some ([], quietHeapAfter) \<and>
   getParentFrame quietHeapAfter 3 = Some (Some 0) \<and>
   getParentFrame quietHeapAfter 2 = Some (Some 1) \<and>
   getParentFrame quietHeapAfter 1 = Some None"
  by (simp add: reparent_defs dependsOn.simps quietHeap0_def quietHeap_def quietHeapAfter_def
      exFrame_def exWorld_def newWorldFrame_def worldAddr_def fun_upd_twist)

section \<open>Claims on relative velocities and accelerations\<close>

lemmas query_defs =
  getWorldTransform.simps getSpatialVelocity.simps getSpatialAcceleration.simps
  getTransform_def getSpatialVelocity2_def getSpatialAcceleration2_def
  getLinearAcceleration_def getLinearVelocity_def getAngularVelocity_def isWorld_def
  getFrame_def getRelativeTransform_def getRelativeSpatialVelocity_def
  getPrimaryRelativeAcceleration_def getPartialAcceleration_def

lemmas motion_defs =
  motionHeap_def movingFrame_def exFrame_def exWorld_def newWorldFrame_def worldAddr_def
  relA_def relB_def relC_def rotZ_def

text \<open>
  C6. Whenever, in a heap \<open>s\<close>, \<^verbatim>\<open>getTransform(inCoordinatesOf)\<close> of a frame returns
  \<open>T1\<close>, its \<^verbatim>\<open>getSpatialVelocity()\<close> returns \<open>V1\<close>,
  \<^verbatim>\<open>relativeTo->getTransform(this)\<close> returns \<open>T2\<close> and
  \<^verbatim>\<open>relativeTo->getSpatialVelocity()\<close> returns \<open>V2\<close>, the call
  \<^verbatim>\<open>getSpatialVelocity(relativeTo, inCoordinatesOf)\<close> in \<open>s\<close> returns the rotational
  adjoint of \<open>T1\<close> applied to \<open>V1\<close> minus the adjoint transport of \<open>V2\<close> through \<open>T2\<close>,
  although each of the four queries it makes runs in the heap that the queries before
  it have left; \<^verbatim>\<open>getLinearVelocity\<close> and \<^verbatim>\<open>getAngularVelocity\<close> with the same
  arguments return the last three and the first three components of that vector.
\<close>

theorem getSpatialVelocity_relative:
  assumes "map_option fst (getTransform s this inCoordinatesOf) = Some T1"
    and "map_option fst (getSpatialVelocity s this) = Some V1"
    and "map_option fst (getTransform s relativeTo this) = Some T2"
    and "map_option fst (getSpatialVelocity s relativeTo) = Some V2"
  shows "map_option fst (getSpatialVelocity2 s this relativeTo inCoordinatesOf) =
           Some (AdR T1 (sub6 V1 (AdT T2 V2))) \<and>
         map_option fst (getLinearVelocity s this relativeTo inCoordinatesOf) =
           Some (tail3 (AdR T1 (sub6 V1 (AdT T2 V2)))) \<and>
         map_option fst (getAngularVelocity s this relativeTo inCoordinatesOf) =
           Some (head3 (AdR T1 (sub6 V1 (AdT T2 V2))))"
proof -
  have a: "transformVal s this inCoordinatesOf T1"
    using transparent_getTransform assms(1) by (rule transparent_fst_value)
  have b: "spatialVelocityVal s this V1"
    using transparent_getSpatialVelocity assms(2) by (rule transparent_fst_value)
  have c: "transformVal s relativeTo this T2"
    using transparent_getTransform assms(3) by (rule transparent_fst_value)
  have d: "spatialVelocityVal s relativeTo V2"
    using transparent_getSpatialVelocity assms(4) by (rule transparent_fst_value)
  from a b c d
  have "relativeVelocityVal this relativeTo inCoordinatesOf s (AdR T1 (sub6 V1 (AdT T2 V2)))"
    unfolding relativeVelocityVal_def by blast
  with transparent_getSpatialVelocity2
  have r: "map_option fst (getSpatialVelocity2 s this relativeTo inCoordinatesOf) =
           Some (AdR T1 (sub6 V1 (AdT T2 V2)))"
    by (rule transparent_fst_returns)
  then obtain s' where "getSpatialVelocity2 s this relativeTo inCoordinatesOf =
      Some (AdR T1 (sub6 V1 (AdT T2 V2)), s')"
    by (cases "getSpatialVelocity2 s this relativeTo inCoordinatesOf") auto
  then have "map_option fst (getLinearVelocity s this relativeTo inCoordinatesOf) =
           Some (tail3 (AdR T1 (sub6 V1 (AdT T2 V2))))"
    and "map_option fst (getAngularVelocity s this relativeTo inCoordinatesOf) =
           Some (head3 (AdR T1 (sub6 V1 (AdT T2 V2))))"
    by (simp_all add: getLinearVelocity_def getAngularVelocity_def)
  with r show ?thesis by blast
qed

theorem getSpatialVelocity_relative_witness:
  "map_option fst (getSpatialVelocity2 motionHeap 2 3 0) =
     Some (Vector6d (Vector3d 0 0 1) (Vector3d (- 3) 0 (- 4))) \<and>
   map_option fst (getLinearVelocity motionHeap 2 3 0) = Some (Vector3d (- 3) 0 (- 4)) \<and>
   map_option fst (getAngularVelocity motionHeap 2 3 0) = Some (Vector3d 0 0 1)"
proof -
  have a: "map_option fst (getTransform motionHeap 2 0) = Some (Isometry3d rotZ (Vector3d 0 0 2))"
    by (simp add: query_defs motion_defs algebra_defs)
  have b: "map_option fst (getSpatialVelocity motionHeap 2) =
      Some (Vector6d (Vector3d 1 0 1) (Vector3d 0 1 0))"
    by (simp add: query_defs motion_defs algebra_defs)
  have c: "map_option fst (getTransform motionHeap 3 2) =
      Some (Isometry3d (transpose3 rotZ) (Vector3d 0 (- 1) (- 2)))"
    by (simp add: query_defs motion_defs algebra_defs)
  have d: "map_option fst (getSpatialVelocity motionHeap 3) =
      Some (Vector6d (Vector3d 0 1 0) (Vector3d 0 0 3))"
    by (simp add: query_defs motion_defs algebra_defs)
  from getSpatialVelocity_relative [OF a b c d] show ?thesis
    by (simp add: algebra_defs rotZ_def)
qed

text \<open>
  C5. Whenever, in a heap \<open>s\<close>, \<^verbatim>\<open>getTransform(inCoordinatesOf)\<close> of a frame returns
  \<open>T1\<close>, its \<^verbatim>\<open>getSpatialAcceleration()\<close> returns \<open>A1\<close>,
  \<^verbatim>\<open>relativeTo->getTransform(this)\<close> returns \<open>T2\<close>,
  \<^verbatim>\<open>relativeTo->getSpatialAcceleration()\<close> returns \<open>A2\<close>, its \<^verbatim>\<open>getSpatialVelocity()\<close>
  returns \<open>V1\<close>, \<^verbatim>\<open>getSpatialVelocity(relativeTo, this)\<close> returns \<open>V21\<close> and
  \<^verbatim>\<open>getSpatialVelocity(relativeTo, inCoordinatesOf)\<close> returns \<open>Vrel\<close>, the call
  \<^verbatim>\<open>getSpatialAcceleration(relativeTo, inCoordinatesOf)\<close> in \<open>s\<close> returns the rotational
  adjoint of \<open>T1\<close> applied to \<open>A1\<close>, minus the adjoint transport of \<open>A2\<close> through \<open>T2\<close>,
  minus the Lie bracket of \<open>V1\<close> with \<open>V21\<close>; and
  \<^verbatim>\<open>getLinearAcceleration(relativeTo, inCoordinatesOf)\<close> returns the last three
  components of that vector plus the cross product of the first three with the last
  three components of \<open>Vrel\<close>.
\<close>

theorem getSpatialAcceleration_relative:
  assumes "map_option fst (getTransform s this inCoordinatesOf) = Some T1"
    and "map_option fst (getSpatialAcceleration s this) = Some A1"
    and "map_option fst (getTransform s relativeTo this) = Some T2"
    and "map_option fst (getSpatialAcceleration s relativeTo) = Some A2"
    and "map_option fst (getSpatialVelocity s this) = Some V1"
    and "map_option fst (getSpatialVelocity2 s this relativeTo this) = Some V21"
    and "map_option fst (getSpatialVelocity2 s this relativeTo inCoordinatesOf) = Some Vrel"
  shows "map_option fst (getSpatialAcceleration2 s this relativeTo inCoordinatesOf) =
           Some (AdR T1 (sub6 (sub6 A1 (AdT T2 A2)) (ad V1 V21))) \<and>
         map_option fst (getLinearAcceleration s this relativeTo inCoordinatesOf) =
           Some (add3 (tail3 (AdR T1 (sub6 (sub6 A1 (AdT T2 A2)) (ad V1 V21))))
                      (cross (head3 Vrel) (tail3 Vrel)))"
proof -
  have a: "transformVal s this inCoordinatesOf T1"
    using transparent_getTransform assms(1) by (rule transparent_fst_value)
  have b: "spatialAccelerationVal s this A1"
    using transparent_getSpatialAcceleration assms(2) by (rule transparent_fst_value)
  have c: "transformVal s relativeTo this T2"
    using transparent_getTransform assms(3) by (rule transparent_fst_value)
  have d: "spatialAccelerationVal s relativeTo A2"
    using transparent_getSpatialAcceleration assms(4) by (rule transparent_fst_value)
  have e: "spatialVelocityVal s this V1"
    using transparent_getSpatialVelocity assms(5) by (rule transparent_fst_value)
  have f: "relativeVelocityVal this relativeTo this s V21"
    using transparent_getSpatialVelocity2 assms(6) by (rule transparent_fst_value)
  have g: "relativeVelocityVal this relativeTo inCoordinatesOf s Vrel"
    using transparent_getSpatialVelocity2 assms(7) by (rule transparent_fst_value)
  from a b c d e f
  have h: "relativeAccelerationVal this relativeTo inCoordinatesOf s
        (AdR T1 (sub6 (sub6 A1 (AdT T2 A2)) (ad V1 V21)))"
    unfolding relativeAccelerationVal_def by blast
  with transparent_getSpatialAcceleration2
  have r: "map_option fst (getSpatialAcceleration2 s this relativeTo inCoordinatesOf) =
           Some (AdR T1 (sub6 (sub6 A1 (AdT T2 A2)) (ad V1 V21)))"
    by (rule transparent_fst_returns)
  from g h
  have "linearAccelerationVal this relativeTo inCoordinatesOf s
          (add3 (tail3 (AdR T1 (sub6 (sub6 A1 (AdT T2 A2)) (ad V1 V21))))
                (cross (head3 Vrel) (tail3 Vrel)))"
    unfolding linearAccelerationVal_def by blast
  with transparent_getLinearAcceleration
  have "map_option fst (getLinearAcceleration s this relativeTo inCoordinatesOf) =
           Some (add3 (tail3 (AdR T1 (sub6 (sub6 A1 (AdT T2 A2)) (ad V1 V21))))
                      (cross (head3 Vrel) (tail3 Vrel)))"
    by (rule transparent_fst_returns)
  with r show ?thesis ..
qed

theorem getSpatialAcceleration_relative_witness:
  "map_option fst (getSpatialAcceleration2 motionHeap 2 3 0) =
     Some (Vector6d (Vector3d (- 2) 1 2) (Vector3d 3 5 (- 2))) \<and>
   map_option fst (getLinearAcceleration motionHeap 2 3 0) = Some (Vector3d 3 2 (- 2))"
proof -
  have a: "map_option fst (getTransform motionHeap 2 0) = Some (Isometry3d rotZ (Vector3d 0 0 2))"
    by (simp add: query_defs motion_defs algebra_defs)
  have b: "map_option fst (getSpatialAcceleration motionHeap 2) =
      Some (Vector6d (Vector3d 1 0 2) (Vector3d 1 1 1))"
    by (simp add: query_defs motion_defs algebra_defs)
  have c: "map_option fst (getTransform motionHeap 3 2) =
      Some (Isometry3d (transpose3 rotZ) (Vector3d 0 (- 1) (- 2)))"
    by (simp add: query_defs motion_defs algebra_defs)
  have d: "map_option fst (getSpatialAcceleration motionHeap 3) =
      Some (Vector6d (Vector3d 1 0 0) (Vector3d 0 0 0))"
    by (simp add: query_defs motion_defs algebra_defs)
  have e: "map_option fst (getSpatialVelocity motionHeap 2) =
      Some (Vector6d (Vector3d 1 0 1) (Vector3d 0 1 0))"
    by (simp add: query_defs motion_defs algebra_defs)
  have f: "map_option fst (getSpatialVelocity2 motionHeap 2 3 2) =
      Some (Vector6d (Vector3d 0 0 1) (Vector3d 0 3 (- 4)))"
    by (simp add: query_defs motion_defs algebra_defs)
  have g: "map_option fst (getSpatialVelocity2 motionHeap 2 3 0) =
      Some (Vector6d (Vector3d 0 0 1) (Vector3d (- 3) 0 (- 4)))"
    by (simp add: query_defs motion_defs algebra_defs)
  from getSpatialAcceleration_relative [OF a b c d e f g] show ?thesis
    by (simp add: algebra_defs rotZ_def)
qed




section \<open>Claims on the World frame\<close>

lemmas world_defs =
  worldHeap_def notifiedWorldHeap_def exWorld_def newWorldFrame_def worldAddr_def raise_def

text \<open>
  C7 (as amended). Once the World frame is constructed, no operation changes its cached
  pose, velocity and acceleration or clears one of its three dirty flags, and every
  operation other than the notify methods leaves the three flags as they are: so do its
  self-reparenting bootstrap, the queries, reparenting and destruction. The notify
  methods have no guard for the World frame: called on the World frame,
  \<^verbatim>\<open>notifyTransformUpdate()\<close> leaves all three of its flags set,
  \<^verbatim>\<open>notifyVelocityUpdate()\<close> the velocity and the acceleration flag, and
  \<^verbatim>\<open>notifyAccelerationUpdate()\<close> the acceleration flag.
\<close>

theorem World_flags_kept:
  assumes "getFrame s worldAddr = Some f" and "mAmWorld f" and "frameStep notifies s s'"
  shows "\<exists>f'. getFrame s' worldAddr = Some f' \<and> mAmWorld f' \<and>
           mWorldTransform f' = mWorldTransform f \<and> mVelocity f' = mVelocity f \<and>
           mAcceleration f' = mAcceleration f \<and>
           (mNeedTransformUpdate f \<longrightarrow> mNeedTransformUpdate f') \<and>
           (mNeedVelocityUpdate f \<longrightarrow> mNeedVelocityUpdate f') \<and>
           (mNeedAccelerationUpdate f \<longrightarrow> mNeedAccelerationUpdate f') \<and>
           (\<not> notifies \<longrightarrow>
              mNeedTransformUpdate f' = mNeedTransformUpdate f \<and>
              mNeedVelocityUpdate f' = mNeedVelocityUpdate f \<and>
              mNeedAccelerationUpdate f' = mNeedAccelerationUpdate f) \<and>
           ((\<exists>n. notifyTransformUpdate n s worldAddr = Some s') \<longrightarrow>
              mNeedTransformUpdate f' \<and> mNeedVelocityUpdate f' \<and> mNeedAccelerationUpdate f') \<and>
           ((\<exists>n. notifyVelocityUpdate n s worldAddr = Some s') \<longrightarrow>
              mNeedVelocityUpdate f' \<and> mNeedAccelerationUpdate f') \<and>
           ((\<exists>n. notifyAccelerationUpdate n s worldAddr = Some s') \<longrightarrow>
              mNeedAccelerationUpdate f')"
proof -
  from assms(1) have c: "s worldAddr = Some (FrameObj f)" by (simp only: getFrame_Some)
  from frameStep_worldCellStep [OF assms(3)]
  have "worldCellStep notifies (Some (FrameObj f)) (s' worldAddr)" unfolding c .
  from this assms(2)
  obtain f' where f': "s' worldAddr = Some (FrameObj f')" "mAmWorld f'"
    "worldCache f' = worldCache f" "flagsKept notifies f f'"
    by (rule worldCellStep_world)
  from f'(1) have g: "getFrame s' worldAddr = Some f'" by (simp only: getFrame_Some)
  have n: "mNeedTransformUpdate f' \<and> mNeedVelocityUpdate f' \<and> mNeedAccelerationUpdate f'"
    if "\<exists>n. notifyTransformUpdate n s worldAddr = Some s'"
  proof -
    from that obtain n where "notifyTransformUpdate n s worldAddr = Some s'" ..
    from this assms(1) obtain h where "getFrame s' worldAddr = Some h"
      "mNeedTransformUpdate h" "mNeedVelocityUpdate h" "mNeedAccelerationUpdate h"
      by (rule notifyTransformUpdate_sets)
    with g show ?thesis by simp
  qed
  have v: "mNeedVelocityUpdate f' \<and> mNeedAccelerationUpdate f'"
    if "\<exists>n. notifyVelocityUpdate n s worldAddr = Some s'"
  proof -
    from that obtain n where "notifyVelocityUpdate n s worldAddr = Some s'" ..
    from this assms(1) obtain h where "getFrame s' worldAddr = Some h"
      "mNeedVelocityUpdate h" "mNeedAccelerationUpdate h"
      by (rule notifyVelocityUpdate_sets)
    with g show ?thesis by simp
  qed
  have a: "mNeedAccelerationUpdate f'"
    if "\<exists>n. notifyAccelerationUpdate n s worldAddr = Some s'"
  proof -
    from that obtain n where "notifyAccelerationUpdate n s worldAddr = Some s'" ..
    from this assms(1) obtain h where "getFrame s' worldAddr = Some h"
      "mNeedAccelerationUpdate h"
      by (rule notifyAccelerationUpdate_sets)
    with g show ?thesis by simp
  qed
  from f'(3) have "mWorldTransform f' = mWorldTransform f" "mVelocity f' = mVelocity f"
    "mAcceleration f' = mAcceleration f"
    by (simp_all add: worldCache_def)
  moreover from f'(4) have
    "mNeedTransformUpdate f \<longrightarrow> mNeedTransformUpdate f'"
    "mNeedVelocityUpdate f \<longrightarrow> mNeedVelocityUpdate f'"
    "mNeedAccelerationUpdate f \<longrightarrow> mNeedAccelerationUpdate f'"
    "\<not> notifies \<longrightarrow>
              mNeedTransformUpdate f' = mNeedTransformUpdate f \<and>
              mNeedVelocityUpdate f' = mNeedVelocityUpdate f \<and>
              mNeedAccelerationUpdate f' = mNeedAccelerationUpdate f"
    by (simp_all add: flagsKept_def worldFlags_def)
  ultimately show ?thesis using g f'(2) n v a by blast
qed

theorem World_flags_kept_witness:
  "\<exists>s' f'. notifyTransformUpdate 3 worldHeap worldAddr = Some s' \<and>
     getFrame s' worldAddr = Some f' \<and> mAmWorld f' \<and>
     mWorldTransform f' = Identity \<and> mVelocity f' = Zero6 \<and> mAcceleration f' = Zero6 \<and>
     mNeedTransformUpdate f' \<and> mNeedVelocityUpdate f' \<and> mNeedAccelerationUpdate f'"
proof -
  have n: "notifyTransformUpdate 3 worldHeap worldAddr = Some notifiedWorldHeap"
    by (simp add: numeral_3_eq_3 getFrame_def world_defs)
  have f: "getFrame worldHeap worldAddr = Some (exWorld [])"
    by (simp add: getFrame_def worldHeap_def)
  have w: "mAmWorld (exWorld [])"
    by (simp add: exWorld_def newWorldFrame_def)
  from World_flags_kept [OF f w frameStep.notifyTransformUpdate [OF n]] n
  obtain f' where "getFrame notifiedWorldHeap worldAddr = Some f'" "mAmWorld f'"
    "mWorldTransform f' = mWorldTransform (exWorld [])" "mVelocity f' = mVelocity (exWorld [])"
    "mAcceleration f' = mAcceleration (exWorld [])"
    "mNeedTransformUpdate f'" "mNeedVelocityUpdate f'" "mNeedAccelerationUpdate f'"
    by blast
  with n show ?thesis by (simp add: exWorld_def newWorldFrame_def)
qed

text \<open>From the empty heap, the first call of \<^verbatim>\<open>Frame::World()\<close> constructs the World
  frame, and \<^verbatim>\<open>notifyTransformUpdate()\<close> called on it sets its three dirty flags.\<close>

theorem World_flags_kept_counterexample:
  "World Map.empty = Some (worldAddr, [], worldHeap) \<and>
   notifyTransformUpdate 3 worldHeap worldAddr = Some notifiedWorldHeap \<and>
   map_option mAmWorld (getFrame notifiedWorldHeap worldAddr) = Some True \<and>
   map_option worldFlags (getFrame notifiedWorldHeap worldAddr) = Some (True, True, True)"
  by (simp add: World_def WorldFrame_ctor_def changeParentFrame_def dependsOn.simps
      isWorld_def Entity_changeParentFrame_def getParentFrame_def getAmQuiet_def
      setParentFrame_def numeral_3_eq_3 getFrame_def worldFlags_def world_defs)

text \<open>
  C8. In every heap of a run of the program, \<^verbatim>\<open>Frame::World()\<close> returns, and returns the
  one address of the World frame; called again it returns the same address and changes
  nothing; and \<^verbatim>\<open>getWorldTransform()\<close>, \<^verbatim>\<open>getSpatialVelocity()\<close> and
  \<^verbatim>\<open>getSpatialAcceleration()\<close> of that frame return the identity, zero and zero, and
  change nothing, whatever notify, reparenting and other operations came before.
\<close>

theorem World_invariant:
  assumes "reachable s"
  shows "\<exists>out s'. World s = Some (worldAddr, out, s') \<and>
           World s' = Some (worldAddr, [], s') \<and>
           getWorldTransform s' worldAddr = Some (Identity, s') \<and>
           getSpatialVelocity s' worldAddr = Some (Zero6, s') \<and>
           getSpatialAcceleration s' worldAddr = Some (Zero6, s')"
proof -
  from World_returns obtain out s' where W: "World s = Some (worldAddr, out, s')" by blast
  from assms have "worldCell (s worldAddr)" by (rule reachable_worldCell)
  with W obtain f where f: "s' worldAddr = Some (FrameObj f)" "mAmWorld f"
    "worldCache f = (Identity, Zero6, Zero6)"
    by (rule World_constructed)
  from f(1) have g: "getFrame s' worldAddr = Some f" by (simp only: getFrame_Some)
  from f(3) have c: "mWorldTransform f = Identity" "mVelocity f = Zero6"
    "mAcceleration f = Zero6"
    by (simp_all add: worldCache_def)
  have "World s' = Some (worldAddr, [], s')" using f(1) by (rule World_exists)
  moreover have "getWorldTransform s' worldAddr = Some (Identity, s')"
    using getWorldTransform_world [OF g f(2)] by (simp add: c)
  moreover have "getSpatialVelocity s' worldAddr = Some (Zero6, s')"
    using getSpatialVelocity_world [OF g f(2)] by (simp add: c)
  moreover have "getSpatialAcceleration s' worldAddr = Some (Zero6, s')"
    using getSpatialAcceleration_world [OF g f(2)] by (simp add: c)
  ultimately show ?thesis using W by blast
qed

theorem World_invariant_witness:
  "World notifiedWorldHeap = Some (worldAddr, [], notifiedWorldHeap) \<and>
   getWorldTransform notifiedWorldHeap worldAddr = Some (Identity, notifiedWorldHeap) \<and>
   getSpatialVelocity notifiedWorldHeap worldAddr = Some (Zero6, notifiedWorldHeap) \<and>
   getSpatialAcceleration notifiedWorldHeap worldAddr = Some (Zero6, notifiedWorldHeap)"
proof -
  have "reachable Map.empty" by (rule reachable.start) simp
  moreover have "World Map.empty = Some (worldAddr, [], worldHeap)"
    by (simp add: World_def WorldFrame_ctor_def changeParentFrame_def dependsOn.simps
      isWorld_def Entity_changeParentFrame_def getParentFrame_def getAmQuiet_def
      setParentFrame_def getFrame_def world_defs)
  then have "frameStep False Map.empty worldHeap" by (rule frameStep.World)
  ultimately have "reachable worldHeap" by (rule reachable.step)
  moreover have "notifyTransformUpdate 3 worldHeap worldAddr = Some notifiedWorldHeap"
    by (simp add: numeral_3_eq_3 getFrame_def world_defs)
  then have "frameStep True worldHeap notifiedWorldHeap"
    by (rule frameStep.notifyTransformUpdate)
  ultimately have "reachable notifiedWorldHeap" by (rule reachable.step)
  from World_invariant [OF this]
  obtain out s' where r: "World notifiedWorldHeap = Some (worldAddr, out, s')"
    "World s' = Some (worldAddr, [], s')"
    "getWorldTransform s' worldAddr = Some (Identity, s')"
    "getSpatialVelocity s' worldAddr = Some (Zero6, s')"
    "getSpatialAcceleration s' worldAddr = Some (Zero6, s')"
    by blast
  have "World notifiedWorldHeap = Some (worldAddr, [], notifiedWorldHeap)"
    by (simp add: World_def notifiedWorldHeap_def)
  with r(1) have "s' = notifiedWorldHeap" by simp
  with r show ?thesis by simp
qed

end
